(* ===== verification/Otrix_Prelude.thy ===== *)
theory Otrix_Prelude
  imports Main "HOL-Library.Word" "HOL-Library.Monad_Syntax"
begin

text \<open>
  The ground the component theories stand on: the machine integers of the x86_64 target,
  a flat byte memory with the little-endian accesses the compiled code makes, the error codes
  of common/include/common/error.h, the assertion macro of common/include/common/assert.h and the
  byte-order macros of common/include/common/utils.h, with the lemmas on words, bytes
  and address ranges that the components share.

  An address is a 64-bit word and address arithmetic wraps.  \<open>separate a la b lb\<close> says that
  the \<open>la\<close> bytes from \<open>a\<close> and the \<open>lb\<close> bytes from \<open>b\<close> do not meet, whichever way
  round the address space they lie.
\<close>

unbundle bit_operations_syntax

type_synonym u8 = "8 word"
type_synonym u16 = "16 word"
type_synonym u32 = "32 word"
type_synonym u64 = "64 word"
type_synonym ptr = u64
type_synonym memory = "u64 \<Rightarrow> u8"

abbreviation NULL :: ptr where
  "NULL \<equiv> 0"

subsection \<open>Error codes and the assertion macro\<close>

datatype kerror_t =
    E_OK | E_NODEV | E_NOMEM | E_INVAL | E_TOUT | E_UNREACHABLE | E_NOIMPL | E_ADDRINUSE | E_PIPE

text \<open>
  \<open>kASSERT\<close> is the loop \<open>while (!(expr))\<close> with an empty body: it falls through when the condition
  holds and spins for ever when it does not.  Not returning is the value \<^const>\<open>None\<close>.
\<close>

definition kASSERT :: "bool \<Rightarrow> unit option" where
  "kASSERT expr = (if expr then Some () else None)"

lemma kASSERT_simps [simp]: "kASSERT True = Some ()" "kASSERT False = None"
  by (simp_all add: kASSERT_def)

lemma kASSERT_bind [simp]: "kASSERT b \<bind> f = (if b then f () else None)"
  by (simp add: kASSERT_def)

subsection \<open>Little-endian bytes of a word\<close>

primrec le_word :: "u8 list \<Rightarrow> 'a::len word" where
  "le_word [] = 0"
| "le_word (b # bs) = ucast b OR push_bit 8 (le_word bs)"

primrec le_bytes :: "nat \<Rightarrow> 'a::len word \<Rightarrow> u8 list" where
  "le_bytes 0 w = []"
| "le_bytes (Suc n) w = ucast w # le_bytes n (drop_bit 8 w)"

subsection \<open>Byte memory\<close>

definition read_bytes :: "memory \<Rightarrow> ptr \<Rightarrow> nat \<Rightarrow> u8 list" where
  "read_bytes m a n = map (\<lambda>i. m (a + of_nat i)) [0..<n]"

definition write_bytes :: "ptr \<Rightarrow> u8 list \<Rightarrow> memory \<Rightarrow> memory" where
  "write_bytes a bs m =
     (\<lambda>x. if unat (x - a) < length bs then bs ! unat (x - a) else m x)"

definition load64 :: "memory \<Rightarrow> ptr \<Rightarrow> u64" where
  "load64 m a = le_word (read_bytes m a 8)"

definition store64 :: "ptr \<Rightarrow> u64 \<Rightarrow> memory \<Rightarrow> memory" where
  "store64 a v m = write_bytes a (le_bytes 8 v) m"

definition load16 :: "memory \<Rightarrow> ptr \<Rightarrow> u16" where
  "load16 m a = le_word (read_bytes m a 2)"

definition load32 :: "memory \<Rightarrow> ptr \<Rightarrow> u32" where
  "load32 m a = le_word (read_bytes m a 4)"

definition store8 :: "ptr \<Rightarrow> u8 \<Rightarrow> memory \<Rightarrow> memory" where
  "store8 a v m = write_bytes a [v] m"

definition store16 :: "ptr \<Rightarrow> u16 \<Rightarrow> memory \<Rightarrow> memory" where
  "store16 a v m = write_bytes a (le_bytes 2 v) m"

definition store32 :: "ptr \<Rightarrow> u32 \<Rightarrow> memory \<Rightarrow> memory" where
  "store32 a v m = write_bytes a (le_bytes 4 v) m"

definition separate :: "ptr \<Rightarrow> nat \<Rightarrow> ptr \<Rightarrow> nat \<Rightarrow> bool" where
  "separate a la b lb \<longleftrightarrow> la \<le> unat (b - a) \<and> lb \<le> unat (a - b)"

subsection \<open>Lemmas on lists, bytes and address ranges\<close>

lemma set_tlD: "x \<in> set (tl xs) \<Longrightarrow> x \<in> set xs"
  by (cases xs) auto

lemma distinct_hd_tl: "distinct xs \<Longrightarrow> x \<in> set (tl xs) \<Longrightarrow> x \<noteq> hd xs"
  by (cases xs) auto

lemma length_le_bytes [simp]: "length (le_bytes n w) = n"
  by (induction n arbitrary: w) auto

lemma length_read_bytes [simp]: "length (read_bytes m a n) = n"
  by (simp add: read_bytes_def)

lemma nth_le_bytes: "i < n \<Longrightarrow> le_bytes n w ! i = ucast (drop_bit (8 * i) w)"
  by (induction n arbitrary: w i) (auto simp: nth_Cons add.commute split: nat.split)

lemma bit_le_word:
  "bit (le_word bs :: 'a::len word) n \<longleftrightarrow>
     n < LENGTH('a) \<and> n div 8 < length bs \<and> bit (bs ! (n div 8)) (n mod 8)"
proof (induction bs arbitrary: n)
  case Nil
  then show ?case by simp
next
  case (Cons b bs)
  show ?case
  proof (cases "n < 8")
    case True
    then show ?thesis by (auto simp: bit_or_iff bit_push_bit_iff bit_ucast_iff)
  next
    case False
    then obtain k where n: "n = k + 8" by (metis add.commute le_Suc_ex not_less)
    have "\<not> bit b n" using False bit_imp_le_length [of b n] by auto
    moreover have "(k + 8) div 8 = Suc (k div 8)" by (simp add: div_add_self2)
    ultimately show ?thesis using Cons.IH [of k]
      by (auto simp: n bit_or_iff bit_push_bit_iff bit_ucast_iff)
  qed
qed

lemma le_word_le_bytes:
  assumes "LENGTH('a::len) \<le> 8 * n"
  shows "le_word (le_bytes n w) = (w :: 'a word)"
proof (rule bit_eqI)
  fix k assume "possible_bit TYPE('a word) k"
  then have k: "k < LENGTH('a)" by simp
  then have "k div 8 < n" using assms by (simp add: less_mult_imp_div_less mult.commute)
  then show "bit (le_word (le_bytes n w) :: 'a word) k = bit w k"
    using k by (simp add: bit_le_word nth_le_bytes bit_ucast_iff bit_drop_bit_eq)
qed

lemma le_bytes_le_word:
  assumes "8 * length bs \<le> LENGTH('a::len)"
  shows "le_bytes (length bs) (le_word bs :: 'a word) = bs"
proof (rule nth_equalityI)
  fix i assume "i < length (le_bytes (length bs) (le_word bs :: 'a word))"
  then have i: "i < length bs" by simp
  show "le_bytes (length bs) (le_word bs :: 'a word) ! i = bs ! i"
  proof (rule bit_eqI)
    fix k assume "possible_bit TYPE(8 word) k"
    then have k: "k < 8" by simp
    then have "8 * i + k < LENGTH('a)" "(8 * i + k) div 8 = i" "(8 * i + k) mod 8 = k"
      using i assms by auto
    then show "bit (le_bytes (length bs) (le_word bs :: 'a word) ! i) k = bit (bs ! i) k"
      using i k by (simp add: nth_le_bytes bit_ucast_iff bit_drop_bit_eq bit_le_word)
  qed
qed simp

lemma unat_of_nat64: "n < 2 ^ 64 \<Longrightarrow> unat (of_nat n :: u64) = n"
  by (simp add: unat_of_nat)

lemma unat_less: "unat (w :: 'a::len word) < 2 ^ LENGTH('a)"
  by (rule unsigned_less)

lemma unat_less64: "unat (w :: u64) < 2 ^ 64"
  using unat_less [of w] by simp

lemma unat_ucast32: "unat (ucast (w :: u32) :: u64) = unat w"
  using unat_less [of w] by (simp add: unsigned_ucast_eq take_bit_nat_eq_self)

lemma of_nat64_less: "k < 2 ^ 64 \<Longrightarrow> l < 2 ^ 64 \<Longrightarrow> (of_nat k :: u64) < of_nat l \<longleftrightarrow> k < l"
  by (simp add: word_less_nat_alt unat_of_nat64)

lemma of_nat64_le: "k < 2 ^ 64 \<Longrightarrow> l < 2 ^ 64 \<Longrightarrow> (of_nat k :: u64) \<le> of_nat l \<longleftrightarrow> k \<le> l"
  by (simp add: word_le_nat_alt unat_of_nat64)

lemma of_nat64_eq: "k < 2 ^ 64 \<Longrightarrow> l < 2 ^ 64 \<Longrightarrow> (of_nat k :: u64) = of_nat l \<longleftrightarrow> k = l"
  by (metis unat_of_nat64)

lemma unat_offset:
  assumes "unat (b - a) + i < 2 ^ 64"
  shows "unat (b + of_nat i - a :: u64) = unat (b - a) + i"
proof -
  have "unat ((b - a) + of_nat i) = (unat (b - a) + i) mod 2 ^ 64"
    by (subst unat_word_ariths) (simp add: unat_of_nat mod_simps)
  moreover have "b + of_nat i - a = (b - a) + of_nat i" by simp
  ultimately show ?thesis using assms by (metis mod_less)
qed

lemma unat_diff_sum:
  fixes a b :: u64
  assumes "b \<noteq> a"
  shows "unat (a - b) + unat (b - a) = 2 ^ 64"
proof -
  have "unat a < 2 ^ 64" "unat b < 2 ^ 64"
    using unsigned_less [of a] unsigned_less [of b] by simp_all
  moreover have "unat a \<noteq> unat b" using assms by (simp add: word_unat_eq_iff)
  ultimately show ?thesis
    using unat_sub_if' [of a b] unat_sub_if' [of b a] by (simp split: if_splits)
qed

lemma separate_offset:
  assumes "separate a la b lb" "i < lb"
  shows "la \<le> unat (b + of_nat i - a)"
proof (cases "la = 0")
  case False
  then have "unat (b - a) \<noteq> 0" using assms by (auto simp: separate_def)
  then have "b \<noteq> a" by auto
  then have "unat (b - a) + i < 2 ^ 64"
    using assms unat_diff_sum [of b a] by (simp add: separate_def)
  then show ?thesis using assms(1) by (simp add: unat_offset separate_def)
qed simp

lemma separate_sym: "separate a la b lb \<longleftrightarrow> separate b lb a la"
  by (auto simp: separate_def)

lemma read_write_same:
  "n = length bs \<Longrightarrow> n \<le> 2 ^ 64 \<Longrightarrow> read_bytes (write_bytes a bs m) a n = bs"
  by (rule nth_equalityI) (auto simp: read_bytes_def write_bytes_def unat_of_nat)

lemma read_write_separate:
  "separate a (length bs) b n \<Longrightarrow> read_bytes (write_bytes a bs m) b n = read_bytes m b n"
  by (auto simp: read_bytes_def write_bytes_def dest: separate_offset)

lemma load64_store64_same [simp]: "load64 (store64 a v m) a = v"
  by (simp add: load64_def store64_def read_write_same le_word_le_bytes)

lemma load64_store64_separate:
  "separate a 8 b 8 \<Longrightarrow> load64 (store64 a v m) b = load64 m b"
  by (simp add: load64_def store64_def read_write_separate)

lemma unat_minus_offset:
  "n < 2 ^ 64 \<Longrightarrow> unat (x - (a + of_nat n) :: u64) =
    (if n \<le> unat (x - a) then unat (x - a) - n else 2 ^ 64 + unat (x - a) - n)"
proof -
  assume n: "n < 2 ^ 64"
  have u: "unat (of_nat n :: u64) = n" using n by (rule unat_of_nat64)
  have "unat (x - (a + of_nat n)) = unat ((x - a) - of_nat n)" by (simp add: diff_diff_eq)
  also have "\<dots> = (if n \<le> unat (x - a) then unat (x - a) - n else unat (x - a) + 2 ^ 64 - n)"
    using unat_sub_if' [of "x - a" "of_nat n"] unfolding u by simp
  finally show ?thesis by (simp add: add.commute)
qed

lemma write_write_within:
  assumes "i + length ys \<le> length xs" "length xs < 2 ^ 64"
  shows "write_bytes (a + of_nat i) ys (write_bytes a xs m) =
    write_bytes a (take i xs @ ys @ drop (i + length ys) xs) m"
proof
  fix x
  show "write_bytes (a + of_nat i) ys (write_bytes a xs m) x =
      write_bytes a (take i xs @ ys @ drop (i + length ys) xs) m x"
    using assms unat_less64 [of "x - a"]
    by (auto simp: write_bytes_def unat_minus_offset nth_append)
qed

lemma write_write_append:
  assumes "length xs + length ys < 2 ^ 64"
  shows "write_bytes (a + of_nat (length xs)) ys (write_bytes a xs m) = write_bytes a (xs @ ys) m"
proof
  fix x
  show "write_bytes (a + of_nat (length xs)) ys (write_bytes a xs m) x = write_bytes a (xs @ ys) m x"
    using assms unat_less64 [of "x - a"]
    by (auto simp: write_bytes_def unat_minus_offset nth_append)
qed

lemma write_write_separate:
  assumes "separate a (length xs) b (length ys)"
  shows "write_bytes a xs (write_bytes b ys m) = write_bytes b ys (write_bytes a xs m)"
proof
  fix x
  have "\<not> (unat (x - a) < length xs \<and> unat (x - b) < length ys)"
  proof
    assume h: "unat (x - a) < length xs \<and> unat (x - b) < length ys"
    have "x = b + of_nat (unat (x - b))" by simp
    then have "length xs \<le> unat (x - a)" using separate_offset [OF assms, of "unat (x - b)"] h by metis
    then show False using h by simp
  qed
  then show "write_bytes a xs (write_bytes b ys m) x = write_bytes b ys (write_bytes a xs m) x"
    by (auto simp: write_bytes_def)
qed

lemma read_write_within:
  assumes "i + n \<le> length xs" "length xs < 2 ^ 64"
  shows "read_bytes (write_bytes a xs m) (a + of_nat i) n = take n (drop i xs)"
proof (rule nth_equalityI)
  fix k assume "k < length (read_bytes (write_bytes a xs m) (a + of_nat i) n)"
  then have k: "k < n" by simp
  have "unat (a + of_nat i + of_nat k - a) = i + k"
    using unat_of_nat64 [of "i + k"] k assms by simp
  then show "read_bytes (write_bytes a xs m) (a + of_nat i) n ! k = take n (drop i xs) ! k"
    using k assms by (simp add: read_bytes_def write_bytes_def)
qed (use assms in simp)

lemma read_bytes_add: "read_bytes m a (i + n) = read_bytes m a i @ read_bytes m (a + of_nat i) n"
  by (rule nth_equalityI) (auto simp: read_bytes_def nth_append algebra_simps)

lemma take_read_bytes: "k \<le> n \<Longrightarrow> take k (read_bytes m a n) = read_bytes m a k"
  by (rule nth_equalityI) (auto simp: read_bytes_def)

lemma drop_read_bytes: "k \<le> n \<Longrightarrow> drop k (read_bytes m a n) = read_bytes m (a + of_nat k) (n - k)"
  using read_bytes_add [of m a k "n - k"] by simp

lemma read_bytes_at: "read_bytes m p n = bs \<Longrightarrow> i < n \<Longrightarrow> m (p + of_nat i) = bs ! i"
  by (auto simp: read_bytes_def)

lemma read_bytes_part: "read_bytes m p n = bs \<Longrightarrow> i + k \<le> n \<Longrightarrow> read_bytes m (p + of_nat i) k = take k (drop i bs)"
  by (rule nth_equalityI) (auto simp: read_bytes_def add.assoc)

lemma write_read_same: "n < 2 ^ 64 \<Longrightarrow> write_bytes a (read_bytes m a n) m = m"
proof
  fix x assume "n < 2 ^ 64"
  have "a + (x - a) = x" by simp
  then show "write_bytes a (read_bytes m a n) m x = m x" by (simp add: write_bytes_def read_bytes_def)
qed

lemma write_bytes_separate_at:
  assumes "separate a (length bs) p n" "unat k < n"
  shows "write_bytes a bs m (p + k) = m (p + k)"
  using separate_offset [OF assms] by (simp add: write_bytes_def)

lemma read_write_separate_at:
  assumes "separate a (length bs) p n" "unat k + l \<le> n" "n \<le> 2 ^ 64"
  shows "read_bytes (write_bytes a bs m) (p + k) l = read_bytes m (p + k) l"
proof (rule nth_equalityI)
  fix i assume "i < length (read_bytes (write_bytes a bs m) (p + k) l)"
  then have i: "i < l" by simp
  have "unat (k + of_nat i) = unat k + i" using i assms(2,3) unat_offset [of k 0 i] by simp
  then have "write_bytes a bs m (p + (k + of_nat i)) = m (p + (k + of_nat i))"
    using write_bytes_separate_at [OF assms(1), of "k + of_nat i"] i assms(2) by simp
  then show "read_bytes (write_bytes a bs m) (p + k) l ! i = read_bytes m (p + k) l ! i"
    using i by (simp add: read_bytes_def add.assoc)
qed simp

subsection \<open>Ranges inside one object\<close>

lemma separate_offsets:
  assumes "i + li \<le> j \<or> j + lj \<le> i" "i + li \<le> 2 ^ 63" "j + lj \<le> 2 ^ 63" "0 < li" "0 < lj"
  shows "separate (p + of_nat i) li (p + of_nat j) lj"
proof -
  have "unat (p + of_nat j - (p + of_nat i) :: u64) = (if i \<le> j then j - i else 2 ^ 64 + j - i)"
      "unat (p + of_nat i - (p + of_nat j) :: u64) = (if j \<le> i then i - j else 2 ^ 64 + i - j)"
    using unat_minus_offset [of i "p + of_nat j" p] unat_minus_offset [of j "p + of_nat i" p] assms by (simp_all add: unat_of_nat64)
  then show ?thesis using assms by (auto simp: separate_def)
qed

lemma load32_store32 [simp]: "load32 (store32 a v m) a = v"
  by (simp add: load32_def store32_def read_write_same le_word_le_bytes)

lemma load16_store16 [simp]: "load16 (store16 a v m) a = v"
  by (simp add: load16_def store16_def read_write_same le_word_le_bytes)

text \<open>Reads and writes at offsets of one object that do not meet.\<close>

definition apart :: "nat \<Rightarrow> nat \<Rightarrow> nat \<Rightarrow> nat \<Rightarrow> bool" where
  "apart i li j lj \<longleftrightarrow> (i + li \<le> j \<or> j + lj \<le> i) \<and> i + li \<le> 2 ^ 63 \<and> j + lj \<le> 2 ^ 63"

lemma read_write_apart:
  assumes "apart i (length bs) j n"
  shows "read_bytes (write_bytes (p + of_nat i) bs m) (p + of_nat j) n = read_bytes m (p + of_nat j) n"
proof (cases "n = 0 \<or> bs = []")
  case True
  then show ?thesis by (auto simp: read_bytes_def write_bytes_def)
next
  case False
  then show ?thesis by (intro read_write_separate separate_offsets) (use assms in \<open>auto simp: apart_def\<close>)
qed

lemma read_store_apart:
  "apart i 8 j n \<Longrightarrow> read_bytes (store64 (p + of_nat i) v m) (p + of_nat j) n = read_bytes m (p + of_nat j) n"
  "apart i 4 j n \<Longrightarrow> read_bytes (store32 (p + of_nat i) w m) (p + of_nat j) n = read_bytes m (p + of_nat j) n"
  "apart i 2 j n \<Longrightarrow> read_bytes (store16 (p + of_nat i) x m) (p + of_nat j) n = read_bytes m (p + of_nat j) n"
  by (simp_all add: store64_def store32_def store16_def read_write_apart)

lemma load_store_apart:
  "apart i 8 j 8 \<Longrightarrow> load64 (store64 (p + of_nat i) v m) (p + of_nat j) = load64 m (p + of_nat j)"
  "apart i 8 j 4 \<Longrightarrow> load32 (store64 (p + of_nat i) v m) (p + of_nat j) = load32 m (p + of_nat j)"
  "apart i 8 j 2 \<Longrightarrow> load16 (store64 (p + of_nat i) v m) (p + of_nat j) = load16 m (p + of_nat j)"
  "apart i 4 j 8 \<Longrightarrow> load64 (store32 (p + of_nat i) w m) (p + of_nat j) = load64 m (p + of_nat j)"
  "apart i 4 j 4 \<Longrightarrow> load32 (store32 (p + of_nat i) w m) (p + of_nat j) = load32 m (p + of_nat j)"
  "apart i 4 j 2 \<Longrightarrow> load16 (store32 (p + of_nat i) w m) (p + of_nat j) = load16 m (p + of_nat j)"
  "apart i 2 j 8 \<Longrightarrow> load64 (store16 (p + of_nat i) x m) (p + of_nat j) = load64 m (p + of_nat j)"
  "apart i 2 j 4 \<Longrightarrow> load32 (store16 (p + of_nat i) x m) (p + of_nat j) = load32 m (p + of_nat j)"
  "apart i 2 j 2 \<Longrightarrow> load16 (store16 (p + of_nat i) x m) (p + of_nat j) = load16 m (p + of_nat j)"
  by (simp_all add: load64_def load32_def load16_def read_store_apart)

subsection \<open>Byte order\<close>

text \<open>The target is little-endian, so all four macros of utils.h are the byte swap.\<close>

definition bswap16 :: "u16 \<Rightarrow> u16" where
  "bswap16 x = le_word (rev (le_bytes 2 x))"

definition bswap32 :: "u32 \<Rightarrow> u32" where
  "bswap32 x = le_word (rev (le_bytes 4 x))"

lemma bswap16_bswap16 [simp]: "bswap16 (bswap16 x) = x"
  using le_bytes_le_word [where 'a = 16, of "rev (le_bytes 2 x)"]
  by (simp add: bswap16_def le_word_le_bytes)

lemma bswap32_bswap32 [simp]: "bswap32 (bswap32 x) = x"
  using le_bytes_le_word [where 'a = 32, of "rev (le_bytes 4 x)"]
  by (simp add: bswap32_def le_word_le_bytes)

end
