(* ===== verification/Intrusive_List.thy ===== *)
theory Intrusive_List
  imports Otrix_Prelude
begin

text \<open>
  The circular intrusive doubly linked list of common/include/common/list.h.

  The routines only touch memory through the \<open>next\<close> and \<open>prev\<close> fields of a node, so they are
  written once over an access record \<open>intrusive_list\<close> that says how a memory of type \<open>'m\<close> holds
  these fields.  Two memories use them: the byte memory of the allocator, where the node
  overlays the block header (theory Kmem), and the split heap \<open>link_heap\<close> at the end of this
  theory, which all other clients use.  An assertion that fails, and a loop
  that never ends, is the result \<^const>\<open>None\<close>.

  \<open>dlist A sep m head xs\<close> states that \<open>head\<close> is the head of a ring through exactly
  the nodes \<open>xs\<close>, in this order.  The locale \<open>list_memory\<close> holds the laws a memory has to provide
  and proves each routine correct against \<open>dlist\<close>, together with a frame rule: a
  routine leaves every observation alone that does not read the nodes of the list.
\<close>

subsection \<open>The routines\<close>

record 'm intrusive_list =
  rd_next :: "'m \<Rightarrow> ptr \<Rightarrow> ptr"
  rd_prev :: "'m \<Rightarrow> ptr \<Rightarrow> ptr"
  wr_next :: "ptr \<Rightarrow> ptr \<Rightarrow> 'm \<Rightarrow> 'm"
  wr_prev :: "ptr \<Rightarrow> ptr \<Rightarrow> 'm \<Rightarrow> 'm"

definition intrusive_list_init ::
  "'m intrusive_list \<Rightarrow> ptr \<Rightarrow> 'm \<Rightarrow> (ptr \<times> 'm) option" where
  "intrusive_list_init A node m = do {
     kASSERT (node \<noteq> NULL);
     let m = wr_prev A node node m;
     let m = wr_next A node node m;
     Some (node, m)
   }"

definition intrusive_list_get_tail :: "'m intrusive_list \<Rightarrow> ptr \<Rightarrow> 'm \<Rightarrow> ptr option" where
  "intrusive_list_get_tail A head m = do {
     kASSERT (head \<noteq> NULL);
     Some (rd_prev A m head)
   }"

definition intrusive_list_push_back ::
  "'m intrusive_list \<Rightarrow> ptr \<Rightarrow> ptr \<Rightarrow> 'm \<Rightarrow> (ptr \<times> 'm) option" where
  "intrusive_list_push_back A head tail m = do {
     kASSERT (tail \<noteq> NULL);
     if head = NULL then do {
       (_, m) \<leftarrow> intrusive_list_init A tail m;
       Some (tail, m)
     } else do {
       last \<leftarrow> intrusive_list_get_tail A head m;
       let m = wr_next A last tail m;
       let m = wr_prev A tail last m;
       let m = wr_next A tail head m;
       let m = wr_prev A head tail m;
       Some (tail, m)
     }
   }"

definition intrusive_list_unlink_node :: "'m intrusive_list \<Rightarrow> ptr \<Rightarrow> 'm \<Rightarrow> 'm" where
  "intrusive_list_unlink_node A node m =
     (if node = NULL then m
      else let m = wr_next A (rd_prev A m node) (rd_next A m node) m
           in wr_prev A (rd_next A m node) (rd_prev A m node) m)"

partial_function (option) find_first_loop ::
  "'m intrusive_list \<Rightarrow> (ptr \<Rightarrow> bool) \<Rightarrow> 'm \<Rightarrow> ptr \<Rightarrow> ptr option" where
  "find_first_loop A predicate m current =
     (if predicate current then Some current
      else let current = rd_next A m current
           in if current \<noteq> NULL then find_first_loop A predicate m current
              else Some NULL)"

definition intrusive_list_find_first ::
  "'m intrusive_list \<Rightarrow> ptr \<Rightarrow> (ptr \<Rightarrow> bool) \<Rightarrow> 'm \<Rightarrow> ptr option" where
  "intrusive_list_find_first A head predicate m = do {
     kASSERT (head \<noteq> NULL);
     find_first_loop A predicate m head
   }"

definition intrusive_list_delete ::
  "'m intrusive_list \<Rightarrow> ptr \<Rightarrow> ptr \<Rightarrow> 'm \<Rightarrow> ptr \<times> 'm" where
  "intrusive_list_delete A head node m =
     (if node = head then
        if node = rd_next A m node then (NULL, m)
        else (rd_next A m node, intrusive_list_unlink_node A node m)
      else (head, intrusive_list_unlink_node A node m))"

definition intrusive_list_delete_first ::
  "'m intrusive_list \<Rightarrow> ptr \<Rightarrow> (ptr \<Rightarrow> bool) \<Rightarrow> 'm \<Rightarrow> (ptr \<times> 'm) option" where
  "intrusive_list_delete_first A head predicate m = do {
     to_delete \<leftarrow> intrusive_list_find_first A head predicate m;
     if to_delete \<noteq> NULL then do {
       let head = (if to_delete = head then rd_next A m to_delete else head);
       Some (head, intrusive_list_unlink_node A to_delete m)
     } else Some (head, m)
   }"

definition intrusive_list_insert ::
  "'m intrusive_list \<Rightarrow> ptr \<Rightarrow> ptr \<Rightarrow> 'm \<Rightarrow> (ptr \<times> 'm) option" where
  "intrusive_list_insert A prev node m = do {
     kASSERT (prev \<noteq> NULL \<and> node \<noteq> NULL);
     let m = wr_next A node (rd_next A m prev) m;
     let m = (if rd_next A m node \<noteq> NULL then wr_prev A (rd_next A m node) node m else m);
     let m = wr_prev A node prev m;
     let m = wr_next A prev node m;
     Some (node, m)
   }"

partial_function (option) insert_sorted_loop ::
  "'m intrusive_list \<Rightarrow> ptr \<Rightarrow> (ptr \<Rightarrow> bool) \<Rightarrow> 'm \<Rightarrow> ptr \<Rightarrow> ptr option" where
  "insert_sorted_loop A head stop m current =
     (if current \<noteq> head \<and> \<not> stop current
      then insert_sorted_loop A head stop m (rd_next A m current)
      else Some current)"

definition intrusive_list_insert_sorted ::
  "'m intrusive_list \<Rightarrow> ptr \<Rightarrow> ptr \<Rightarrow> (ptr \<Rightarrow> ptr \<Rightarrow> bool) \<Rightarrow> 'm \<Rightarrow> (ptr \<times> 'm) option" where
  "intrusive_list_insert_sorted A head node compare m = do {
     kASSERT (node \<noteq> NULL);
     if head = NULL then Some (node, m)
     else if compare head node then do {
       let m = wr_next A node head m;
       let m = wr_prev A node (rd_prev A m head) m;
       let m = wr_prev A head node m;
       let m = (if rd_next A m head = head then wr_next A head node m else m);
       Some (node, m)
     } else do {
       current \<leftarrow> insert_sorted_loop A head (\<lambda>c. compare c node) m (rd_next A m head);
       let m = wr_next A node current m;
       let m = wr_prev A node (rd_prev A m current) m;
       let m = wr_prev A current node m;
       let m = (if rd_next A m current = current then wr_next A current node m else m);
       Some (head, m)
     }
   }"

subsection \<open>Rings\<close>

fun dseg :: "'m intrusive_list \<Rightarrow> 'm \<Rightarrow> ptr list \<Rightarrow> bool" where
  "dseg A m (x # y # zs) \<longleftrightarrow> rd_next A m x = y \<and> rd_prev A m y = x \<and> dseg A m (y # zs)"
| "dseg A m zs \<longleftrightarrow> True"

definition dlist ::
  "'m intrusive_list \<Rightarrow> (ptr \<Rightarrow> ptr \<Rightarrow> bool) \<Rightarrow> 'm \<Rightarrow> ptr \<Rightarrow> ptr list \<Rightarrow> bool" where
  "dlist A sep m head xs \<longleftrightarrow>
     (if xs = [] then head = NULL
      else head = hd xs \<and> NULL \<notin> set xs \<and> sorted_wrt sep xs \<and> dseg A m (xs @ [hd xs]))"

lemma dseg_append:
  "dseg A m (xs @ y # ys) \<longleftrightarrow> dseg A m (xs @ [y]) \<and> dseg A m (y # ys)"
proof (induction xs)
  case (Cons x xs)
  then show ?case by (cases xs) auto
qed simp

lemma dseg_cong:
  assumes "\<And>x. x \<in> set (butlast xs) \<Longrightarrow> rd_next A m' x = rd_next A m x"
    and "\<And>x. x \<in> set (tl xs) \<Longrightarrow> rd_prev A m' x = rd_prev A m x"
  shows "dseg A m' xs = dseg A m xs"
  using assms
proof (induction xs)
  case (Cons x xs)
  note IH = Cons.IH and prems = Cons.prems
  show ?case
  proof (cases xs)
    case (Cons y zs)
    have "dseg A m' xs = dseg A m xs"
    proof (rule IH)
      show "rd_next A m' a = rd_next A m a" if "a \<in> set (butlast xs)" for a
        using that Cons prems(1) [of a] by simp
      show "rd_prev A m' a = rd_prev A m a" if "a \<in> set (tl xs)" for a
        using that Cons prems(2) [of a] by simp
    qed
    then show ?thesis using prems(1) [of x] prems(2) [of y] Cons by simp
  qed simp
qed simp

lemma dlist_Nil [simp]: "dlist A sep m head [] \<longleftrightarrow> head = NULL"
  by (simp add: dlist_def)

lemma dlist_head: "dlist A sep m head xs \<Longrightarrow> head = (if xs = [] then NULL else hd xs)"
  by (auto simp: dlist_def split: if_splits)

lemma dlist_cong:
  assumes "\<And>x. x \<in> set xs \<Longrightarrow> rd_next A m' x = rd_next A m x \<and> rd_prev A m' x = rd_prev A m x"
  shows "dlist A sep m' head xs = dlist A sep m head xs"
proof (cases xs)
  case (Cons x ys)
  have "dseg A m' (xs @ [hd xs]) = dseg A m (xs @ [hd xs])"
    using assms Cons by (intro dseg_cong) auto
  then show ?thesis by (simp add: dlist_def)
qed simp

lemma dlist_next:
  assumes "dlist A sep m head (xs @ x # ys)"
  shows "rd_next A m x = hd (ys @ [head])"
proof -
  have "head = hd (xs @ x # ys)" and "dseg A m ((xs @ x # ys) @ [head])"
    using assms by (auto simp: dlist_def)
  then have "dseg A m (x # ys @ [head])"
    using dseg_append [of A m xs x "ys @ [head]"] by simp
  then show ?thesis by (cases ys) auto
qed

lemma dlist_prev_hd:
  assumes "dlist A sep m head xs" "xs \<noteq> []"
  shows "rd_prev A m head = last xs"
proof -
  have "dseg A m ((butlast xs @ [last xs]) @ [head])"
    using assms by (simp add: dlist_def)
  then have "dseg A m (butlast xs @ last xs # [head])" by simp
  then show ?thesis by (subst (asm) dseg_append) simp
qed

lemma dlist_hd:
  "dlist A sep m head xs \<Longrightarrow> xs \<noteq> [] \<Longrightarrow> head = hd xs \<and> head \<in> set xs \<and> head \<noteq> NULL"
  by (cases xs) (auto simp: dlist_def)

lemma dlist_NULL: "dlist A sep m head xs \<Longrightarrow> head = NULL \<longleftrightarrow> xs = []"
  by (cases xs) (auto simp: dlist_def)

subsection \<open>Observations that do not read a set of nodes\<close>

definition unobserved :: "'m intrusive_list \<Rightarrow> ptr set \<Rightarrow> ('m \<Rightarrow> 'x) \<Rightarrow> bool" where
  "unobserved A S f \<longleftrightarrow>
     (\<forall>p\<in>S. \<forall>v m. f (wr_next A p v m) = f m \<and> f (wr_prev A p v m) = f m)"

lemma unobserved_wr_next: "unobserved A S f \<Longrightarrow> p \<in> S \<Longrightarrow> f (wr_next A p v m) = f m"
  by (simp add: unobserved_def)

lemma unobserved_wr_prev: "unobserved A S f \<Longrightarrow> p \<in> S \<Longrightarrow> f (wr_prev A p v m) = f m"
  by (simp add: unobserved_def)

lemma unobserved_subset: "unobserved A S f \<Longrightarrow> T \<subseteq> S \<Longrightarrow> unobserved A T f"
  by (auto simp: unobserved_def)

lemma unobserved_Un [simp]: "unobserved A (S \<union> T) f \<longleftrightarrow> unobserved A S f \<and> unobserved A T f"
  by (auto simp: unobserved_def)

subsection \<open>The laws of a memory that holds list nodes\<close>

locale list_memory =
  fixes A :: "'m intrusive_list" and sep :: "ptr \<Rightarrow> ptr \<Rightarrow> bool"
  assumes sep_sym: "sep p q \<Longrightarrow> sep q p"
    and sep_irrefl: "\<not> sep p p"
    and next_wr_next: "rd_next A (wr_next A p v m) p = v"
    and next_wr_next_sep: "sep p q \<Longrightarrow> rd_next A (wr_next A p v m) q = rd_next A m q"
    and next_wr_prev: "rd_next A (wr_prev A p v m) p = rd_next A m p"
    and next_wr_prev_sep: "sep p q \<Longrightarrow> rd_next A (wr_prev A p v m) q = rd_next A m q"
    and prev_wr_prev: "rd_prev A (wr_prev A p v m) p = v"
    and prev_wr_prev_sep: "sep p q \<Longrightarrow> rd_prev A (wr_prev A p v m) q = rd_prev A m q"
    and prev_wr_next: "rd_prev A (wr_next A p v m) p = rd_prev A m p"
    and prev_wr_next_sep: "sep p q \<Longrightarrow> rd_prev A (wr_next A p v m) q = rd_prev A m q"
begin

lemmas field_simps_same = next_wr_next next_wr_prev prev_wr_prev prev_wr_next
lemmas field_simps_sep = next_wr_next_sep next_wr_prev_sep prev_wr_prev_sep prev_wr_next_sep

lemma next_wr_prev_any: "p = q \<or> sep p q \<Longrightarrow> rd_next A (wr_prev A p v m) q = rd_next A m q"
  using next_wr_prev next_wr_prev_sep by blast

lemma prev_wr_next_any: "p = q \<or> sep p q \<Longrightarrow> rd_prev A (wr_next A p v m) q = rd_prev A m q"
  using prev_wr_next prev_wr_next_sep by blast

lemma sorted_sep_distinct: "sorted_wrt sep xs \<Longrightarrow> distinct xs"
  using sep_irrefl by (induction xs) auto

lemma sorted_sep_perm:
  "sorted_wrt sep (xs @ ys) \<Longrightarrow> sorted_wrt sep (ys @ xs)"
  by (auto simp: sorted_wrt_append intro: sep_sym)

lemma dlist_rotate:
  assumes "dlist A sep m head (xs @ ys)" "ys \<noteq> []"
  shows "dlist A sep m (hd ys) (ys @ xs)"
proof (cases xs)
  case (Cons x xs')
  obtain y ys' where ys: "ys = y # ys'" using assms(2) by (cases ys) auto
  have seg: "dseg A m (xs @ y # ys' @ [x])"
    using assms(1) Cons ys by (simp add: dlist_def)
  have "dseg A m (xs @ [y])" "dseg A m (y # ys' @ [x])"
    using dseg_append [of A m xs y "ys' @ [x]"] seg by simp_all
  then have "dseg A m ((y # ys') @ x # xs' @ [y])"
    using dseg_append [of A m "y # ys'" x "xs' @ [y]"] Cons by simp
  then show ?thesis
    using assms(1) sorted_sep_perm [of xs ys] Cons ys by (auto simp: dlist_def)
qed (use assms in \<open>auto simp: dlist_def\<close>)

lemma dlist_rotate_to:
  "dlist A sep m head (xs @ x # ys) \<Longrightarrow> dlist A sep m x (x # ys @ xs)"
  using dlist_rotate [of m head xs "x # ys"] by simp

lemma dlist_sepD:
  assumes "dlist A sep m head xs" "x \<in> set xs" "y \<in> set xs"
  shows "x = y \<or> sep x y"
proof -
  have "sorted_wrt sep xs" using assms by (auto simp: dlist_def split: if_splits)
  then show ?thesis using assms(2,3)
    by (induction xs) (auto intro: sep_sym)
qed

lemma dlist_distinct: "dlist A sep m head xs \<Longrightarrow> distinct xs"
  by (auto simp: dlist_def sorted_sep_distinct split: if_splits)

lemma init_correct:
  assumes "node \<noteq> NULL"
  shows "\<exists>m'. intrusive_list_init A node m = Some (node, m') \<and> dlist A sep m' node [node]"
  using assms by (simp add: intrusive_list_init_def dlist_def field_simps_same)

lemma splice:
  assumes l: "dlist A sep m h (zs @ [p])"
    and n: "n \<noteq> NULL" "\<And>x. x \<in> set (zs @ [p]) \<Longrightarrow> sep x n"
    and ends: "rd_next A m' p = n" "rd_prev A m' n = p" "rd_next A m' n = h" "rd_prev A m' h = n"
    and nexts: "\<And>x. x \<in> set zs \<Longrightarrow> rd_next A m' x = rd_next A m x"
    and prevs: "\<And>x. x \<in> set (zs @ [p]) \<Longrightarrow> x \<noteq> h \<Longrightarrow> rd_prev A m' x = rd_prev A m x"
  shows "dlist A sep m' h (zs @ [p, n])"
proof -
  have h: "h = hd (zs @ [p])" using dlist_hd [OF l] by simp
  have "dseg A m' (zs @ [p]) = dseg A m (zs @ [p])"
  proof (rule dseg_cong)
    fix x assume "x \<in> set (tl (zs @ [p]))"
    then show "rd_prev A m' x = rd_prev A m x"
      using distinct_hd_tl [OF dlist_distinct [OF l], of x] set_tlD [of x "zs @ [p]"] h
      by (intro prevs) auto
  qed (use nexts in simp)
  moreover have "dseg A m (zs @ [p])"
    using l dseg_append [of A m zs p "[h]"] by (simp add: dlist_def h)
  ultimately have "dseg A m' (zs @ p # [n, h])"
    using ends by (subst dseg_append) simp
  moreover have "sorted_wrt sep (zs @ [p, n])"
    using l n by (auto simp: dlist_def sorted_wrt_append)
  ultimately show ?thesis
    using l n by (auto simp: dlist_def h hd_append split: if_splits)
qed

lemma push_back_correct:
  assumes l: "dlist A sep m head xs" and t: "t \<noteq> NULL" "\<And>x. x \<in> set xs \<Longrightarrow> sep x t"
  shows "\<exists>m'. intrusive_list_push_back A head t m = Some (t, m') \<and>
    dlist A sep m' (hd (xs @ [t])) (xs @ [t])"
proof (cases "xs = []")
  case True
  then show ?thesis
    using l t init_correct [of t m] by (auto simp: intrusive_list_push_back_def)
next
  case False
  then obtain zs p where xs: "xs = zs @ [p]" by (meson rev_exhaust)
  have head: "head = hd xs" "head \<noteq> NULL" "head \<in> set xs" and p: "p \<in> set xs"
    using dlist_hd [OF l False] xs by auto
  have st: "sep x t" "sep t x" if "x \<in> set xs" for x
    using that t(2) sep_sym by auto
  have sc: "y = z \<or> sep y z" if "y \<in> set xs" "z \<in> set xs" for y z
    using that dlist_sepD [OF l] by auto
  define m' where "m' = wr_prev A head t (wr_next A t head (wr_prev A t p (wr_next A p t m)))"
  have "intrusive_list_push_back A head t m = Some (t, m')"
    using head t dlist_prev_hd [OF l False] xs
    by (simp add: intrusive_list_push_back_def intrusive_list_get_tail_def Let_def m'_def)
  moreover have "dlist A sep m' head (zs @ [p, t])"
  proof (rule splice [OF l [unfolded xs]])
    fix x assume x: "x \<in> set zs"
    then have "x \<in> set xs" "x \<noteq> p" using xs dlist_distinct [OF l] by auto
    then show "rd_next A m' x = rd_next A m x"
      using st [of x] sc [OF p, of x] sc [OF head(3), of x]
      by (auto simp: m'_def next_wr_next_sep next_wr_prev_any)
  next
    fix x assume x: "x \<in> set (zs @ [p])" "x \<noteq> head"
    then show "rd_prev A m' x = rd_prev A m x"
      using st [of x] sc [OF p, of x] sc [OF head(3), of x] xs
      by (auto simp: m'_def prev_wr_prev_sep prev_wr_next_any)
  qed (use t st [OF p] st [OF head(3)] sc [OF head(3) p] xs in
      \<open>auto simp: m'_def field_simps_same field_simps_sep next_wr_prev_any prev_wr_next_any\<close>)
  ultimately show ?thesis using head xs by (auto simp: hd_append)
qed

lemma push_back_as_head:
  assumes "dlist A sep m head xs" "t \<noteq> NULL" "\<And>x. x \<in> set xs \<Longrightarrow> sep x t"
  shows "\<exists>m'. intrusive_list_push_back A head t m = Some (t, m') \<and> dlist A sep m' t (t # xs)"
  using push_back_correct [OF assms] dlist_rotate_to [of _ _ xs t "[]"] by auto

lemma unlink_hd:
  assumes l: "dlist A sep m x (x # cs)" and cs: "cs \<noteq> []"
  shows "dlist A sep (intrusive_list_unlink_node A x m) (hd cs) cs"
proof -
  define p where "p = last cs"
  define n where "n = hd cs"
  define zs where "zs = butlast cs"
  have zs: "cs = zs @ [p]" using cs by (simp add: zs_def p_def)
  have mem: "p \<in> set cs" "n \<in> set cs" "x \<notin> set cs"
    using cs dlist_distinct [OF l] by (auto simp: p_def n_def)
  have xn: "x \<noteq> NULL" using dlist_hd [OF l] by simp
  have next_x: "rd_next A m x = n"
    using dlist_next [of A sep m x "[]" x cs] l cs by (simp add: n_def)
  have prev_x: "rd_prev A m x = p"
    using dlist_prev_hd [OF l] cs by (simp add: p_def)
  have sx: "sep y x" if "y \<in> set cs" for y
    using that dlist_sepD [OF l, of y x] mem by auto
  have sc: "y = z \<or> sep y z" if "y \<in> set cs" "z \<in> set cs" for y z
    using that dlist_sepD [OF l, of y z] by auto
  define m' where "m' = wr_prev A n p (wr_next A p n m)"
  have m': "intrusive_list_unlink_node A x m = m'"
    using xn next_x prev_x sx [OF mem(1)]
    by (simp add: intrusive_list_unlink_node_def m'_def field_simps_sep Let_def)
  have "dseg A m' (zs @ [p]) = dseg A m (zs @ [p])"
  proof (rule dseg_cong)
    fix y assume "y \<in> set (butlast (zs @ [p]))"
    then have y: "y \<in> set cs" "y \<noteq> p"
      using zs dlist_distinct [OF l] by auto
    then show "rd_next A m' y = rd_next A m y"
      using sc [OF mem(1) y(1)] sc [OF mem(2) y(1)]
      by (auto simp: m'_def next_wr_prev_any next_wr_next_sep)
  next
    fix y assume "y \<in> set (tl (zs @ [p]))"
    then have "y \<in> set (tl cs)" using zs by simp
    then have y: "y \<in> set cs" "y \<noteq> n"
      using dlist_distinct [OF l] distinct_hd_tl [of cs y] by (auto simp: n_def dest: set_tlD)
    then show "rd_prev A m' y = rd_prev A m y"
      using sc [OF mem(1) y(1)] sc [OF mem(2) y(1)]
      by (auto simp: m'_def prev_wr_next_any prev_wr_prev_sep)
  qed
  moreover have "dseg A m (zs @ [p])"
  proof -
    have "dseg A m ((x # zs) @ p # [x])" using l zs by (simp add: dlist_def)
    then have "dseg A m (x # zs @ [p])" by (subst (asm) dseg_append) simp
    then show ?thesis by (cases zs) auto
  qed
  moreover have "dseg A m' [p, n]"
    using sc [OF mem(1,2)] sc [OF mem(2,1)]
    by (auto simp: m'_def field_simps_same next_wr_prev_any)
  ultimately have "dseg A m' (zs @ p # [n])"
    by (subst dseg_append) simp
  then show ?thesis
    using l zs cs m' by (auto simp: dlist_def n_def)
qed

lemma unlink_correct:
  assumes l: "dlist A sep m head (xs @ x # ys)" and ne: "xs @ ys \<noteq> []"
  shows "dlist A sep (intrusive_list_unlink_node A x m) (hd (xs @ ys)) (xs @ ys)"
proof -
  have l': "dlist A sep (intrusive_list_unlink_node A x m) (hd (ys @ xs)) (ys @ xs)"
    using unlink_hd [OF dlist_rotate_to [OF l]] ne by auto
  show ?thesis
  proof (cases "xs = []")
    case False
    then show ?thesis using dlist_rotate [OF l'] by simp
  qed (use l' in simp)
qed

lemma delete_correct:
  assumes l: "dlist A sep m head xs" and x: "x \<in> set xs"
    and d: "intrusive_list_delete A head x m = (head', m')"
  shows "dlist A sep m' head' (remove1 x xs)"
proof -
  obtain ys zs where xs: "xs = ys @ x # zs" using x by (meson split_list)
  have nx: "rd_next A m x = hd (zs @ [head])"
    using dlist_next [OF l [unfolded xs]] .
  have dist: "distinct xs" using dlist_distinct [OF l] .
  have rem: "remove1 x xs = ys @ zs" using dist by (simp add: xs remove1_append)
  have hd_xs: "head = hd xs" using dlist_hd [OF l] xs by auto
  show ?thesis
  proof (cases "ys = []")
    case True
    then have "head = x" using hd_xs xs by simp
    then show ?thesis
    proof (cases "zs = []")
      case False
      then have "hd zs \<noteq> x" using dist xs hd_in_set by fastforce
      then show ?thesis
        using d nx \<open>head = x\<close> True False unlink_correct [OF l [unfolded xs]] rem
        by (auto simp: intrusive_list_delete_def)
    qed (use True d nx rem in \<open>auto simp: intrusive_list_delete_def\<close>)
  next
    case False
    then have "head = hd ys" "head \<noteq> x" using hd_xs xs dist by auto
    then show ?thesis
      using d False unlink_correct [OF l [unfolded xs]] rem
      by (auto simp: intrusive_list_delete_def)
  qed
qed

lemma insert_correct:
  assumes l: "dlist A sep m head (xs @ p # ys)" and n: "n \<noteq> NULL"
    and sn: "\<And>x. x \<in> set (xs @ p # ys) \<Longrightarrow> sep x n"
  shows "\<exists>m'. intrusive_list_insert A p n m = Some (n, m') \<and>
    dlist A sep m' head (xs @ p # n # ys)"
proof -
  define zs where "zs = ys @ xs"
  define h where "h = hd (zs @ [p])"
  have l': "dlist A sep m h (zs @ [p])"
    using dlist_rotate_to [OF l] dlist_rotate [of m p "[p]" zs]
    by (cases "zs = []") (auto simp: zs_def h_def hd_append)
  have h: "h \<in> set (zs @ [p])" "h \<noteq> NULL" and p: "p \<in> set (zs @ [p])" "p \<noteq> NULL"
    using dlist_hd [OF l'] l' by (auto simp: dlist_def)
  have sn': "sep x n" "sep n x" if "x \<in> set (zs @ [p])" for x
    using that sn [of x] sep_sym by (auto simp: zs_def)
  have sc: "y = z \<or> sep y z" if "y \<in> set (zs @ [p])" "z \<in> set (zs @ [p])" for y z
    using that dlist_sepD [OF l', of y z] by auto
  define m' where "m' = wr_next A p n (wr_prev A n p (wr_prev A h n (wr_next A n h m)))"
  have ins: "intrusive_list_insert A p n m = Some (n, m')"
    using p n h dlist_next [OF l']
    by (simp add: intrusive_list_insert_def m'_def Let_def next_wr_next)
  have "dlist A sep m' h (zs @ [p, n])"
  proof (rule splice [OF l' n sn'(1)])
    fix x assume x: "x \<in> set zs"
    then have "x \<in> set (zs @ [p])" "x \<noteq> p" using dlist_distinct [OF l'] by auto
    then show "rd_next A m' x = rd_next A m x"
      using sn' [of x] sc [OF p(1), of x] sc [OF h(1), of x]
      by (auto simp: m'_def next_wr_next_sep next_wr_prev_any)
  next
    fix x assume x: "x \<in> set (zs @ [p])" "x \<noteq> h"
    then show "rd_prev A m' x = rd_prev A m x"
      using sn' [of x] sc [OF p(1), of x] sc [OF h(1), of x]
      by (auto simp: m'_def prev_wr_prev_sep prev_wr_next_any)
  qed (use sn' [OF p(1)] sn' [OF h(1)] sc [OF p(1) h(1)] sc [OF h(1) p(1)] in
      \<open>auto simp: m'_def field_simps_same field_simps_sep next_wr_prev_any prev_wr_next_any\<close>)
  then have "dlist A sep m' p (p # n # ys @ xs)"
    using dlist_rotate_to [of m' h zs p "[n]"] by (simp add: zs_def)
  then have "dlist A sep m' (hd (xs @ [p])) (xs @ p # n # ys)"
    using dlist_rotate [of m' p "p # n # ys" xs] by (cases "xs = []") auto
  moreover have "head = hd (xs @ [p])" using dlist_hd [OF l] by (simp add: hd_append)
  ultimately show ?thesis using ins by auto
qed

lemma replace_correct:
  assumes l: "dlist A sep m head (xs @ x # ys)" and ne: "xs @ ys \<noteq> []" and n: "n \<noteq> NULL"
    and sn: "\<And>z. z \<in> set (xs @ ys) \<Longrightarrow> sep z n"
  shows "\<exists>m'. intrusive_list_insert A (rd_prev A m x) n (intrusive_list_unlink_node A x m) = Some (n, m') \<and>
    dlist A sep m' (hd (xs @ [n])) (xs @ n # ys)"
proof -
  let ?m = "intrusive_list_unlink_node A x m"
  have l': "dlist A sep ?m (hd (xs @ ys)) (xs @ ys)" using unlink_correct [OF l ne] .
  have p: "rd_prev A m x = last (ys @ xs)"
    using dlist_prev_hd [OF dlist_rotate_to [OF l]] ne by auto
  show ?thesis
  proof (cases xs rule: rev_cases)
    case Nil
    then obtain zs z where ys: "ys = zs @ [z]" using ne by (metis append_Nil rev_exhaust)
    obtain m' where m': "intrusive_list_insert A z n ?m = Some (n, m')"
        "dlist A sep m' (hd ys) (ys @ [n])"
      using insert_correct [of ?m "hd ys" zs z "[]" n] n sn Nil ys l' by auto
    then have "dlist A sep m' n (n # ys)" using dlist_rotate_to [of m' "hd ys" ys n "[]"] by simp
    then show ?thesis using m' p Nil ys by auto
  next
    case (snoc zs z)
    then show ?thesis
      using insert_correct [of ?m "hd (xs @ ys)" zs z ys n] l' n sn p
      by (auto simp: hd_append split: if_splits)
  qed
qed

lemma init_frame:
  "intrusive_list_init A node m = Some (r, m') \<Longrightarrow> unobserved A {node} f \<Longrightarrow> f m' = f m"
  by (cases "node = NULL") (auto simp: intrusive_list_init_def unobserved_def)

lemma push_back_frame:
  assumes "dlist A sep m head xs" "intrusive_list_push_back A head t m = Some (r, m')"
    and "unobserved A (insert t (set xs)) f"
  shows "f m' = f m"
proof (cases "xs = []")
  case True
  then have "intrusive_list_init A t m = Some (t, m')"
    using assms(1,2)
    by (cases "t = NULL") (auto simp: intrusive_list_push_back_def intrusive_list_init_def)
  then show ?thesis using assms(3) init_frame by (auto simp: unobserved_def)
next
  case False
  then have "head \<in> set xs" "head \<noteq> NULL" "rd_prev A m head \<in> set xs"
    using dlist_hd [OF assms(1)] dlist_prev_hd [OF assms(1)] by auto
  then show ?thesis
    using assms(2,3)
    by (cases "t = NULL")
      (auto simp: intrusive_list_push_back_def intrusive_list_get_tail_def Let_def unobserved_def)
qed

lemma dlist_links_in:
  assumes "dlist A sep m head xs" "x \<in> set xs"
  shows "rd_next A m x \<in> set xs" "rd_prev A m x \<in> set xs"
proof -
  obtain ys zs where xs: "xs = ys @ x # zs" using assms(2) by (meson split_list)
  show "rd_next A m x \<in> set xs"
    using dlist_next [of A sep m head ys x zs] assms(1) dlist_hd [OF assms(1)] xs
    by (cases zs) auto
  show "rd_prev A m x \<in> set xs"
    using dlist_prev_hd [OF dlist_rotate_to [of m head ys x zs]] assms(1) xs
      last_in_set [of "x # zs @ ys"]
    by auto
qed

lemma unlink_frame:
  assumes "dlist A sep m head xs" "x \<in> set xs" "unobserved A (set xs) f"
  shows "f (intrusive_list_unlink_node A x m) = f m"
proof -
  let ?m = "wr_next A (rd_prev A m x) (rd_next A m x) m"
  note mem = dlist_links_in [OF assms(1,2)]
  have "rd_next A ?m x \<in> set xs"
  proof (cases "rd_prev A m x = x")
    case True
    then show ?thesis using mem next_wr_next [of x] by simp
  next
    case False
    then have "sep (rd_prev A m x) x" using dlist_sepD [OF assms(1) mem(2) assms(2)] by simp
    then show ?thesis using mem by (simp add: next_wr_next_sep)
  qed
  then show ?thesis
    using assms(3) mem by (simp add: intrusive_list_unlink_node_def Let_def unobserved_def)
qed

lemma delete_frame:
  assumes "dlist A sep m head xs" "x \<in> set xs" "intrusive_list_delete A head x m = (head', m')"
    and "unobserved A (set xs) f"
  shows "f m' = f m"
  using assms(3) unlink_frame [OF assms(1,2,4)]
  by (auto simp: intrusive_list_delete_def split: if_splits)

lemma insert_frame:
  assumes "dlist A sep m head xs" "p \<in> set xs" "intrusive_list_insert A p n m = Some (r, m')"
    and "unobserved A (insert n (set xs)) f"
  shows "f m' = f m"
  using assms dlist_links_in [OF assms(1,2)]
  by (cases "p \<noteq> NULL \<and> n \<noteq> NULL")
    (auto simp: intrusive_list_insert_def Let_def unobserved_def next_wr_next split: if_splits)

lemma replace_frame:
  assumes l: "dlist A sep m head (xs @ x # ys)" and ne: "xs @ ys \<noteq> []"
    and ins: "intrusive_list_insert A (rd_prev A m x) n (intrusive_list_unlink_node A x m) = Some (r, m')"
    and f: "unobserved A (insert n (set (xs @ x # ys))) f"
  shows "f m' = f m"
proof -
  let ?m = "intrusive_list_unlink_node A x m"
  have "rd_prev A m x = last (ys @ xs)"
    using dlist_prev_hd [OF dlist_rotate_to [OF l]] ne by auto
  then have p: "rd_prev A m x \<in> set (xs @ ys)" using last_in_set [of "ys @ xs"] ne by auto
  have "f m' = f ?m"
    using insert_frame [OF unlink_correct [OF l ne] p ins]
      unobserved_subset [OF f, of "insert n (set (xs @ ys))"] by auto
  also have "f ?m = f m"
    using unlink_frame [OF l, of x] unobserved_subset [OF f, of "set (xs @ x # ys)"] by auto
  finally show ?thesis .
qed

lemma unobserved_dlist:
  assumes "\<And>p x. p \<in> S \<Longrightarrow> x \<in> set ys \<Longrightarrow> sep p x"
  shows "unobserved A S (\<lambda>m. dlist A sep m h ys)"
  unfolding unobserved_def
  by (intro ballI allI conjI dlist_cong) (auto simp: field_simps_sep assms)

lemma find_first_loop_found:
  assumes "dlist A sep m head (xs @ ys)" "\<exists>y\<in>set ys. P y"
  shows "find_first_loop A P m (hd ys) = Some (hd (dropWhile (\<lambda>y. \<not> P y) ys))"
  using assms
proof (induction ys arbitrary: xs)
  case (Cons y ys)
  show ?case
  proof (cases "P y")
    case True
    then show ?thesis by (simp add: find_first_loop.simps)
  next
    case False
    then have "ys \<noteq> []" "\<exists>y\<in>set ys. P y" using Cons.prems by auto
    then have "rd_next A m y = hd ys" "hd ys \<in> set ys"
      using dlist_next [OF Cons.prems(1)] by auto
    moreover from this have "hd ys \<noteq> NULL"
      using Cons.prems(1) by (auto simp: dlist_def)
    ultimately show ?thesis
      using False Cons.IH [of "xs @ [y]"] Cons.prems \<open>\<exists>y\<in>set ys. P y\<close>
      by (subst find_first_loop.simps) simp
  qed
qed simp

lemma find_first_loop_diverges:
  assumes l: "dlist A sep m head xs" and no: "\<forall>x\<in>set xs. \<not> P x" and x: "x \<in> set xs"
  shows "find_first_loop A P m x = None"
proof (rule ccontr)
  assume "find_first_loop A P m x \<noteq> None"
  then obtain r where r: "find_first_loop A P m x = Some r" by auto
  have "A = A \<longrightarrow> P = P \<longrightarrow> m = m \<longrightarrow> x \<notin> set xs"
  proof (rule find_first_loop.raw_induct
      [where P = "\<lambda>B Q k c r. B = A \<longrightarrow> Q = P \<longrightarrow> k = m \<longrightarrow> c \<notin> set xs", OF _ r])
    fix f B Q k c r
    assume IH: "\<And>B Q k c r. f B Q k c = Some r \<Longrightarrow>
          B = A \<longrightarrow> Q = P \<longrightarrow> k = m \<longrightarrow> c \<notin> set xs"
      and step: "(if Q c then Some c
          else let c = rd_next B k c in if c \<noteq> NULL then f B Q k c else Some NULL) = Some r"
    show "B = A \<longrightarrow> Q = P \<longrightarrow> k = m \<longrightarrow> c \<notin> set xs"
    proof (intro impI notI)
      assume eq: "B = A" "Q = P" "k = m" and c: "c \<in> set xs"
      have "rd_next A m c \<in> set xs" using dlist_links_in [OF l c] by simp
      moreover have "NULL \<notin> set xs" using l c by (auto simp: dlist_def split: if_splits)
      ultimately show False
        using step eq no c IH [of A P m "rd_next A m c" r] by (auto simp: Let_def split: if_splits)
    qed
  qed
  then show False using x by simp
qed

lemma insert_sorted_loop_result:
  assumes "dlist A sep m head (xs @ ys)" "xs \<noteq> []"
  shows "insert_sorted_loop A head stop m (hd (ys @ [head])) =
    Some (hd (dropWhile (\<lambda>y. \<not> stop y) ys @ [head]))"
  using assms
proof (induction ys arbitrary: xs)
  case Nil
  then show ?case by (simp add: insert_sorted_loop.simps)
next
  case (Cons y ys)
  have "y \<noteq> head"
    using dlist_hd [OF Cons.prems(1)] dlist_distinct [OF Cons.prems(1)] Cons.prems(2)
    by (cases xs) auto
  moreover have "rd_next A m y = hd (ys @ [head])" using dlist_next [OF Cons.prems(1)] .
  ultimately show ?case
    using Cons.IH [of "xs @ [y]"] Cons.prems(1)
    by (simp add: insert_sorted_loop.simps [of A head stop m y])
qed

lemma insert_sorted_singleton:
  assumes l: "dlist A sep m a [a]" and n: "n \<noteq> NULL" "sep a n"
  shows "\<exists>m'. intrusive_list_insert_sorted A a n cmp m = Some (if cmp a n then n else a, m') \<and>
    dlist A sep m' (if cmp a n then n else a) (if cmp a n then [n, a] else [a, n]) \<and>
    (\<forall>f :: 'm \<Rightarrow> 'x. unobserved A {a, n} f \<longrightarrow> f m' = f m)"
proof -
  have a: "a \<noteq> NULL" "rd_next A m a = a" "rd_prev A m a = a" "sep n a"
    using l n sep_sym by (auto simp: dlist_def)
  define m' where "m' = wr_next A a n (wr_prev A a n (wr_prev A n a (wr_next A n a m)))"
  have ops: "intrusive_list_insert_sorted A a n cmp m = Some (if cmp a n then n else a, m')"
    using a n insert_sorted_loop_result [of m a "[a]" "[]"] l
    by (simp add: intrusive_list_insert_sorted_def Let_def m'_def field_simps_same field_simps_sep)
  have links: "rd_next A m' a = n" "rd_prev A m' a = n" "rd_next A m' n = a" "rd_prev A m' n = a"
    using a n by (simp_all add: m'_def field_simps_same field_simps_sep)
  moreover have "f m' = f m" if "unobserved A {a, n} f" for f :: "'m \<Rightarrow> 'x"
    using that by (simp add: unobserved_def m'_def)
  ultimately show ?thesis
    using ops a n by (auto simp: dlist_def)
qed

lemma insert_sorted_keeps_nexts:
  assumes l: "dlist A sep m h (h # y # ys)" and n: "n \<noteq> NULL" "\<And>x. x \<in> set (h # y # ys) \<Longrightarrow> sep x n"
  shows "\<exists>h' m'. intrusive_list_insert_sorted A h n cmp m = Some (h', m') \<and> h' \<in> {h, n} \<and>
    (\<forall>x\<in>set (h # y # ys). rd_next A m' x = rd_next A m x)"
proof -
  have sn: "sep n x" if "x \<in> set (h # y # ys)" for x using that n(2) sep_sym by blast
  have h: "h \<noteq> NULL" "rd_next A m h = y" "h \<noteq> y"
    using l dlist_next [of A sep m h "[]" h "y # ys"] dlist_distinct [OF l] by (auto simp: dlist_def)
  have mem: "rd_prev A m x \<in> set (h # y # ys)" if "x \<in> set (h # y # ys)" for x
    using dlist_links_in [OF l that] by simp
  have sc: "a = b \<or> sep a b" if "a \<in> set (h # y # ys)" "b \<in> set (h # y # ys)" for a b
    using dlist_sepD [OF l that] .
  define c where "c = (if cmp h n then h
    else hd (dropWhile (\<lambda>y. \<not> cmp y n) (y # ys) @ [h]))"
  have c: "c \<in> set (h # y # ys)"
    using hd_in_set [of "dropWhile (\<lambda>y. \<not> cmp y n) (y # ys) @ [h]"] set_dropWhileD
    by (fastforce simp: c_def)
  define m' where "m' = wr_prev A c n (wr_prev A n (rd_prev A m c) (wr_next A n c m))"
  have nexts: "rd_next A m' x = rd_next A m x" if "x \<in> set (h # y # ys)" for x
    using sn [OF that] sc [OF c that] by (auto simp: m'_def next_wr_prev_any next_wr_next_sep)
  have "rd_next A m c \<noteq> c"
  proof -
    obtain us vs where c_split: "h # y # ys = us @ c # vs" using c by (meson split_list)
    then have "rd_next A m c = hd (vs @ [h])" using l by (metis dlist_next)
    then show ?thesis
      using c_split dlist_distinct [OF l] by (cases vs; cases us) auto
  qed
  then have "intrusive_list_insert_sorted A h n cmp m = Some (if cmp h n then n else h, m')"
    using h n(1) insert_sorted_loop_result [of m h "[h]" "y # ys" "\<lambda>c. cmp c n"] l nexts [OF c]
      sn [OF c]
    by (simp add: intrusive_list_insert_sorted_def Let_def m'_def c_def prev_wr_next_sep split: if_splits)
  then show ?thesis using nexts by auto
qed

lemma insert_sorted_breaks_ring:
  assumes l: "dlist A sep m h (h # y # ys)" and n: "n \<noteq> NULL" "\<And>x. x \<in> set (h # y # ys) \<Longrightarrow> sep x n"
    and ins: "intrusive_list_insert_sorted A h n cmp m = Some (h', m')"
    and zs: "set zs = insert n (set (h # y # ys))"
  shows "\<not> dlist A sep m' h' zs"
proof
  assume l': "dlist A sep m' h' zs"
  obtain us vs where "zs = us @ n # vs" using zs by (metis insertI1 split_list)
  then have rot: "dlist A sep m' n (n # vs @ us)" using l' dlist_rotate_to by blast
  have ne: "vs @ us \<noteq> []"
    using zs \<open>zs = us @ n # vs\<close> n(2) [of h] n(2) [of y] dlist_distinct [OF l] by auto
  define p where "p = last (vs @ us)"
  have p: "p \<in> set (h # y # ys)"
    using ne zs \<open>zs = us @ n # vs\<close> dlist_distinct [OF rot] last_in_set [OF ne]
    by (auto simp: p_def)
  have "rd_next A m' p = n"
    using dlist_next [of A sep m' n "n # butlast (vs @ us)" p "[]"] rot ne by (simp add: p_def)
  moreover have "rd_next A m' p = rd_next A m p"
    using insert_sorted_keeps_nexts [OF l n(1), of cmp] n(2) ins p by auto
  moreover have "rd_next A m p \<in> set (h # y # ys)" using dlist_links_in [OF l p] by simp
  ultimately show False using n(2) sep_irrefl by auto
qed

lemma delete_first_singleton:
  assumes l: "dlist A sep m x [x]" and P: "P x"
  shows "\<exists>m'. intrusive_list_delete_first A x P m = Some (x, m') \<and> dlist A sep m' x [x]"
proof -
  have x: "x \<noteq> NULL" "rd_next A m x = x" "rd_prev A m x = x" using l by (auto simp: dlist_def)
  let ?m = "intrusive_list_unlink_node A x m"
  have "intrusive_list_delete_first A x P m = Some (x, ?m)"
    using x P by (simp add: intrusive_list_delete_first_def intrusive_list_find_first_def
        find_first_loop.simps)
  moreover have "dlist A sep ?m x [x]"
    using x by (simp add: dlist_def intrusive_list_unlink_node_def field_simps_same)
  ultimately show ?thesis by blast
qed

lemma delete_first_correct:
  assumes l: "dlist A sep m head xs" and ex: "\<exists>x\<in>set xs. P x" and len: "1 < length xs"
  shows "\<exists>head' m'. intrusive_list_delete_first A head P m = Some (head', m') \<and>
    dlist A sep m' head' (remove1 (hd (dropWhile (\<lambda>x. \<not> P x) xs)) xs)"
proof -
  define x where "x = hd (dropWhile (\<lambda>x. \<not> P x) xs)"
  have ne: "xs \<noteq> []" and h: "head = hd xs" "head \<noteq> NULL"
    using len dlist_hd [OF l] by fastforce+
  have "find_first_loop A P m head = Some x"
    using find_first_loop_found [of m head "[]" xs P] l ex h by (simp add: x_def)
  moreover have x: "x \<in> set xs"
    using ex hd_in_set [of "dropWhile (\<lambda>x. \<not> P x) xs"] set_dropWhileD
    by (fastforce simp: x_def dropWhile_eq_Nil_conv)
  moreover have "x \<noteq> NULL" using l x by (auto simp: dlist_def split: if_splits)
  moreover have "x \<noteq> rd_next A m x" if xh: "x = head"
  proof -
    obtain ys where "xs = x # ys" "ys \<noteq> []" using xh h(1) len by (cases xs) auto
    then show ?thesis
      using dlist_next [of A sep m head "[]" x ys] l dlist_distinct [OF l] hd_in_set [of ys] by auto
  qed
  ultimately have "intrusive_list_delete_first A head P m = Some (intrusive_list_delete A head x m)"
    using h by (simp add: intrusive_list_delete_first_def intrusive_list_find_first_def
        intrusive_list_delete_def)
  then show ?thesis
    using delete_correct [OF l x] by (cases "intrusive_list_delete A head x m") (auto simp: x_def)
qed

end

subsection \<open>The split heap\<close>

text \<open>
  Nodes embedded in distinct objects never overlap, so for every client but the allocator
  the memory of the list fields is a pair of maps from node addresses.
\<close>

record link_heap =
  lnext :: "ptr \<Rightarrow> ptr"
  lprev :: "ptr \<Rightarrow> ptr"

definition link_ops :: "link_heap intrusive_list" where
  "link_ops = \<lparr>rd_next = lnext, rd_prev = lprev,
     wr_next = (\<lambda>p v m. m\<lparr>lnext := (lnext m)(p := v)\<rparr>),
     wr_prev = (\<lambda>p v m. m\<lparr>lprev := (lprev m)(p := v)\<rparr>)\<rparr>"

interpretation lh: list_memory link_ops "(\<noteq>)"
  by unfold_locales (auto simp: link_ops_def)

abbreviation ring :: "link_heap \<Rightarrow> ptr \<Rightarrow> ptr list \<Rightarrow> bool" where
  "ring \<equiv> dlist link_ops (\<noteq>)"

lemma link_ops_simps [simp]:
  "rd_next link_ops = lnext" "rd_prev link_ops = lprev"
  "lnext (wr_next link_ops p v m) = (lnext m)(p := v)" "lprev (wr_next link_ops p v m) = lprev m"
  "lnext (wr_prev link_ops p v m) = lnext m" "lprev (wr_prev link_ops p v m) = (lprev m)(p := v)"
  by (simp_all add: link_ops_def)

lemma unobserved_links:
  "p \<notin> S \<Longrightarrow> unobserved link_ops S (\<lambda>m. (lnext m p, lprev m p))"
  by (auto simp: unobserved_def)

lemma unobserved_ring: "S \<inter> set ys = {} \<Longrightarrow> unobserved link_ops S (\<lambda>m. ring m h ys)"
  by (rule lh.unobserved_dlist) auto

subsection \<open>Families of rings\<close>

text \<open>
  An array of list heads, as the scheduler keeps them: \<open>rings l hs Qs\<close> says that each head holds the
  ring of the list at its index and that no node is in two of them.
\<close>

definition rings :: "link_heap \<Rightarrow> ptr list \<Rightarrow> ptr list list \<Rightarrow> bool" where
  "rings l hs Qs \<longleftrightarrow> length hs = length Qs \<and> distinct (concat Qs) \<and>
     (\<forall>i<length Qs. ring l (hs ! i) (Qs ! i))"

lemma distinct_concat_update:
  assumes "distinct (concat Qs)" "i < length Qs" "distinct xs" "set xs \<inter> (set (concat Qs) - set (Qs ! i)) = {}"
  shows "distinct (concat (Qs[i := xs]))"
    and "set (concat (Qs[i := xs])) = set xs \<union> (set (concat Qs) - set (Qs ! i))"
proof -
  have Qs: "Qs = take i Qs @ Qs ! i # drop (Suc i) Qs" using assms(2) by (simp add: id_take_nth_drop)
  have upd: "Qs[i := xs] = take i Qs @ xs # drop (Suc i) Qs" using assms(2) by (simp add: upd_conv_take_nth_drop)
  have c: "concat Qs = concat (take i Qs) @ Qs ! i @ concat (drop (Suc i) Qs)"
    by (subst Qs) simp
  have d: "distinct (concat (take i Qs) @ Qs ! i @ concat (drop (Suc i) Qs))"
    using assms(1) unfolding c .
  define A C where "A = concat (take i Qs)" and "C = concat (drop (Suc i) Qs)"
  have dAC: "distinct (A @ Qs ! i @ C)" and u: "concat (Qs[i := xs]) = A @ xs @ C"
    and cAC: "concat Qs = A @ Qs ! i @ C"
    using d c by (simp_all add: upd A_def C_def)
  show "set (concat (Qs[i := xs])) = set xs \<union> (set (concat Qs) - set (Qs ! i))"
    using dAC unfolding u cAC by auto
  show "distinct (concat (Qs[i := xs]))"
    using dAC assms(3,4) unfolding u cAC by auto
qed

lemma rings_disjoint:
  assumes "rings l hs Qs" "i < length Qs" "j < length Qs" "i \<noteq> j"
  shows "set (Qs ! i) \<inter> set (Qs ! j) = {}"
proof -
  have d: "distinct (concat Qs)" using assms(1) by (simp add: rings_def)
  have "set (Qs ! i) \<subseteq> set (concat (Qs[j := []]))"
    using assms by (auto simp: in_set_conv_nth) (metis length_list_update nth_list_update_neq nth_mem)
  then show ?thesis using distinct_concat_update(2) [OF d assms(3), of "[]"] by auto
qed

lemma rings_update:
  assumes r: "rings l hs Qs" and i: "i < length Qs" and new: "ring l' h xs"
    and fresh: "set xs \<inter> (set (concat Qs) - set (Qs ! i)) = {}"
    and same: "\<And>h ys. set ys \<subseteq> set (concat Qs) - set (Qs ! i) \<Longrightarrow> ring l h ys \<Longrightarrow> ring l' h ys"
  shows "rings l' (hs[i := h]) (Qs[i := xs])"
proof -
  have "ring l' (hs ! j) (Qs ! j)" if j: "j < length Qs" "j \<noteq> i" for j
  proof (rule same)
    show "set (Qs ! j) \<subseteq> set (concat Qs) - set (Qs ! i)"
      using rings_disjoint [OF r j(1) i j(2)] j(1) by (auto intro: nth_mem)
    show "ring l (hs ! j) (Qs ! j)" using r j by (simp add: rings_def)
  qed
  then show ?thesis
    using r i new distinct_concat_update(1) [OF _ i lh.dlist_distinct [OF new] fresh]
    by (auto simp: rings_def nth_list_update)
qed

lemma rings_push_back:
  assumes r: "rings l hs Qs" and i: "i < length Qs" and t: "t \<noteq> NULL" "t \<notin> set (concat Qs)"
  shows "\<exists>l'. intrusive_list_push_back link_ops (hs ! i) t l = Some (t, l') \<and>
    rings l' (hs[i := t]) (Qs[i := t # Qs ! i]) \<and>
    (\<forall>f :: link_heap \<Rightarrow> 'x. unobserved link_ops (insert t (set (Qs ! i))) f \<longrightarrow> f l' = f l)"
proof -
  have q: "ring l (hs ! i) (Qs ! i)" using r i by (simp add: rings_def)
  have tq: "t \<notin> set (Qs ! i)" using t(2) i by (auto dest: nth_mem)
  obtain l' where l': "intrusive_list_push_back link_ops (hs ! i) t l = Some (t, l')" "ring l' t (t # Qs ! i)"
    using lh.push_back_as_head [OF q t(1)] tq by blast
  have "rings l' (hs[i := t]) (Qs[i := t # Qs ! i])"
  proof (rule rings_update [OF r i l'(2)])
    fix h ys assume ys: "set ys \<subseteq> set (concat Qs) - set (Qs ! i)" "ring l h ys"
    then have "insert t (set (Qs ! i)) \<inter> set ys = {}" using t(2) by auto
    then show "ring l' h ys" using lh.push_back_frame [OF q l'(1) unobserved_ring [of _ ys h]] ys(2) by simp
  qed (use t(2) in auto)
  then show ?thesis using l'(1) lh.push_back_frame [OF q l'(1)] by blast
qed

lemma rings_delete:
  assumes r: "rings l hs Qs" and i: "i < length Qs" and t: "t \<in> set (Qs ! i)"
    and d: "intrusive_list_delete link_ops (hs ! i) t l = (h, l')"
  shows "rings l' (hs[i := h]) (Qs[i := remove1 t (Qs ! i)])"
    and "unobserved link_ops (set (Qs ! i)) f \<Longrightarrow> f l' = f l"
proof -
  have q: "ring l (hs ! i) (Qs ! i)" using r i by (simp add: rings_def)
  show "rings l' (hs[i := h]) (Qs[i := remove1 t (Qs ! i)])"
  proof (rule rings_update [OF r i lh.delete_correct [OF q t d]])
    fix h ys assume ys: "set ys \<subseteq> set (concat Qs) - set (Qs ! i)" "ring l h ys"
    then have "set (Qs ! i) \<inter> set ys = {}" by auto
    then show "ring l' h ys" using lh.delete_frame [OF q t d unobserved_ring [of _ ys h]] ys(2) by simp
  qed (auto dest: notin_set_remove1)
  show "unobserved link_ops (set (Qs ! i)) f \<Longrightarrow> f l' = f l" using lh.delete_frame [OF q t d] .
qed

lemma rings_insert_sorted:
  assumes r: "rings l hs Qs" and i: "i < length Qs" "Qs ! i = [a]" and t: "t \<noteq> NULL" "t \<notin> set (concat Qs)"
  shows "\<exists>l'. intrusive_list_insert_sorted link_ops (hs ! i) t cmp l = Some (if cmp a t then t else a, l') \<and>
    rings l' (hs[i := if cmp a t then t else a]) (Qs[i := if cmp a t then [t, a] else [a, t]])"
proof -
  have q: "ring l (hs ! i) [a]" using r i by (auto simp: rings_def)
  then have h: "hs ! i = a" using dlist_hd [OF q] by simp
  have "a \<in> set (concat Qs)" using i nth_mem [OF i(1)] by (auto intro: bexI [of _ "[a]"])
  then have at: "a \<noteq> t" using t(2) by blast
  obtain l' where l': "intrusive_list_insert_sorted link_ops (hs ! i) t cmp l = Some (if cmp a t then t else a, l')"
      "ring l' (if cmp a t then t else a) (if cmp a t then [t, a] else [a, t])"
      "\<forall>f :: link_heap \<Rightarrow> bool. unobserved link_ops {a, t} f \<longrightarrow> f l' = f l"
    using lh.insert_sorted_singleton [of l a t cmp] q h t(1) at by metis
  have "rings l' (hs[i := if cmp a t then t else a]) (Qs[i := if cmp a t then [t, a] else [a, t]])"
  proof (rule rings_update [OF r i(1) l'(2)])
    fix h ys assume ys: "set ys \<subseteq> set (concat Qs) - set (Qs ! i)" "ring l h ys"
    then have "{a, t} \<inter> set ys = {}" using t(2) i(2) by auto
    then show "ring l' h ys" using l'(3) unobserved_ring [of "{a, t}" ys h] ys(2) by blast
  qed (use t(2) i(2) in auto)
  then show ?thesis using l'(1) by blast
qed

lemma rings_rotate:
  assumes r: "rings l hs Qs" and i: "i < length Qs" "Qs ! i = x # xs"
  shows "hs ! i = x" "lnext l x = hd (xs @ [x])" "rings l (hs[i := lnext l x]) (Qs[i := xs @ [x]])"
proof -
  have q: "ring l (hs ! i) (x # xs)" using r i by (auto simp: rings_def)
  show h: "hs ! i = x" using dlist_hd [OF q] by simp
  show n: "lnext l x = hd (xs @ [x])" using dlist_next [of link_ops _ l "hs ! i" "[]" x xs] q h by simp
  have "ring l (lnext l x) (xs @ [x])"
    using lh.dlist_rotate [of l "hs ! i" "[x]" xs] q n h by (cases "xs = []") auto
  then show "rings l (hs[i := lnext l x]) (Qs[i := xs @ [x]])"
    using rings_update [OF r i(1), of l "lnext l x" "xs @ [x]"] i(2) by auto
qed

definition two_nodes :: link_heap where
  "two_nodes = \<lparr>lnext = (\<lambda>p. if p = 0x10 then 0x20 else 0x10),
                lprev = (\<lambda>p. if p = 0x10 then 0x20 else 0x10)\<rparr>"

lemma ring_two_nodes: "ring two_nodes 0x10 [0x10, 0x20]"
  by (simp add: two_nodes_def dlist_def)

subsection \<open>Properties\<close>

text \<open>
  Appending a fresh node to a ring returns the node, gives the ring with the node at its end and
  changes the links of no node outside the ring.
\<close>

theorem ring_push_back:
  assumes "ring m head xs" "t \<noteq> NULL" "t \<notin> set xs"
  shows "\<exists>m'. intrusive_list_push_back link_ops head t m = Some (t, m') \<and>
    ring m' (hd (xs @ [t])) (xs @ [t]) \<and>
    (\<forall>p. p \<notin> insert t (set xs) \<longrightarrow> lnext m' p = lnext m p \<and> lprev m' p = lprev m p)"
proof -
  obtain m' where m': "intrusive_list_push_back link_ops head t m = Some (t, m')"
      "ring m' (hd (xs @ [t])) (xs @ [t])"
    using lh.push_back_correct [OF assms(1,2)] assms(3) by blast
  moreover have "lnext m' p = lnext m p \<and> lprev m' p = lprev m p" if "p \<notin> insert t (set xs)" for p
    using lh.push_back_frame [OF assms(1) m'(1) unobserved_links [OF that]] by simp
  ultimately show ?thesis by blast
qed

theorem ring_push_back_witness:
  "\<exists>m'. intrusive_list_push_back link_ops 0x10 0x30 two_nodes = Some (0x30, m') \<and>
    ring m' 0x10 [0x10, 0x20, 0x30]"
  using ring_push_back [OF ring_two_nodes, of "0x30"] by auto

text \<open>
  Deleting a node of a ring gives the ring without it, with the new head returned (NULL for
  the last node), and changes the links of no node outside the ring.
\<close>

theorem ring_delete:
  assumes "ring m head xs" "x \<in> set xs"
    and "intrusive_list_delete link_ops head x m = (head', m')"
  shows "ring m' head' (remove1 x xs) \<and>
    (\<forall>p. p \<notin> set xs \<longrightarrow> lnext m' p = lnext m p \<and> lprev m' p = lprev m p)"
  using lh.delete_correct [OF assms] lh.delete_frame [OF assms unobserved_links] by blast

theorem ring_delete_witness:
  "ring (snd (intrusive_list_delete link_ops 0x10 0x10 two_nodes)) 0x20 [0x20]"
  using ring_delete [OF ring_two_nodes, of "0x10" "0x20"
      "snd (intrusive_list_delete link_ops 0x10 0x10 two_nodes)"]
  by (simp add: intrusive_list_delete_def two_nodes_def)

text \<open>
  The search of a ring returns the first matching node when there is one; when there is none it
  goes round the ring for ever, and the NULL result that its comment promises is never produced.
\<close>

theorem ring_find_first:
  assumes "ring m head xs" "xs \<noteq> []"
  shows "intrusive_list_find_first link_ops head P m =
    (if \<exists>x\<in>set xs. P x then Some (hd (filter P xs)) else None)"
proof -
  have h: "head = hd xs" "head \<in> set xs" "head \<noteq> NULL" using dlist_hd [OF assms] by auto
  have "hd (dropWhile (\<lambda>x. \<not> P x) xs) = hd (filter P xs)" if "\<exists>x\<in>set xs. P x"
    using that by (induction xs) auto
  then show ?thesis
    using lh.find_first_loop_found [of m head "[]" xs P] lh.find_first_loop_diverges [OF assms(1)]
      assms(1) h by (auto simp: intrusive_list_find_first_def)
qed

theorem ring_find_first_witness:
  "intrusive_list_find_first link_ops 0x10 (\<lambda>p. p = 0x20) two_nodes = Some 0x20 \<and>
   intrusive_list_find_first link_ops 0x10 (\<lambda>p. p = 0x30) two_nodes = None"
  using ring_find_first [OF ring_two_nodes] by simp

text \<open>
  Sorted insertion into a ring of two or more nodes does not write the \<open>next\<close> field of
  the predecessor: whatever the comparison says, the result is not a ring through the old nodes and
  the new one.
\<close>

theorem insert_sorted_loses_node:
  assumes "ring m h (h # y # ys)" "n \<noteq> NULL" "n \<notin> set (h # y # ys)"
    and "set zs = insert n (set (h # y # ys))"
  shows "\<exists>h' m'. intrusive_list_insert_sorted link_ops h n cmp m = Some (h', m') \<and>
    \<not> ring m' h' zs"
  using lh.insert_sorted_keeps_nexts [OF assms(1,2), of cmp]
    lh.insert_sorted_breaks_ring [OF assms(1,2) _ _ assms(4), of cmp] assms(3)
  by fastforce

theorem insert_sorted_loses_node_witness:
  "\<exists>h' m'. intrusive_list_insert_sorted link_ops 0x10 0x18 (\<lambda>a b. b \<le> a) two_nodes = Some (h', m') \<and>
    \<not> ring m' h' [0x10, 0x18, 0x20]"
  using insert_sorted_loses_node [OF ring_two_nodes, of "0x18" "[0x10, 0x18, 0x20]"] by auto

end
