(* ===== verification/Kmem.thy ===== *)
theory Kmem
  imports Intrusive_List
begin

text \<open>
  The kernel heap of kernel/kmem.cpp and kernel/include/kernel/kmem.hpp, on byte memory.

  \<open>kmem_init\<close>, \<open>kmem_alloc\<close>, \<open>kmem_free\<close> and \<open>kmem_print_free\<close> are the functions of the source; the
  two search loops and the blocks of straight-line code between them are definitions of their own
  (\<open>alloc_search\<close>, \<open>alloc_take\<close>, \<open>free_search\<close>, \<open>free_link\<close>, \<open>free_merge_prev\<close>,
  \<open>free_merge_next\<close>).  All header fields are read and written in the memory the clients share, so
  overlapping headers, stale links and wrap-around of addresses would show.  The descriptor
  \<open>kmem_heap_t\<close> lies outside the heap and is a record.

  The abstraction is a list of free blocks and a set of used blocks, each an interval of
  addresses.  \<open>kmem_rep h m F U\<close> says that memory \<open>m\<close> represents them: \<open>F\<close> is in address order, no two free
  blocks touch, all blocks are disjoint and inside the heap, the free list is a ring through \<open>F\<close> and all
  headers hold their sizes.  Allocation refines first fit (\<open>first_fit\<close>), freeing refines sorted
  insertion with merging (\<open>free_block\<close>).
\<close>

subsection \<open>Blocks in byte memory\<close>

text \<open>
  A block header is laid out by the structs of kmem.hpp: a free block holds its magic at offset 0,
  the list node at 8 and its size at 24, a used block its magic at 0 and its size at 8.
\<close>

definition KMEM_BLOCK_MAGIC :: u64 where
  "KMEM_BLOCK_MAGIC = 0xDEADBEEFABCDDCBA"

definition KMEM_FREE_BLOCK_PTR :: "ptr \<Rightarrow> ptr" where
  "KMEM_FREE_BLOCK_PTR list_ptr = list_ptr - 8"

definition KMEM_MIN_FREE_BLOCK_SIZE :: u64 where
  "KMEM_MIN_FREE_BLOCK_SIZE = max 32 16 * 2"

definition KMEM_ALLOCATION_SIZE :: "u64 \<Rightarrow> u64" where
  "KMEM_ALLOCATION_SIZE sz =
     (if sz > KMEM_MIN_FREE_BLOCK_SIZE then sz else KMEM_MIN_FREE_BLOCK_SIZE)"

definition kmem_links :: "memory intrusive_list" where
  "kmem_links = \<lparr>rd_next = load64, rd_prev = (\<lambda>m p. load64 m (p + 8)),
     wr_next = store64, wr_prev = (\<lambda>p. store64 (p + 8))\<rparr>"

record kmem_heap_t =
  heap_start :: ptr
  heap_size :: u64
  free_list :: ptr

definition free_block_size :: "memory \<Rightarrow> ptr \<Rightarrow> u64" where
  "free_block_size m block = load64 m (block + 24)"

subsection \<open>The allocator\<close>

definition kmem_init :: "ptr \<Rightarrow> u64 \<Rightarrow> memory \<Rightarrow> (kmem_heap_t \<times> memory) option" where
  "kmem_init start sz m = do {
     let heap_desc = \<lparr>heap_start = start, heap_size = sz, free_list = NULL\<rparr>;
     let first_free = start;
     (_, m) \<leftarrow> intrusive_list_init kmem_links (first_free + 8) m;
     let m = store64 (first_free + 24) sz m;
     let m = store64 first_free KMEM_BLOCK_MAGIC m;
     Some (heap_desc\<lparr>free_list := first_free + 8\<rparr>, m)
   }"

partial_function (option) alloc_search :: "ptr \<Rightarrow> u64 \<Rightarrow> memory \<Rightarrow> ptr \<Rightarrow> ptr option" where
  "alloc_search head sz m p_free =
     (if sz \<le> free_block_size m (KMEM_FREE_BLOCK_PTR p_free) then Some p_free
      else let p_free = rd_next kmem_links m p_free
           in if p_free \<noteq> head then alloc_search head sz m p_free else Some p_free)"

definition alloc_take ::
  "kmem_heap_t \<Rightarrow> u64 \<Rightarrow> ptr \<Rightarrow> memory \<Rightarrow> (kmem_heap_t \<times> memory) option" where
  "alloc_take heap_desc sz p_free m = (
     let block = KMEM_FREE_BLOCK_PTR p_free in
     if p_free = free_list heap_desc then
       if free_block_size m block - sz < KMEM_MIN_FREE_BLOCK_SIZE then
         let (head, m) = intrusive_list_delete kmem_links (free_list heap_desc) p_free m
         in Some (heap_desc\<lparr>free_list := head\<rparr>, m)
       else do {
         let new_free = block + sz;
         let m = store64 (new_free + 24) (free_block_size m block - sz) m;
         let m = store64 new_free KMEM_BLOCK_MAGIC m;
         (_, m) \<leftarrow> intrusive_list_init kmem_links (new_free + 8) m;
         let prev = rd_prev kmem_links m p_free;
         m \<leftarrow> (if prev \<noteq> p_free then do {
                 let m = intrusive_list_unlink_node kmem_links p_free m;
                 (_, m) \<leftarrow> intrusive_list_insert kmem_links prev (new_free + 8) m;
                 Some m
               } else Some m);
         Some (heap_desc\<lparr>free_list := new_free + 8\<rparr>, m)
       }
     else
       if free_block_size m block - sz < KMEM_MIN_FREE_BLOCK_SIZE then
         let (head, m) = intrusive_list_delete kmem_links (free_list heap_desc) p_free m
         in Some (heap_desc\<lparr>free_list := head\<rparr>, m)
       else do {
         let prev = rd_prev kmem_links m p_free;
         let new_free = block + sz;
         (_, m) \<leftarrow> intrusive_list_init kmem_links (new_free + 8) m;
         let m = store64 (new_free + 24) (free_block_size m block - sz) m;
         let m = store64 new_free KMEM_BLOCK_MAGIC m;
         let m = intrusive_list_unlink_node kmem_links p_free m;
         (_, m) \<leftarrow> intrusive_list_insert kmem_links prev (new_free + 8) m;
         Some (heap_desc, m)
       })"

definition kmem_alloc ::
  "kmem_heap_t \<Rightarrow> u64 \<Rightarrow> memory \<Rightarrow> (ptr \<times> kmem_heap_t \<times> memory) option" where
  "kmem_alloc heap_desc sz m = (
     let sz = KMEM_ALLOCATION_SIZE (sz + 16) in
     if free_list heap_desc = NULL then Some (NULL, heap_desc, m)
     else do {
       p_free \<leftarrow> alloc_search (free_list heap_desc) sz m (free_list heap_desc);
       if free_block_size m (KMEM_FREE_BLOCK_PTR p_free) < sz then Some (NULL, heap_desc, m)
       else do {
         (heap_desc, m) \<leftarrow> alloc_take heap_desc sz p_free m;
         let p_block = KMEM_FREE_BLOCK_PTR p_free;
         let m = store64 p_block KMEM_BLOCK_MAGIC m;
         let m = store64 (p_block + 8) sz m;
         Some (p_block + 16, heap_desc, m)
       }
     })"

partial_function (option) free_search ::
  "ptr \<Rightarrow> ptr \<Rightarrow> memory \<Rightarrow> ptr \<Rightarrow> ptr \<Rightarrow> ptr option" where
  "free_search head p m p_head p_prev =
     (if KMEM_FREE_BLOCK_PTR p_head > p then Some p_prev
      else let p_prev = p_head; p_head = rd_next kmem_links m p_head
           in if p_head \<noteq> head then free_search head p m p_head p_prev else Some p_prev)"

definition free_link :: "kmem_heap_t \<Rightarrow> ptr \<Rightarrow> ptr \<Rightarrow> memory \<Rightarrow> (kmem_heap_t \<times> memory) option" where
  "free_link heap_desc p p_free m = (
     let head = free_list heap_desc in
     if head \<noteq> NULL then do {
       p_prev \<leftarrow> free_search head p m head NULL;
       if p_prev = NULL then do {
         let m = wr_next kmem_links (rd_prev kmem_links m head) (p_free + 8) m;
         let m = wr_prev kmem_links (p_free + 8) (rd_prev kmem_links m head) m;
         let m = wr_next kmem_links (p_free + 8) head m;
         let m = wr_prev kmem_links head (p_free + 8) m;
         Some (heap_desc\<lparr>free_list := p_free + 8\<rparr>, m)
       } else do {
         (_, m) \<leftarrow> intrusive_list_insert kmem_links p_prev (p_free + 8) m;
         Some (heap_desc, m)
       }
     } else Some (heap_desc\<lparr>free_list := p_free + 8\<rparr>, m))"

definition free_merge_prev :: "u64 \<Rightarrow> ptr \<Rightarrow> memory \<Rightarrow> ptr \<times> memory" where
  "free_merge_prev block_size p_free m = (
     let p_prev_block = KMEM_FREE_BLOCK_PTR (rd_prev kmem_links m (p_free + 8)) in
     if p_prev_block + free_block_size m p_prev_block = p_free then
       let m = store64 (p_prev_block + 24) (free_block_size m p_prev_block + block_size) m;
           m = intrusive_list_unlink_node kmem_links (p_free + 8) m
       in (p_prev_block, m)
     else (p_free, m))"

definition free_merge_next :: "ptr \<Rightarrow> memory \<Rightarrow> memory" where
  "free_merge_next p_free m = (
     let p_next_block = KMEM_FREE_BLOCK_PTR (rd_next kmem_links m (p_free + 8)) in
     if p_free + free_block_size m p_free = p_next_block then
       let m = store64 (p_free + 24) (free_block_size m p_free + free_block_size m p_next_block) m
       in intrusive_list_unlink_node kmem_links (p_next_block + 8) m
     else m)"

definition kmem_free :: "kmem_heap_t \<Rightarrow> ptr \<Rightarrow> memory \<Rightarrow> (kmem_heap_t \<times> memory) option" where
  "kmem_free heap_desc p m =
     (if p = NULL then Some (heap_desc, m)
      else let p_block = p - 16 in
      if p_block < heap_start heap_desc \<or> p_block > heap_start heap_desc + heap_size heap_desc
      then Some (heap_desc, m)
      else if KMEM_BLOCK_MAGIC \<noteq> load64 m p_block then Some (heap_desc, m)
      else do {
        let block_size = load64 m (p_block + 8);
        let p_free = p_block;
        (_, m) \<leftarrow> intrusive_list_init kmem_links (p_free + 8) m;
        let m = store64 (p_free + 24) block_size m;
        let m = store64 p_free KMEM_BLOCK_MAGIC m;
        (heap_desc, m) \<leftarrow> free_link heap_desc p p_free m;
        let (p_free, m) = free_merge_prev block_size p_free m;
        let m = free_merge_next p_free m;
        Some (heap_desc, m)
      })"

text \<open>
  \<open>kmem_print_free\<close> prints one line per free block, at most eleven; a line is the block's
  magic, address, offset in the heap and size.
\<close>

type_synonym free_line = "u64 \<times> ptr \<times> u64 \<times> u64"

primrec print_free_loop :: "nat \<Rightarrow> kmem_heap_t \<Rightarrow> memory \<Rightarrow> ptr \<Rightarrow> free_line list" where
  "print_free_loop 0 heap_desc m p_head =
     (let block = KMEM_FREE_BLOCK_PTR p_head
      in [(load64 m block, block, block - heap_start heap_desc, free_block_size m block)])"
| "print_free_loop (Suc n) heap_desc m p_head =
     (let block = KMEM_FREE_BLOCK_PTR p_head; p_next = rd_next kmem_links m p_head
      in (load64 m block, block, block - heap_start heap_desc, free_block_size m block) #
         (if p_next \<noteq> free_list heap_desc then print_free_loop n heap_desc m p_next else []))"

definition kmem_print_free :: "kmem_heap_t \<Rightarrow> memory \<Rightarrow> free_line list" where
  "kmem_print_free heap_desc m =
     (if free_list heap_desc = NULL then []
      else print_free_loop 10 heap_desc m (free_list heap_desc))"

subsection \<open>The list laws on byte memory\<close>

definition kmem_sep :: "ptr \<Rightarrow> ptr \<Rightarrow> bool" where
  "kmem_sep p q \<longleftrightarrow> separate p 16 q 16"

lemma separate_sub:
  assumes sep: "separate a la b lb" and i: "i + li \<le> la" "0 < li" and j: "j + lj \<le> lb" "0 < lj"
  shows "separate (a + of_nat i) li (b + of_nat j) lj"
proof -
  define d e where "d = unat (b - a)" and "e = unat (a - b)"
  have "b \<noteq> a" using sep i by (auto simp: separate_def)
  then have de: "e + d = 2 ^ 64" using unat_diff_sum by (simp add: d_def e_def)
  have le: "la \<le> d" "lb \<le> e" using sep by (simp_all add: separate_def d_def e_def)
  have "b - a = of_nat d" by (simp add: d_def)
  then have 1: "b + of_nat j - (a + of_nat i) = of_nat (d + j - i)"
    using le i j by (simp add: of_nat_diff algebra_simps)
  have "a - b = of_nat e" by (simp add: e_def)
  then have 2: "a + of_nat i - (b + of_nat j) = of_nat (e + i - j)"
    using le i j by (simp add: of_nat_diff algebra_simps)
  have "d + j - i < 2 ^ 64" "e + i - j < 2 ^ 64" using de le i j by linarith+
  note u = this [THEN unat_of_nat64]
  show ?thesis using le i j unfolding separate_def 1 2 u by linarith
qed

lemma separate_8 [simp]: "separate p 8 (p + 8) 8" "separate (p + 8) 8 p 8"
  by (simp_all add: separate_def)

lemma kmem_sep_fields:
  assumes "kmem_sep p q"
  shows "separate p 8 q 8" "separate (p + 8) 8 q 8" "separate p 8 (q + 8) 8"
    "separate (p + 8) 8 (q + 8) 8"
  using separate_sub [of p 16 q 16 0 8 0 8] separate_sub [of p 16 q 16 8 8 0 8]
    separate_sub [of p 16 q 16 0 8 8 8] separate_sub [of p 16 q 16 8 8 8 8] assms
  by (simp_all add: kmem_sep_def)

interpretation km: list_memory kmem_links kmem_sep
proof unfold_locales
  fix p q v m
  show "kmem_sep p q \<Longrightarrow> kmem_sep q p" by (simp add: kmem_sep_def separate_sym)
  show "\<not> kmem_sep p p" by (simp add: kmem_sep_def separate_def)
qed (simp_all add: kmem_links_def load64_store64_separate kmem_sep_fields)

subsection \<open>Which bytes an operation writes\<close>

definition changes_only :: "nat set \<Rightarrow> memory \<Rightarrow> memory \<Rightarrow> bool" where
  "changes_only S m m' \<longleftrightarrow> (\<forall>x. unat x \<notin> S \<longrightarrow> m' x = m x)"

lemma changes_only_refl [simp]: "changes_only S m m"
  by (simp add: changes_only_def)

lemma changes_only_trans:
  "changes_only S m m' \<Longrightarrow> changes_only T m' m'' \<Longrightarrow> S \<subseteq> R \<Longrightarrow> T \<subseteq> R \<Longrightarrow> changes_only R m m''"
  unfolding changes_only_def by (metis subsetD)

lemma changes_only_mono: "changes_only S m m' \<Longrightarrow> S \<subseteq> T \<Longrightarrow> changes_only T m m'"
  by (auto simp: changes_only_def)

lemma in_range_of_nat:
  fixes x :: u64
  assumes "a + n \<le> 2 ^ 64"
  shows "unat (x - of_nat a) < n \<longleftrightarrow> unat x \<in> {a..<a + n}"
proof (cases "a < 2 ^ 64")
  case True
  have "unat (of_nat a :: u64) = a" using True by (simp add: unat_of_nat)
  then show ?thesis
    using assms unat_sub_if' [of x "of_nat a"] unsigned_less [of x] by (auto split: if_splits)
next
  case False
  then show ?thesis using assms by auto
qed

lemma separate_of_nat:
  assumes "a + la \<le> b \<or> b + lb \<le> a" "a + la \<le> 2 ^ 64" "b + lb \<le> 2 ^ 64" "0 < la" "0 < lb"
  shows "separate (of_nat a) la (of_nat b) lb"
proof -
  have ab: "a < 2 ^ 64" "b < 2 ^ 64" using assms(2-5) by linarith+
  then have u: "unat (of_nat a :: u64) = a" "unat (of_nat b :: u64) = b"
    by (simp_all add: unat_of_nat)
  have "la \<le> unat (of_nat b - of_nat a :: u64)"
    using in_range_of_nat [of a la "of_nat b"] assms u by auto
  moreover have "lb \<le> unat (of_nat a - of_nat b :: u64)"
    using in_range_of_nat [of b lb "of_nat a"] assms u by auto
  ultimately show ?thesis by (simp add: separate_def)
qed

lemma changes_only_store64:
  "a + 8 \<le> 2 ^ 64 \<Longrightarrow> changes_only {a..<a + 8} m (store64 (of_nat a) v m)"
  by (auto simp: changes_only_def store64_def write_bytes_def in_range_of_nat)

lemma load64_changes_only:
  assumes "changes_only S m m'" "{a..<a + 8} \<inter> S = {}" "a + 8 \<le> 2 ^ 64"
  shows "load64 m' (of_nat a) = load64 m (of_nat a)"
proof -
  have "unat (of_nat a + of_nat i :: u64) = a + i" if "i < 8" for i
    using assms(3) that by (simp flip: of_nat_add add: unat_of_nat)
  then have "m' (of_nat a + of_nat i) = m (of_nat a + of_nat i)" if "i < 8" for i
    using assms(1,2) that disjoint_iff [of "{a..<a + 8}" S] by (simp add: changes_only_def)
  then have "read_bytes m' (of_nat a) 8 = read_bytes m (of_nat a) 8" by (auto simp: read_bytes_def)
  then show ?thesis by (simp add: load64_def)
qed

lemma load64_store64_at:
  assumes "a + 8 \<le> b \<or> b + 8 \<le> a" "a + 8 \<le> 2 ^ 64" "b + 8 \<le> 2 ^ 64"
  shows "load64 (store64 (of_nat a) v m) (of_nat b) = load64 m (of_nat b)"
  using assms by (intro load64_store64_separate separate_of_nat) auto

subsection \<open>Free and used blocks as intervals\<close>

type_synonym block = "nat \<times> nat"

definition disjnt_blocks :: "block \<Rightarrow> block \<Rightarrow> bool" where
  "disjnt_blocks x y \<longleftrightarrow> fst x + snd x \<le> fst y \<or> fst y + snd y \<le> fst x"

definition wf_blocks :: "nat \<Rightarrow> nat \<Rightarrow> block list \<Rightarrow> block set \<Rightarrow> bool" where
  "wf_blocks lo hi F U \<longleftrightarrow>
     sorted_wrt (\<lambda>x y. fst x + snd x < fst y) F \<and>
     (\<forall>x\<in>set F \<union> U. 64 \<le> snd x \<and> lo \<le> fst x \<and> fst x + snd x \<le> hi) \<and>
     (\<forall>x\<in>set F. \<forall>y\<in>U. disjnt_blocks x y) \<and>
     pairwise disjnt_blocks U"

definition block_bytes :: "block set \<Rightarrow> nat set" where
  "block_bytes B = (\<Union>x\<in>B. {fst x..<fst x + snd x})"

fun first_fit :: "nat \<Rightarrow> block list \<Rightarrow> (nat \<times> block list) option" where
  "first_fit n [] = None"
| "first_fit n ((a, s) # F) =
     (if n \<le> s then Some (a, if s - n < 64 then F else (a + n, s - n) # F)
      else map_option (\<lambda>(b, F'). (b, (a, s) # F')) (first_fit n F))"

fun merge_block :: "block \<Rightarrow> block list \<Rightarrow> block list" where
  "merge_block (a, s) ((b, t) # F) = (if a + s = b then (a, s + t) # F else (a, s) # (b, t) # F)"
| "merge_block x [] = [x]"

fun free_block :: "block \<Rightarrow> block list \<Rightarrow> block list" where
  "free_block x [] = [x]"
| "free_block (a, s) ((b, t) # F) =
     (if b < a then if b + t = a then merge_block (b, t + s) F else (b, t) # free_block (a, s) F
      else merge_block (a, s) ((b, t) # F))"

lemma first_fit_None: "first_fit n F = None \<longleftrightarrow> (\<forall>x\<in>set F. snd x < n)"
  by (induction n F rule: first_fit.induct) auto

lemma first_fit_Some:
  assumes "first_fit n F = Some (a, F')"
  obtains pre s post where "F = pre @ (a, s) # post" "n \<le> s" "\<forall>x\<in>set pre. snd x < n"
    "F' = pre @ (if s - n < 64 then [] else [(a + n, s - n)]) @ post"
  using assms
proof (induction F arbitrary: F' thesis)
  case (Cons x F)
  obtain b t where x: "x = (b, t)" by (cases x)
  show ?case
  proof (cases "n \<le> t")
    case True
    then show ?thesis using Cons.prems x by (intro Cons.prems(1) [of "[]" t F]) auto
  next
    case False
    then obtain F'' where f: "first_fit n F = Some (a, F'')" "F' = (b, t) # F''"
      using Cons.prems(2) x by auto
    obtain pre s post where "F = pre @ (a, s) # post" "n \<le> s" "\<forall>x\<in>set pre. snd x < n"
        "F'' = pre @ (if s - n < 64 then [] else [(a + n, s - n)]) @ post"
      using Cons.IH [OF _ f(1)] by blast
    then show ?thesis using False f x by (intro Cons.prems(1) [of "(b, t) # pre" s post]) auto
  qed
qed simp

definition blocks_ok :: "block set \<Rightarrow> bool" where
  "blocks_ok B \<longleftrightarrow> pairwise disjnt_blocks B \<and>
     (\<forall>x\<in>B. 64 \<le> snd x \<and> 0 < fst x \<and> fst x + snd x < 2 ^ 64)"

definition node :: "block \<Rightarrow> ptr" where
  "node x = of_nat (fst x + 8)"

definition node_bytes :: "block set \<Rightarrow> nat set" where
  "node_bytes B = (\<Union>x\<in>B. {fst x + 8..<fst x + 24})"

definition free_hdr :: "memory \<Rightarrow> block \<Rightarrow> bool" where
  "free_hdr m x \<longleftrightarrow> load64 m (of_nat (fst x)) = KMEM_BLOCK_MAGIC \<and>
     load64 m (of_nat (fst x + 24)) = of_nat (snd x)"

definition used_hdr :: "memory \<Rightarrow> block \<Rightarrow> bool" where
  "used_hdr m x \<longleftrightarrow> load64 m (of_nat (fst x)) = KMEM_BLOCK_MAGIC \<and>
     load64 m (of_nat (fst x + 8)) = of_nat (snd x)"

lemma disjnt_blocks_sym: "disjnt_blocks x y \<longleftrightarrow> disjnt_blocks y x"
  by (auto simp: disjnt_blocks_def)

lemma blocks_ok_subset: "blocks_ok B \<Longrightarrow> D \<subseteq> B \<Longrightarrow> blocks_ok D"
  by (auto simp: blocks_ok_def intro: pairwise_subset)

lemma blocks_okD:
  "blocks_ok B \<Longrightarrow> x \<in> B \<Longrightarrow> 64 \<le> snd x \<and> 0 < fst x \<and> fst x + snd x < 2 ^ 64"
  by (simp add: blocks_ok_def)

lemma blocks_ok_disjnt: "blocks_ok B \<Longrightarrow> x \<in> B \<Longrightarrow> y \<in> B \<Longrightarrow> x \<noteq> y \<Longrightarrow> disjnt_blocks x y"
  by (auto simp: blocks_ok_def pairwise_def)

lemma blocks_ok_insert:
  assumes "blocks_ok B" "64 \<le> snd x" "0 < fst x" "fst x + snd x < 2 ^ 64"
    and "\<And>y. y \<in> B \<Longrightarrow> y \<noteq> x \<Longrightarrow> disjnt_blocks x y"
  shows "blocks_ok (insert x B)"
  using assms disjnt_blocks_sym by (auto simp: blocks_ok_def pairwise_insert)

lemma node_neq_NULL: "blocks_ok B \<Longrightarrow> x \<in> B \<Longrightarrow> node x \<noteq> NULL"
  using blocks_okD [of B x] unat_of_nat64 [of "fst x + 8"] by (auto simp: node_def)

lemma node_sep:
  assumes "blocks_ok B" "x \<in> B" "y \<in> B" "x \<noteq> y"
  shows "kmem_sep (node x) (node y)"
  unfolding kmem_sep_def node_def
  by (rule separate_of_nat)
    (use blocks_okD [OF assms(1,2)] blocks_okD [OF assms(1,3)] blocks_ok_disjnt [OF assms] in
      \<open>auto simp: disjnt_blocks_def\<close>)

lemma node_inject: "blocks_ok B \<Longrightarrow> x \<in> B \<Longrightarrow> y \<in> B \<Longrightarrow> node x = node y \<Longrightarrow> x = y"
  using node_sep [of B x y] km.sep_irrefl by metis

lemma unobserved_byte:
  assumes "blocks_ok B" "unat x \<notin> node_bytes B"
  shows "unobserved kmem_links (node ` B) (\<lambda>m. m x)"
proof -
  have "m x = store64 (of_nat (fst y + 8)) v m x \<and> m x = store64 (of_nat (fst y + 8) + 8) v m x"
    if y: "y \<in> B" for y v m
  proof -
    have b: "fst y + 8 + 16 \<le> 2 ^ 64" using blocks_okD [OF assms(1) y] by linarith
    have out: "unat x \<notin> {fst y + 8..<fst y + 8 + 8}" "unat x \<notin> {fst y + 16..<fst y + 16 + 8}"
      using assms(2) y by (auto simp: node_bytes_def)
    have eq: "(of_nat (fst y + 8) + 8 :: u64) = of_nat (fst y + 16)" by simp
    have "store64 (of_nat (fst y + 8)) v m x = m x" "store64 (of_nat (fst y + 16)) v m x = m x"
      using changes_only_store64 [of "fst y + 8" m v] changes_only_store64 [of "fst y + 16" m v]
        b out unfolding changes_only_def by auto
    then show ?thesis unfolding eq by simp
  qed
  then show ?thesis by (simp add: unobserved_def kmem_links_def node_def)
qed

lemma list_changes_only:
  assumes "blocks_ok B" "\<And>f :: memory \<Rightarrow> u8. unobserved kmem_links (node ` B) f \<Longrightarrow> f m' = f m"
  shows "changes_only (node_bytes B) m m'"
  using assms(2) [OF unobserved_byte [OF assms(1)]] by (simp add: changes_only_def)

lemma dlist_changes_only:
  assumes "changes_only S m m'" "blocks_ok (set F)" "node_bytes (set F) \<inter> S = {}"
  shows "dlist kmem_links kmem_sep m' h (map node F) = dlist kmem_links kmem_sep m h (map node F)"
proof (rule dlist_cong)
  fix p assume "p \<in> set (map node F)"
  then obtain x where x: "x \<in> set F" "p = of_nat (fst x + 8)" by (auto simp: node_def)
  have b: "fst x + 24 \<le> 2 ^ 64" using blocks_okD [OF assms(2) x(1)] by linarith
  have "{fst x + 8..<fst x + 24} \<inter> S = {}"
    using assms(3) x(1) unfolding node_bytes_def by blast
  then have out: "{fst x + 8..<fst x + 8 + 8} \<inter> S = {}" "{fst x + 16..<fst x + 16 + 8} \<inter> S = {}"
    by (auto simp: disjoint_iff)
  have "p + 8 = of_nat (fst x + 16)" using x by simp
  then show "rd_next kmem_links m' p = rd_next kmem_links m p \<and>
      rd_prev kmem_links m' p = rd_prev kmem_links m p"
    using load64_changes_only [OF assms(1) out(1)] load64_changes_only [OF assms(1) out(2)] b x
    by (simp add: kmem_links_def add.commute)
qed

lemma free_hdr_changes_only:
  assumes "changes_only S m m'" "fst x + 32 \<le> 2 ^ 64"
    and "{fst x..<fst x + 8} \<inter> S = {}" "{fst x + 24..<fst x + 24 + 8} \<inter> S = {}"
  shows "free_hdr m' x = free_hdr m x"
  using load64_changes_only [OF assms(1,3)] load64_changes_only [OF assms(1,4)] assms(2)
  by (simp add: free_hdr_def)

lemma used_hdr_changes_only:
  assumes "changes_only S m m'" "fst x + 16 \<le> 2 ^ 64" "{fst x..<fst x + 16} \<inter> S = {}"
  shows "used_hdr m' x = used_hdr m x"
proof -
  have "{fst x..<fst x + 8} \<inter> S = {}" "{fst x + 8..<fst x + 8 + 8} \<inter> S = {}"
    using assms(3) by (auto simp: disjoint_iff)
  then show ?thesis
    using load64_changes_only [OF assms(1), of "fst x"]
      load64_changes_only [OF assms(1), of "fst x + 8"] assms(2)
    by (simp add: used_hdr_def)
qed

lemma hdr_outside_nodes:
  assumes ok: "blocks_ok B" and D: "D \<subseteq> B" and x: "x \<in> B"
  shows "{fst x..<fst x + 8} \<inter> node_bytes D = {}" "{fst x + 24..<fst x + 24 + 8} \<inter> node_bytes D = {}"
proof -
  have "{fst x..<fst x + 8} \<inter> {fst y + 8..<fst y + 24} = {} \<and>
      {fst x + 24..<fst x + 24 + 8} \<inter> {fst y + 8..<fst y + 24} = {}" if y: "y \<in> D" for y
    using blocks_okD [OF ok x] blocks_okD [OF ok, of y] y D blocks_ok_disjnt [OF ok x, of y]
    by (cases "x = y") (auto simp: disjnt_blocks_def)
  then show "{fst x..<fst x + 8} \<inter> node_bytes D = {}"
    and "{fst x + 24..<fst x + 24 + 8} \<inter> node_bytes D = {}"
    unfolding node_bytes_def by blast+
qed

lemma free_hdr_list_frame:
  assumes "changes_only (node_bytes D) m m'" "blocks_ok B" "D \<subseteq> B" "x \<in> B"
  shows "free_hdr m' x = free_hdr m x"
  by (rule free_hdr_changes_only [OF assms(1)])
    (use blocks_okD [OF assms(2,4)] hdr_outside_nodes [OF assms(2-4)] in auto)

lemma node_bytes_subset:
  assumes "blocks_ok B"
  shows "node_bytes B \<subseteq> block_bytes B"
proof -
  have "{fst x + 8..<fst x + 24} \<subseteq> {fst x..<fst x + snd x}" if "x \<in> B" for x
    using blocks_okD [OF assms that] by auto
  then show ?thesis unfolding node_bytes_def block_bytes_def by blast
qed

lemma used_hdr_frame:
  assumes "changes_only (block_bytes D) m m'" "blocks_ok B" "D \<subseteq> B" "x \<in> B" "x \<notin> D"
  shows "used_hdr m' x = used_hdr m x"
proof (rule used_hdr_changes_only [OF assms(1)])
  note ok = blocks_okD [OF assms(2)]
  show "fst x + 16 \<le> 2 ^ 64" using ok [OF assms(4)] by linarith
  have "{fst x..<fst x + 16} \<inter> {fst y..<fst y + snd y} = {}" if y: "y \<in> D" for y
    using ok [OF assms(4)] ok [of y] y assms(3,5) blocks_ok_disjnt [OF assms(2,4), of y]
    by (cases "x = y") (auto simp: disjnt_blocks_def)
  then show "{fst x..<fst x + 16} \<inter> block_bytes D = {}"
    unfolding block_bytes_def by blast
qed

subsection \<open>The search and the split of an allocation\<close>

abbreviation free_ring :: "memory \<Rightarrow> ptr \<Rightarrow> block list \<Rightarrow> bool" where
  "free_ring m head F \<equiv> dlist kmem_links kmem_sep m head (map node F)"

lemma block_ptr_node [simp]: "KMEM_FREE_BLOCK_PTR (node x) = of_nat (fst x)"
  by (simp add: KMEM_FREE_BLOCK_PTR_def node_def)

lemma free_block_size_hdr: "free_hdr m x \<Longrightarrow> free_block_size m (of_nat (fst x)) = of_nat (snd x)"
  by (simp add: free_hdr_def free_block_size_def)

lemma alloc_search_result:
  assumes "free_ring m head (xs @ ys)" "ys \<noteq> []" "\<forall>x\<in>set ys. free_hdr m x"
    and "blocks_ok (set (xs @ ys))" "n < 2 ^ 64"
  shows "alloc_search head (of_nat n) m (node (hd ys)) =
    Some (hd (map node (dropWhile (\<lambda>x. snd x < n) ys) @ [head]))"
  using assms
proof (induction ys arbitrary: xs)
  case (Cons y ys)
  have sz: "free_block_size m (of_nat (fst y)) = of_nat (snd y)" "snd y < 2 ^ 64"
    using Cons.prems free_block_size_hdr blocks_okD [OF Cons.prems(4), of y] by auto
  have nxt: "rd_next kmem_links m (node y) = hd (map node ys @ [head])"
    using dlist_next [of _ _ m head "map node xs" "node y" "map node ys"] Cons.prems(1) by simp
  have new: "node (hd ys) \<noteq> head" if "ys \<noteq> []"
    using dlist_hd [OF Cons.prems(1)] km.dlist_distinct [OF Cons.prems(1)]
      imageI [OF hd_in_set [OF that], of node] by (cases xs) auto
  show ?case
  proof (cases "n \<le> snd y")
    case True
    then show ?thesis
      using sz Cons.prems(5) by (simp add: alloc_search.simps [of head "of_nat n"] of_nat64_le)
  next
    case False
    then show ?thesis
      using sz Cons.prems nxt new Cons.IH [of "xs @ [y]"]
      by (cases "ys = []")
        (simp_all add: alloc_search.simps [of head "of_nat n" m "node y"] of_nat64_le hd_append
          hd_map Let_def)
  qed
qed simp

lemma alloc_take_whole:
  assumes l: "free_ring m (free_list h) F" and x: "x \<in> set F" and hdr: "free_hdr m x"
    and ok: "blocks_ok (set F)" and n: "n \<le> snd x" "snd x - n < 64"
  shows "\<exists>h' m'. alloc_take h (of_nat n) (node x) m = Some (h', m') \<and>
    h' = h\<lparr>free_list := free_list h'\<rparr> \<and> free_ring m' (free_list h') (remove1 x F) \<and>
    changes_only (node_bytes (set F)) m m'"
proof -
  obtain head' m' where d: "intrusive_list_delete kmem_links (free_list h) (node x) m = (head', m')"
    by fastforce
  have nx: "node x \<in> set (map node F)" using x by simp
  have b: "snd x < 2 ^ 64" using blocks_okD [OF ok x] by linarith
  have "of_nat (snd x) - of_nat n = (of_nat (snd x - n) :: u64)" using n by (simp add: of_nat_diff)
  then have "free_block_size m (of_nat (fst x)) - of_nat n < KMEM_MIN_FREE_BLOCK_SIZE"
    using free_block_size_hdr [OF hdr] n b of_nat64_less [of "snd x - n" 64]
    by (simp add: KMEM_MIN_FREE_BLOCK_SIZE_def)
  then have "alloc_take h (of_nat n) (node x) m = Some (h\<lparr>free_list := head'\<rparr>, m')"
    using d by (cases "free_list h = node x") (auto simp: alloc_take_def Let_def)
  moreover have "remove1 (node x) (map node F) = map node (remove1 x F)"
    using x node_inject [OF ok x] by (induction F) (auto split: if_splits)
  then have "free_ring m' head' (remove1 x F)" using km.delete_correct [OF l nx d] by simp
  moreover have "changes_only (node_bytes (set F)) m m'"
    by (rule list_changes_only [OF ok]) (use km.delete_frame [OF l nx d] in auto)
  ultimately show ?thesis by auto
qed

lemma node_init:
  assumes "blocks_ok B" "y \<in> B"
  shows "\<exists>m'. intrusive_list_init kmem_links (of_nat (fst y) + 8) m = Some (node y, m') \<and>
    free_ring m' (node y) [y] \<and> changes_only {fst y + 8..<fst y + 24} m m'"
proof -
  obtain m' where m': "intrusive_list_init kmem_links (node y) m = Some (node y, m')"
      "free_ring m' (node y) [y]"
    using km.init_correct [OF node_neq_NULL [OF assms]] by auto
  have "changes_only (node_bytes {y}) m m'"
    by (rule list_changes_only [OF blocks_ok_subset [OF assms(1)]])
      (use assms(2) km.init_frame [OF m'(1)] in auto)
  then show ?thesis using m' by (simp add: node_def node_bytes_def)
qed

lemma header_stores:
  assumes "blocks_ok B" "y \<in> B"
  shows "free_hdr (store64 (of_nat (fst y)) KMEM_BLOCK_MAGIC
            (store64 (of_nat (fst y) + 24) (of_nat (snd y)) m)) y"
    and "changes_only ({fst y..<fst y + 8} \<union> {fst y + 24..<fst y + 32}) m
          (store64 (of_nat (fst y)) KMEM_BLOCK_MAGIC (store64 (of_nat (fst y) + 24) v m))"
proof -
  have b: "fst y + 32 \<le> 2 ^ 64" using blocks_okD [OF assms] by linarith
  have eq: "of_nat (fst y) + 24 = (of_nat (fst y + 24) :: u64)" by simp
  show "free_hdr (store64 (of_nat (fst y)) KMEM_BLOCK_MAGIC
      (store64 (of_nat (fst y) + 24) (of_nat (snd y)) m)) y"
    unfolding eq free_hdr_def using b load64_store64_at [of "fst y" "fst y + 24"] by simp
  show "changes_only ({fst y..<fst y + 8} \<union> {fst y + 24..<fst y + 32}) m
      (store64 (of_nat (fst y)) KMEM_BLOCK_MAGIC (store64 (of_nat (fst y) + 24) v m))"
    unfolding eq
    by (rule changes_only_trans [OF changes_only_store64 changes_only_store64]) (use b in auto)
qed

definition header_bytes :: "block \<Rightarrow> nat set" where
  "header_bytes y = {fst y..<fst y + 32}"

lemma new_free_block:
  assumes "blocks_ok B" "y \<in> B"
  shows "\<exists>m'. intrusive_list_init kmem_links (of_nat (fst y) + 8)
      (store64 (of_nat (fst y)) KMEM_BLOCK_MAGIC (store64 (of_nat (fst y) + 24) (of_nat (snd y)) m))
        = Some (node y, m') \<and>
      free_ring m' (node y) [y] \<and> free_hdr m' y \<and> changes_only (header_bytes y) m m'"
    and "\<exists>m'. intrusive_list_init kmem_links (of_nat (fst y) + 8) m = Some (node y, m') \<and>
      free_ring (store64 (of_nat (fst y)) KMEM_BLOCK_MAGIC
        (store64 (of_nat (fst y) + 24) (of_nat (snd y)) m')) (node y) [y] \<and>
      free_hdr (store64 (of_nat (fst y)) KMEM_BLOCK_MAGIC
        (store64 (of_nat (fst y) + 24) (of_nat (snd y)) m')) y \<and>
      changes_only {fst y + 8..<fst y + 24} m m' \<and>
      changes_only (header_bytes y) m (store64 (of_nat (fst y)) KMEM_BLOCK_MAGIC
        (store64 (of_nat (fst y) + 24) (of_nat (snd y)) m'))"
proof -
  have ok: "blocks_ok {y}" using blocks_ok_subset [OF assms(1), of "{y}"] assms(2) by simp
  note st = header_stores [OF assms]
  let ?st = "\<lambda>m. store64 (of_nat (fst y)) KMEM_BLOCK_MAGIC
    (store64 (of_nat (fst y) + 24) (of_nat (snd y)) m)"
  obtain m1 where m1: "intrusive_list_init kmem_links (of_nat (fst y) + 8) (?st m) = Some (node y, m1)"
      "free_ring m1 (node y) [y]" "changes_only {fst y + 8..<fst y + 24} (?st m) m1"
    using node_init [OF assms, of "?st m"] by blast
  have "free_hdr m1 y" using free_hdr_list_frame [of "{y}" "?st m" m1 "{y}" y] m1(3) ok st(1)
    by (simp add: node_bytes_def)
  moreover have "changes_only (header_bytes y) m m1"
    by (rule changes_only_trans [OF st(2) m1(3)]) (auto simp: header_bytes_def)
  ultimately show "\<exists>m'. intrusive_list_init kmem_links (of_nat (fst y) + 8) (?st m) = Some (node y, m') \<and>
      free_ring m' (node y) [y] \<and> free_hdr m' y \<and> changes_only (header_bytes y) m m'"
    using m1 by blast
  obtain m2 where m2: "intrusive_list_init kmem_links (of_nat (fst y) + 8) m = Some (node y, m2)"
      "free_ring m2 (node y) [y]" "changes_only {fst y + 8..<fst y + 24} m m2"
    using node_init [OF assms, of m] by blast
  have "node_bytes (set [y]) \<inter> ({fst y..<fst y + 8} \<union> {fst y + 24..<fst y + 32}) = {}"
    by (auto simp: node_bytes_def)
  then have "free_ring (?st m2) (node y) [y]"
    using dlist_changes_only [OF st(2), of "[y]"] m2(2) ok by simp
  moreover have "changes_only (header_bytes y) m (?st m2)"
    by (rule changes_only_trans [OF m2(3) st(2)]) (auto simp: header_bytes_def)
  ultimately show "\<exists>m'. intrusive_list_init kmem_links (of_nat (fst y) + 8) m = Some (node y, m') \<and>
      free_ring (?st m') (node y) [y] \<and> free_hdr (?st m') y \<and>
      changes_only {fst y + 8..<fst y + 24} m m' \<and> changes_only (header_bytes y) m (?st m')"
    using m2 st(1) by blast
qed

lemma header_outside_nodes:
  assumes "blocks_ok B" "y \<in> B" "D \<subseteq> B" "y \<notin> D"
  shows "node_bytes D \<inter> header_bytes y = {}"
proof -
  have "{fst x + 8..<fst x + 24} \<inter> header_bytes y = {}" if x: "x \<in> D" for x
    using blocks_okD [OF assms(1,2)] blocks_okD [OF assms(1), of x] assms(3,4) x
      blocks_ok_disjnt [OF assms(1,2), of x]
    by (cases "x = y") (auto simp: disjnt_blocks_def header_bytes_def)
  then show ?thesis unfolding node_bytes_def by blast
qed

lemma replace_node:
  assumes l: "free_ring m head (pre @ x # post)" and ne: "pre @ post \<noteq> []"
    and ok: "blocks_ok (insert y (set (pre @ x # post)))" and y: "y \<notin> set (pre @ x # post)"
  shows "\<exists>m'. intrusive_list_insert kmem_links (rd_prev kmem_links m (node x)) (node y)
      (intrusive_list_unlink_node kmem_links (node x) m) = Some (node y, m') \<and>
    free_ring m' (hd (map node pre @ [node y])) (pre @ y # post) \<and>
    changes_only (node_bytes (insert y (set (pre @ x # post)))) m m'"
proof -
  have "kmem_sep z (node y)" if "z \<in> set (map node pre @ map node post)" for z
    using that node_sep [OF ok, of _ y] y by auto
  then obtain m' where m': "intrusive_list_insert kmem_links (rd_prev kmem_links m (node x)) (node y)
        (intrusive_list_unlink_node kmem_links (node x) m) = Some (node y, m')"
      "free_ring m' (hd (map node pre @ [node y])) (pre @ y # post)"
    using km.replace_correct [of m head "map node pre" "node x" "map node post" "node y"] l ne
      node_neq_NULL [OF ok, of y] by auto
  have "changes_only (node_bytes (insert y (set (pre @ x # post)))) m m'"
    by (rule list_changes_only [OF ok])
      (use km.replace_frame [of m head "map node pre" "node x" "map node post" "node y" "node y" m']
        l ne m'(1) in \<open>auto simp: image_Un\<close>)
  then show ?thesis using m' by blast
qed

lemma rd_prev_changes_only:
  assumes "changes_only S m m'" "blocks_ok B" "x \<in> B" "node_bytes {x} \<inter> S = {}"
  shows "rd_prev kmem_links m' (node x) = rd_prev kmem_links m (node x)"
proof -
  have "{fst x + 16..<fst x + 16 + 8} \<inter> S = {}"
    using assms(4) by (auto simp: node_bytes_def disjoint_iff)
  then show ?thesis
    using load64_changes_only [OF assms(1), of "fst x + 16"] blocks_okD [OF assms(2,3)]
    by (simp add: kmem_links_def node_def add.commute)
qed

lemma split_ptrs:
  "of_nat a + of_nat n = (of_nat (a + n) :: u64)" "KMEM_FREE_BLOCK_PTR (node (a, n)) = of_nat a"
  "of_nat (a + n) + 8 = node (a + n, t)"
  using block_ptr_node [of "(a, n)"] by (simp_all add: node_def)

lemma split_sizes:
  assumes "load64 m (of_nat (a + 24)) = of_nat (n + t)" "64 \<le> t" "t < 2 ^ 64"
  shows "free_block_size m (of_nat a) - of_nat n = of_nat t" "\<not> of_nat t < KMEM_MIN_FREE_BLOCK_SIZE"
  using assms of_nat64_less [of t 64]
  by (simp_all add: free_block_size_def KMEM_MIN_FREE_BLOCK_SIZE_def)

lemma split_changes_only:
  assumes "changes_only (header_bytes y) m m'" "changes_only (node_bytes (insert y B)) m' m''"
  shows "changes_only (node_bytes B \<union> header_bytes y) m m''"
  by (rule changes_only_trans [OF assms]) (auto simp: node_bytes_def header_bytes_def)

lemma alloc_take_split_head:
  assumes l: "free_ring m (free_list h) ((a, n) # post)"
    and ok: "blocks_ok (insert (a + n, t) (set ((a, n) # post)))"
    and new: "(a + n, t) \<notin> set ((a, n) # post)"
    and hdr: "load64 m (of_nat (a + 24)) = of_nat (n + t)"
  shows "\<exists>m'. alloc_take h (of_nat n) (node (a, n)) m = Some (h\<lparr>free_list := node (a + n, t)\<rparr>, m') \<and>
    free_ring m' (node (a + n, t)) ((a + n, t) # post) \<and> free_hdr m' (a + n, t) \<and>
    changes_only (node_bytes (set ((a, n) # post)) \<union> header_bytes (a + n, t)) m m'"
proof -
  let ?y = "(a + n, t)" and ?F = "(a, n) # post"
  have yB: "?y \<in> insert ?y (set ?F)" by simp
  note sz = split_sizes [OF hdr]
  have t: "64 \<le> t" "t < 2 ^ 64" using blocks_okD [OF ok yB] by auto
  have okF: "blocks_ok (set ?F)" using blocks_ok_subset [OF ok] by auto
  have head: "free_list h = node (a, n)" using dlist_hd [OF l] by simp
  obtain m3 where m3: "intrusive_list_init kmem_links (node ?y)
        (store64 (of_nat (a + n)) KMEM_BLOCK_MAGIC (store64 (of_nat (a + n) + 24) (of_nat t) m))
          = Some (node ?y, m3)"
      "free_ring m3 (node ?y) [?y]" "free_hdr m3 ?y" "changes_only (header_bytes ?y) m m3"
    using new_free_block(1) [OF ok yB, of m] unfolding fst_conv snd_conv split_ptrs(3) [of a n t] by blast
  have l3: "free_ring m3 (free_list h) ?F"
    using dlist_changes_only [OF m3(4) okF header_outside_nodes [OF ok yB]] l new by auto
  have prev: "rd_prev kmem_links m3 (node (a, n)) = last (node (a, n) # map node post)"
    using dlist_prev_hd [OF l3] head by simp
  note unfold = alloc_take_def Let_def split_ptrs(1,2) split_ptrs(3) [where t = t]
  show ?thesis
  proof (cases "post = []")
    case True
    then have "alloc_take h (of_nat n) (node (a, n)) m = Some (h\<lparr>free_list := node ?y\<rparr>, m3)"
      using head sz t m3(1) prev by (simp add: unfold del: of_nat_add)
    then show ?thesis using m3 True split_changes_only [OF m3(4)] by auto
  next
    case False
    have "last (node (a, n) # map node post) \<noteq> node (a, n)"
      using False km.dlist_distinct [OF l] last_in_set [of "map node post"] by auto
    moreover obtain m4 where m4: "intrusive_list_insert kmem_links (rd_prev kmem_links m3 (node (a, n)))
          (node ?y) (intrusive_list_unlink_node kmem_links (node (a, n)) m3) = Some (node ?y, m4)"
        "free_ring m4 (node ?y) (?y # post)" "changes_only (node_bytes (insert ?y (set ?F))) m3 m4"
      using replace_node [of m3 "free_list h" "[]" "(a, n)" post ?y] l3 ok new False by auto
    ultimately have "alloc_take h (of_nat n) (node (a, n)) m = Some (h\<lparr>free_list := node ?y\<rparr>, m4)"
      using head sz t m3(1) prev False by (simp add: unfold del: of_nat_add)
    moreover have "free_hdr m4 ?y" using free_hdr_list_frame [OF m4(3) ok] m3(3) by simp
    ultimately show ?thesis using m4 split_changes_only [OF m3(4) m4(3)] by auto
  qed
qed

lemma alloc_take_split_tail:
  assumes l: "free_ring m (free_list h) (pre @ (a, n) # post)" and pre: "pre \<noteq> []"
    and ok: "blocks_ok (insert (a + n, t) (set (pre @ (a, n) # post)))"
    and new: "(a + n, t) \<notin> set (pre @ (a, n) # post)"
    and hdr: "load64 m (of_nat (a + 24)) = of_nat (n + t)"
  shows "\<exists>m'. alloc_take h (of_nat n) (node (a, n)) m = Some (h, m') \<and>
    free_ring m' (free_list h) (pre @ (a + n, t) # post) \<and> free_hdr m' (a + n, t) \<and>
    changes_only (node_bytes (set (pre @ (a, n) # post)) \<union> header_bytes (a + n, t)) m m'"
proof -
  let ?y = "(a + n, t)" and ?F = "pre @ (a, n) # post"
  let ?st = "\<lambda>m. store64 (of_nat (a + n)) KMEM_BLOCK_MAGIC
    (store64 (of_nat (a + n) + 24) (of_nat t) m)"
  have yB: "?y \<in> insert ?y (set ?F)" by simp
  note sz = split_sizes [OF hdr]
  have t: "64 \<le> t" "t < 2 ^ 64" using blocks_okD [OF ok yB] by auto
  have okF: "blocks_ok (set ?F)" using blocks_ok_subset [OF ok] by auto
  have out: "node_bytes (set ?F) \<inter> header_bytes ?y = {}"
    using header_outside_nodes [OF ok yB, of "set ?F"] new by auto
  have head: "free_list h = hd (map node pre)" "free_list h \<noteq> node (a, n)"
    using dlist_hd [OF l] km.dlist_distinct [OF l] pre by (cases pre; auto)+
  obtain m2 where m2: "intrusive_list_init kmem_links (node ?y) m = Some (node ?y, m2)"
      "free_hdr (?st m2) ?y" "changes_only {a + n + 8..<a + n + 24} m m2"
      "changes_only (header_bytes ?y) m (?st m2)"
    using new_free_block(2) [OF ok yB, of m] unfolding fst_conv snd_conv split_ptrs(3) [of a n t] by blast
  have l3: "free_ring (?st m2) (free_list h) ?F"
    using dlist_changes_only [OF m2(4) okF out] l by simp
  have prev: "rd_prev kmem_links m (node (a, n)) = rd_prev kmem_links (?st m2) (node (a, n))"
    using rd_prev_changes_only [OF m2(4) okF] out by (fastforce simp: node_bytes_def)
  have sz2: "free_block_size m2 (of_nat a) - of_nat n = of_nat t"
    using load64_changes_only [OF m2(3), of "a + 24"] blocks_okD [OF okF, of "(a, n)"] sz(1) t
    by (simp add: free_block_size_def)
  obtain m4 where m4: "intrusive_list_insert kmem_links (rd_prev kmem_links (?st m2) (node (a, n)))
        (node ?y) (intrusive_list_unlink_node kmem_links (node (a, n)) (?st m2)) = Some (node ?y, m4)"
      "free_ring m4 (hd (map node pre @ [node ?y])) (pre @ ?y # post)"
      "changes_only (node_bytes (insert ?y (set ?F))) (?st m2) m4"
    using replace_node [OF l3 _ ok new] pre by blast
  have "alloc_take h (of_nat n) (node (a, n)) m = Some (h, m4)"
    using head(2) sz t sz2 m2(1) prev m4(1)
    by (simp add: alloc_take_def Let_def split_ptrs(1,2) split_ptrs(3) [where t = t] del: of_nat_add)
  moreover have "free_hdr m4 ?y" using free_hdr_list_frame [OF m4(3) ok] m2(2) by simp
  ultimately show ?thesis
    using m4 split_changes_only [OF m2(4) m4(3)] head(1) pre by auto
qed

subsection \<open>The heap and its abstraction\<close>

definition heap_lo :: "kmem_heap_t \<Rightarrow> nat" where
  "heap_lo h = unat (heap_start h)"

definition heap_hi :: "kmem_heap_t \<Rightarrow> nat" where
  "heap_hi h = unat (heap_start h) + unat (heap_size h)"

definition kmem_rep :: "kmem_heap_t \<Rightarrow> memory \<Rightarrow> block list \<Rightarrow> block set \<Rightarrow> bool" where
  "kmem_rep h m F U \<longleftrightarrow>
     0 < heap_lo h \<and> heap_hi h < 2 ^ 64 \<and> wf_blocks (heap_lo h) (heap_hi h) F U \<and>
     free_ring m (free_list h) F \<and> (\<forall>x\<in>set F. free_hdr m x) \<and> (\<forall>x\<in>U. used_hdr m x)"

lemma sorted_blocks_disjnt:
  "sorted_wrt (\<lambda>x y. fst x + snd x < fst y) F \<Longrightarrow> pairwise disjnt_blocks (set F)"
  by (induction F) (auto simp: pairwise_insert disjnt_blocks_def)

lemma wf_blocks_ok:
  assumes "wf_blocks lo hi F U" "0 < lo" "hi < 2 ^ 64"
  shows "blocks_ok (set F \<union> U)"
proof -
  have "pairwise disjnt_blocks (set F)" "pairwise disjnt_blocks U"
    using assms sorted_blocks_disjnt by (auto simp: wf_blocks_def)
  moreover have "disjnt_blocks x y \<and> disjnt_blocks y x" if "x \<in> set F" "y \<in> U" for x y
    using that assms disjnt_blocks_sym by (auto simp: wf_blocks_def)
  ultimately have "pairwise disjnt_blocks (set F \<union> U)"
    by (auto simp: pairwise_def)
  moreover have "64 \<le> snd x \<and> lo \<le> fst x \<and> fst x + snd x \<le> hi" if "x \<in> set F \<union> U" for x
    using that assms(1) unfolding wf_blocks_def by blast
  ultimately show ?thesis using assms(2,3) unfolding blocks_ok_def by fastforce
qed

lemma wf_blocks_apart:
  assumes "wf_blocks lo hi F U" "x \<in> set F" "x \<in> U"
  shows False
proof -
  have "disjnt_blocks x x" "64 \<le> snd x" using assms unfolding wf_blocks_def by blast+
  then show False by (simp add: disjnt_blocks_def)
qed

lemma wf_blocks_take:
  assumes "wf_blocks lo hi (pre @ (a, s) # post) U" "64 \<le> n" "n \<le> s"
  shows "wf_blocks lo hi (pre @ (if s - n < 64 then [] else [(a + n, s - n)]) @ post) (insert (a, n) U)"
proof -
  have apart: "disjnt_blocks x (a, n)" if "x \<in> U" for x
    using assms that by (fastforce simp: wf_blocks_def disjnt_blocks_def)
  then have "pairwise disjnt_blocks (insert (a, n) U)"
    using assms(1) disjnt_blocks_sym by (auto simp: wf_blocks_def pairwise_insert)
  then show ?thesis
    using assms by (fastforce simp: wf_blocks_def sorted_wrt_append disjnt_blocks_def)
qed

lemma kmem_rep_use:
  assumes heap: "0 < heap_lo h" "heap_hi h < 2 ^ 64"
    and wf: "wf_blocks (heap_lo h) (heap_hi h) F (insert (a, n) U)"
    and l: "free_ring m (free_list h) F" and hdrs: "\<forall>x\<in>set F. free_hdr m x" "\<forall>x\<in>U. used_hdr m x"
  shows "kmem_rep h (store64 (of_nat a + 8) (of_nat n) (store64 (of_nat a) KMEM_BLOCK_MAGIC m)) F
      (insert (a, n) U) \<and>
    changes_only {a..<a + 16} m
      (store64 (of_nat a + 8) (of_nat n) (store64 (of_nat a) KMEM_BLOCK_MAGIC m))"
proof -
  let ?m = "store64 (of_nat a + 8) (of_nat n) (store64 (of_nat a) KMEM_BLOCK_MAGIC m)"
  note ok = wf_blocks_ok [OF wf heap]
  have b: "64 \<le> n" "a + n < 2 ^ 64" using blocks_okD [OF ok, of "(a, n)"] by auto
  have eq: "of_nat a + 8 = (of_nat (a + 8) :: u64)" by simp
  have ch: "changes_only {a..<a + 16} m ?m" unfolding eq
    by (rule changes_only_trans [OF changes_only_store64 changes_only_store64]) (use b in auto)
  have used: "used_hdr ?m (a, n)"
    using b load64_store64_at [of "a + 8" a] unfolding eq by (simp add: used_hdr_def)
  have apart: "disjnt_blocks x (a, n)" if "x \<in> set F \<union> U" "x \<noteq> (a, n)" for x
    using that blocks_ok_disjnt [OF ok, of x "(a, n)"] by auto
  have out: "{fst x..<fst x + snd x} \<inter> {a..<a + 16} = {}" if "x \<in> set F \<union> U" "x \<noteq> (a, n)" for x
    using apart [OF that] b blocks_okD [OF ok, of x] that by (auto simp: disjnt_blocks_def)
  have new: "x \<noteq> (a, n)" if "x \<in> set F" for x using wf_blocks_apart [OF wf that] by auto
  have "node_bytes (set F) \<inter> {a..<a + 16} = {}"
    using node_bytes_subset [of "set F"] blocks_ok_subset [OF ok] out new
    unfolding block_bytes_def by blast
  then have "free_ring ?m (free_list h) F"
    using dlist_changes_only [OF ch] blocks_ok_subset [OF ok] l by auto
  moreover have "free_hdr ?m x" if "x \<in> set F" for x
    using free_hdr_changes_only [OF ch, of x] out [of x] new [OF that] that hdrs(1)
      blocks_okD [OF ok, of x] by (auto simp: disjoint_iff)
  moreover have "used_hdr ?m x" if "x \<in> insert (a, n) U" for x
    using used_hdr_changes_only [OF ch, of x] out [of x] that hdrs(2) used
      blocks_okD [OF ok, of x] by (cases "x = (a, n)") (auto simp: disjoint_iff)
  ultimately show ?thesis using heap wf ch by (simp add: kmem_rep_def)
qed

subsection \<open>Allocation refines first fit\<close>

definition request :: "u64 \<Rightarrow> nat" where
  "request sz = max (unat (sz + 16)) 64"

lemma allocation_size: "KMEM_ALLOCATION_SIZE (sz + 16) = of_nat (request sz)"
  by (auto simp: KMEM_ALLOCATION_SIZE_def KMEM_MIN_FREE_BLOCK_SIZE_def request_def max_def
      word_less_nat_alt)

lemma request_bounds: "64 \<le> request sz" "request sz < 2 ^ 64"
  using unsigned_less [of "sz + 16"] by (auto simp: request_def)

lemma kmem_rep_ok: "kmem_rep h m F U \<Longrightarrow> blocks_ok (set F \<union> U)"
  by (auto simp: kmem_rep_def intro: wf_blocks_ok)

lemma kmem_rep_ok_free: "kmem_rep h m F U \<Longrightarrow> blocks_ok (set F)"
  using kmem_rep_ok blocks_ok_subset by blast

lemma alloc_search_rep:
  assumes rep: "kmem_rep h m F U" and ne: "F \<noteq> []" and n: "n < 2 ^ 64"
  shows "alloc_search (free_list h) (of_nat n) m (free_list h) =
    Some (node (hd (dropWhile (\<lambda>x. snd x < n) F @ F)))"
proof -
  have "free_list h = node (hd F)" using rep ne dlist_hd by (fastforce simp: kmem_rep_def hd_map)
  then show ?thesis
    using alloc_search_result [of m "free_list h" "[]" F n] rep ne n kmem_rep_ok_free [OF rep]
    by (auto simp: kmem_rep_def hd_append hd_map)
qed

lemma kmem_alloc_none:
  assumes rep: "kmem_rep h m F U" and none: "first_fit (request sz) F = None"
  shows "kmem_alloc h sz m = Some (NULL, h, m)"
proof (cases "F = []")
  case True
  then show ?thesis using rep by (simp add: kmem_rep_def kmem_alloc_def Let_def)
next
  case False
  have small: "\<forall>x\<in>set F. snd x < request sz" using none by (simp add: first_fit_None)
  have h: "free_list h \<noteq> NULL" using rep False dlist_hd by (fastforce simp: kmem_rep_def)
  have x: "hd F \<in> set F" using False by simp
  have "free_block_size m (of_nat (fst (hd F))) = of_nat (snd (hd F))"
    using rep x free_block_size_hdr by (auto simp: kmem_rep_def)
  moreover have "snd (hd F) < 2 ^ 64" using blocks_okD [OF kmem_rep_ok_free [OF rep] x] by linarith
  moreover have none: "dropWhile (\<lambda>x. snd x < request sz) F = []" using small by simp
  ultimately show ?thesis
    using h small x alloc_search_rep [OF rep False request_bounds(2), of sz, unfolded none]
      request_bounds(2) [of sz]
    by (simp add: kmem_alloc_def Let_def allocation_size of_nat64_less)
qed

lemma kmem_alloc_take:
  assumes rep: "kmem_rep h m F U" and F: "F = pre @ (a, s) # post"
    and first: "\<forall>x\<in>set pre. snd x < n" and n: "n \<le> s" "n = request sz"
    and take: "alloc_take h (of_nat n) (node (a, s)) m = Some (h', m')"
  shows "kmem_alloc h sz m = Some (of_nat (a + 16), h',
    store64 (of_nat a + 8) (of_nat n) (store64 (of_nat a) KMEM_BLOCK_MAGIC m'))"
proof -
  have h: "free_list h \<noteq> NULL" using rep F dlist_hd by (fastforce simp: kmem_rep_def)
  have "free_block_size m (of_nat a) = of_nat s"
    using rep F free_block_size_hdr [of m "(a, s)"] by (auto simp: kmem_rep_def)
  moreover have "s < 2 ^ 64" using blocks_okD [OF kmem_rep_ok [OF rep], of "(a, s)"] F by simp
  moreover have "dropWhile (\<lambda>x. snd x < n) F = (a, s) # post"
    using first n by (simp add: F dropWhile_append)
  moreover have "KMEM_FREE_BLOCK_PTR (node (a, s)) = of_nat a" using block_ptr_node [of "(a, s)"] by simp
  ultimately show ?thesis
    using h take alloc_search_rep [OF rep] request_bounds(2) [of sz] n F
    by (simp add: kmem_alloc_def Let_def allocation_size of_nat64_less)
qed

lemma free_hdr_split_frame:
  assumes ch: "changes_only (node_bytes D \<union> header_bytes y) m m'" and ok: "blocks_ok B"
    and mem: "D \<subseteq> B" "x \<in> B" "y \<in> B" "x \<noteq> y"
  shows "free_hdr m' x = free_hdr m x"
proof -
  define k where "k = (\<lambda>z. if unat z \<in> header_bytes y then m' z else m z)"
  have k: "changes_only (header_bytes y) m k" "changes_only (node_bytes D) k m'"
    using ch by (auto simp: changes_only_def k_def)
  have "free_hdr k x = free_hdr m x"
    by (rule free_hdr_changes_only [OF k(1)])
      (use blocks_okD [OF ok mem(2)] blocks_okD [OF ok mem(3)] blocks_ok_disjnt [OF ok mem(2-4)] in
        \<open>auto simp: disjnt_blocks_def header_bytes_def\<close>)
  then show ?thesis using free_hdr_list_frame [OF k(2) ok mem(1,2)] by simp
qed

lemma alloc_take_rep_whole:
  assumes rep: "kmem_rep h m F U" and F: "F = pre @ (a, s) # post" and n: "n \<le> s" "s - n < 64"
  shows "\<exists>h' m'. alloc_take h (of_nat n) (node (a, s)) m = Some (h', m') \<and>
    h' = h\<lparr>free_list := free_list h'\<rparr> \<and> free_ring m' (free_list h') (pre @ post) \<and>
    (\<forall>x\<in>set (pre @ post). free_hdr m' x) \<and> changes_only (block_bytes (set F)) m m'"
proof -
  note ok = kmem_rep_ok_free [OF rep]
  have rep': "free_ring m (free_list h) F" "\<forall>x\<in>set F. free_hdr m x"
    using rep by (simp_all add: kmem_rep_def)
  have "distinct F" using km.dlist_distinct [OF rep'(1)] by (simp add: distinct_map)
  then have rem: "remove1 (a, s) F = pre @ post" by (simp add: F remove1_append)
  obtain h' m' where t: "alloc_take h (of_nat n) (node (a, s)) m = Some (h', m')"
      "h' = h\<lparr>free_list := free_list h'\<rparr>" "free_ring m' (free_list h') (pre @ post)"
      "changes_only (node_bytes (set F)) m m'"
    using alloc_take_whole [OF rep'(1) _ _ ok, of "(a, s)" n] rep'(2) n rem F by auto
  have "\<forall>x\<in>set (pre @ post). free_hdr m' x"
    using free_hdr_list_frame [OF t(4) ok] rep'(2) F by auto
  then show ?thesis using t changes_only_mono [OF t(4) node_bytes_subset [OF ok]] by blast
qed

lemma alloc_take_rep_split:
  assumes rep: "kmem_rep h m F U" and F: "F = pre @ (a, s) # post"
    and n: "64 \<le> n" "n \<le> s" "64 \<le> s - n"
  shows "\<exists>h' m'. alloc_take h (of_nat n) (node (a, s)) m = Some (h', m') \<and>
    h' = h\<lparr>free_list := free_list h'\<rparr> \<and> free_ring m' (free_list h') (pre @ (a + n, s - n) # post) \<and>
    (\<forall>x\<in>set (pre @ (a + n, s - n) # post). free_hdr m' x) \<and> changes_only (block_bytes (set F)) m m'"
proof -
  let ?y = "(a + n, s - n)" and ?F = "pre @ (a, n) # post"
  have rep': "0 < heap_lo h" "heap_hi h < 2 ^ 64" "wf_blocks (heap_lo h) (heap_hi h) F U"
    "free_ring m (free_list h) F" "\<forall>x\<in>set F. free_hdr m x"
    using rep by (simp_all add: kmem_rep_def)
  have sub: "insert ?y (set ?F) \<subseteq> set (pre @ ?y # post) \<union> insert (a, n) U" by auto
  have ok: "blocks_ok (insert ?y (set ?F))"
    by (rule blocks_ok_subset [OF wf_blocks_ok [OF wf_blocks_take [OF rep'(3) [unfolded F] n(1,2)]
          rep'(1,2)]]) (use n sub in auto)
  have other: "x \<noteq> ?y" if "x \<in> set pre \<union> set post" for x
  proof
    assume x: "x = ?y"
    have "disjnt_blocks x (a, s)"
      using that n x blocks_ok_disjnt [OF kmem_rep_ok_free [OF rep], of x "(a, s)"] F by auto
    then show False using x n by (auto simp: disjnt_blocks_def)
  qed
  then have new: "?y \<notin> set ?F" using n by auto
  have l: "free_ring m (free_list h) ?F" using rep'(4) by (simp add: F node_def)
  have hdr: "load64 m (of_nat (a + 24)) = of_nat (n + (s - n))"
    using rep'(5) n by (auto simp: F free_hdr_def)
  obtain h' m' where t: "alloc_take h (of_nat n) (node (a, n)) m = Some (h', m')"
      "h' = h\<lparr>free_list := free_list h'\<rparr>" "free_ring m' (free_list h') (pre @ ?y # post)"
      "free_hdr m' ?y" "changes_only (node_bytes (set ?F) \<union> header_bytes ?y) m m'"
  proof (cases "pre = []")
    case True
    then show thesis
      using alloc_take_split_head [of m h a n post "s - n"] l ok new hdr that by fastforce
  next
    case False
    then show thesis using alloc_take_split_tail [OF l False ok new hdr] that by fastforce
  qed
  have "free_hdr m' x = free_hdr m x" if x: "x \<in> set pre \<union> set post" for x
    by (rule free_hdr_split_frame [OF t(5) ok]) (use x other [OF x] in auto)
  then have "free_hdr m' x" if "x \<in> set pre \<union> set post" for x
    using that rep'(5) F by auto
  then have "\<forall>x\<in>set (pre @ ?y # post). free_hdr m' x" using t(4) by auto
  moreover have "node_bytes (set ?F) \<union> header_bytes ?y \<subseteq> block_bytes (set F)"
  proof -
    have "node_bytes (set ?F) = node_bytes (set F)" by (simp add: F node_bytes_def)
    moreover have "header_bytes ?y \<subseteq> {a..<a + s}" using n by (auto simp: header_bytes_def)
    ultimately show ?thesis
      using node_bytes_subset [OF kmem_rep_ok_free [OF rep]] by (auto simp: F block_bytes_def)
  qed
  ultimately show ?thesis
    using t changes_only_mono [OF t(5)] by (auto simp: node_def)
qed

lemma kmem_alloc_some:
  assumes rep: "kmem_rep h m F U" and fit: "first_fit (request sz) F = Some (a, F')"
  shows "\<exists>h' m'. kmem_alloc h sz m = Some (of_nat (a + 16), h', m') \<and>
    kmem_rep h' m' F' (insert (a, request sz) U) \<and> changes_only (block_bytes (set F)) m m' \<and>
    h' = h\<lparr>free_list := free_list h'\<rparr>"
proof -
  define n where "n = request sz"
  have n64: "64 \<le> n" using request_bounds by (simp add: n_def)
  obtain pre s post where F: "F = pre @ (a, s) # post" and n: "n \<le> s" and first: "\<forall>x\<in>set pre. snd x < n"
    and F': "F' = pre @ (if s - n < 64 then [] else [(a + n, s - n)]) @ post"
    using first_fit_Some [OF fit] unfolding n_def by metis
  have rep': "0 < heap_lo h" "heap_hi h < 2 ^ 64" "wf_blocks (heap_lo h) (heap_hi h) F U"
    "free_ring m (free_list h) F" "\<forall>x\<in>set F. free_hdr m x" "\<forall>x\<in>U. used_hdr m x"
    using rep by (simp_all add: kmem_rep_def)
  note ok = kmem_rep_ok [OF rep]
  have wf: "wf_blocks (heap_lo h) (heap_hi h) F' (insert (a, n) U)"
    unfolding F' by (rule wf_blocks_take [OF rep'(3) [unfolded F] n64 n])
  have aU: "x \<notin> set F" if "x \<in> U" for x using wf_blocks_apart [OF rep'(3) _ that] by blast
  obtain h' m' where take: "alloc_take h (of_nat n) (node (a, s)) m = Some (h', m')"
      "h' = h\<lparr>free_list := free_list h'\<rparr>" "free_ring m' (free_list h') F'"
      "\<forall>x\<in>set F'. free_hdr m' x" "changes_only (block_bytes (set F)) m m'"
    using alloc_take_rep_whole [OF rep F n] alloc_take_rep_split [OF rep F n64 n] F'
    by (cases "s - n < 64") force+
  have used: "\<forall>x\<in>U. used_hdr m' x"
    using used_hdr_frame [OF take(5) ok] rep'(6) aU by auto
  let ?m = "store64 (of_nat a + 8) (of_nat n) (store64 (of_nat a) KMEM_BLOCK_MAGIC m')"
  have "heap_lo h' = heap_lo h" "heap_hi h' = heap_hi h"
    by (subst take(2), simp add: heap_lo_def heap_hi_def)+
  then have "kmem_rep h' ?m F' (insert (a, n) U)" and ch: "changes_only {a..<a + 16} m' ?m"
    using kmem_rep_use [of h' F' a n U m'] rep' wf take used by simp_all
  moreover have "{a..<a + 16} \<subseteq> block_bytes (set F)"
    using n n64 by (auto simp: F block_bytes_def)
  then have "changes_only (block_bytes (set F)) m ?m"
    using changes_only_trans [OF take(5) ch] by simp
  ultimately show ?thesis
    using kmem_alloc_take [OF rep F first n n_def take(1)] take(2) by (auto simp: n_def)
qed

subsection \<open>Blocks in address order\<close>

definition ordered_blocks :: "block list \<Rightarrow> bool" where
  "ordered_blocks xs \<longleftrightarrow> sorted_wrt (\<lambda>x y. fst x + snd x \<le> fst y) xs \<and>
     (\<forall>x\<in>set xs. 64 \<le> snd x \<and> 0 < fst x \<and> fst x + snd x < 2 ^ 64)"

lemma ordered_blocks_ok: "ordered_blocks xs \<Longrightarrow> blocks_ok (set xs)"
  unfolding ordered_blocks_def blocks_ok_def
  by (induction xs) (auto simp: pairwise_insert disjnt_blocks_def)

lemma ordered_blocks_merge:
  assumes "ordered_blocks (xs @ (a, s) # (b, t) # ys)" "a + s = b"
  shows "ordered_blocks (xs @ (a, s + t) # ys)"
  using assms by (fastforce simp: ordered_blocks_def sorted_wrt_append)

definition merge_prev :: "block list \<Rightarrow> block \<Rightarrow> block list \<times> block" where
  "merge_prev L x =
     (if L \<noteq> [] \<and> fst (last L) + snd (last L) = fst x
      then (butlast L, (fst (last L), snd (last L) + snd x)) else (L, x))"

lemma merge_block_unfold:
  "merge_block x R =
     (if R \<noteq> [] \<and> fst x + snd x = fst (hd R) then (fst x, snd x + snd (hd R)) # tl R else x # R)"
  by (cases "(x, R)" rule: merge_block.cases) auto

lemma free_block_split:
  assumes "ordered_blocks (L @ x # R)"
  shows "free_block x (L @ R) = fst (merge_prev L x) @ merge_block (snd (merge_prev L x)) R"
  using assms
proof (induction L)
  case Nil
  obtain a s where x: "x = (a, s)" by (cases x)
  show ?case using Nil by (cases R) (auto simp: x merge_prev_def ordered_blocks_def)
next
  case (Cons y L)
  obtain a s b t where x: "x = (a, s)" and y: "y = (b, t)" by (cases x, cases y)
  have ord: "ordered_blocks (L @ x # R)" and b: "b + t \<le> a" "64 \<le> t" "b < a"
    using Cons.prems by (auto simp: ordered_blocks_def x y)
  have far: "b + t \<noteq> a" if "L \<noteq> []"
    using Cons.prems that by (cases L) (auto simp: ordered_blocks_def x y)
  show ?case
    using Cons.IH [OF ord] b far by (cases "L = []") (auto simp: x y merge_prev_def)
qed

lemma wf_blocks_ordered:
  assumes wf: "wf_blocks lo hi F U" and b: "0 < lo" "hi < 2 ^ 64"
  shows "ordered_blocks F"
proof -
  have "64 \<le> snd x \<and> 0 < fst x \<and> fst x + snd x < 2 ^ 64" if "x \<in> set F" for x
    using blocks_okD [OF wf_blocks_ok [OF assms]] that by blast
  moreover have "sorted_wrt (\<lambda>x y. fst x + snd x \<le> fst y) F"
    using wf by (auto simp: wf_blocks_def elim: sorted_wrt_mono_rel [rotated])
  ultimately show ?thesis by (simp add: ordered_blocks_def)
qed

definition blocks_below :: "block \<Rightarrow> block list \<Rightarrow> block list" where
  "blocks_below x F = takeWhile (\<lambda>y. fst y < fst x) F"

definition blocks_above :: "block \<Rightarrow> block list \<Rightarrow> block list" where
  "blocks_above x F = dropWhile (\<lambda>y. fst y < fst x) F"

lemma below_above: "blocks_below x F @ blocks_above x F = F"
  by (simp add: blocks_below_def blocks_above_def)

lemma wf_blocks_insert_ordered:
  assumes wf: "wf_blocks lo hi F U" and x: "x \<in> U" and b: "0 < lo" "hi < 2 ^ 64"
  shows "ordered_blocks (blocks_below x F @ x # blocks_above x F)"
proof -
  have ord: "ordered_blocks F" by (rule wf_blocks_ordered [OF wf b])
  have xs: "64 \<le> snd x \<and> 0 < fst x \<and> fst x + snd x < 2 ^ 64"
    using blocks_okD [OF wf_blocks_ok [OF wf b]] x by blast
  have apart: "disjnt_blocks y x" if "y \<in> set F" for y
    using wf x that by (auto simp: wf_blocks_def)
  have lo: "fst y + snd y \<le> fst x" if "y \<in> set (blocks_below x F)" for y
    using that apart [of y] xs by (auto simp: blocks_below_def disjnt_blocks_def dest: set_takeWhileD)
  have hi: "fst x + snd x \<le> fst y" if y: "y \<in> set (blocks_above x F)" for y
  proof -
    have "blocks_above x F \<noteq> []" using y by auto
    then have "\<not> fst (hd (blocks_above x F)) < fst x"
      using hd_dropWhile [of "\<lambda>y. fst y < fst x" F] by (simp add: blocks_above_def)
    moreover have "fst (hd (blocks_above x F)) \<le> fst y"
    proof -
      have "sorted_wrt (\<lambda>x y. fst x + snd x \<le> fst y) (blocks_below x F @ blocks_above x F)"
        using ord by (simp add: ordered_blocks_def below_above)
      then show ?thesis using y by (cases "blocks_above x F") (auto simp: sorted_wrt_append)
    qed
    moreover have "y \<in> set F" using y by (auto simp: blocks_above_def dest: set_dropWhileD)
    ultimately show ?thesis using apart [of y] xs ord
      by (auto simp: disjnt_blocks_def ordered_blocks_def)
  qed
  have "sorted_wrt (\<lambda>x y. fst x + snd x \<le> fst y) (blocks_below x F @ blocks_above x F)"
    using ord by (simp add: ordered_blocks_def below_above)
  moreover have "64 \<le> snd y \<and> 0 < fst y \<and> fst y + snd y < 2 ^ 64"
    if "y \<in> set (blocks_below x F @ blocks_above x F)" for y
    using that ord unfolding below_above ordered_blocks_def by blast
  ultimately show ?thesis
    using lo hi xs by (auto simp: ordered_blocks_def sorted_wrt_append)
qed

definition apart_blocks :: "block list \<Rightarrow> bool" where
  "apart_blocks xs \<longleftrightarrow> sorted_wrt (\<lambda>x y. fst x + snd x < fst y) xs"

lemma block_bytes_simps [simp]:
  "block_bytes {} = {}"
  "block_bytes (insert x B) = {fst x..<fst x + snd x} \<union> block_bytes B"
  "block_bytes (B \<union> D) = block_bytes B \<union> block_bytes D"
  by (auto simp: block_bytes_def)

lemma merge_prev_correct:
  assumes ord: "ordered_blocks (L @ x # R)" and L: "apart_blocks L" and m: "merge_prev L x = (L', z)"
  shows "apart_blocks (L' @ [z])" "ordered_blocks (L' @ z # R)"
    "block_bytes (set (L' @ [z])) = block_bytes (set (L @ [x]))"
proof -
  consider (merge) K p where "L = K @ [p]" "fst p + snd p = fst x" "L' = K" "z = (fst p, snd p + snd x)"
    | (keep) "L' = L" "z = x" "L = [] \<or> fst (last L) + snd (last L) \<noteq> fst x"
    using m by (cases L rule: rev_cases) (auto simp: merge_prev_def split: if_splits)
  then have "apart_blocks (L' @ [z]) \<and> ordered_blocks (L' @ z # R) \<and>
    block_bytes (set (L' @ [z])) = block_bytes (set (L @ [x]))"
  proof cases
    case merge
    have "{fst p..<fst p + (snd p + snd x)} = {fst p..<fst p + snd p} \<union> {fst x..<fst x + snd x}"
      using merge(2) by auto
    then show ?thesis
      using merge L ord ordered_blocks_merge [of K "fst p" "snd p" "fst x" "snd x" R]
      by (auto simp: apart_blocks_def sorted_wrt_append)
  next
    case keep
    have "fst y + snd y < fst x" if y: "y \<in> set L" for y
    proof -
      obtain K p where K: "L = K @ [p]" using y by (cases L rule: rev_cases) auto
      have "fst p + snd p < fst x" using K keep(3) ord
        by (auto simp: ordered_blocks_def sorted_wrt_append)
      moreover have "y = p \<or> fst y + snd y < fst p"
        using K y L by (auto simp: apart_blocks_def sorted_wrt_append)
      ultimately show ?thesis by auto
    qed
    then show ?thesis using keep L ord by (auto simp: apart_blocks_def sorted_wrt_append)
  qed
  then show "apart_blocks (L' @ [z])" "ordered_blocks (L' @ z # R)"
    "block_bytes (set (L' @ [z])) = block_bytes (set (L @ [x]))" by auto
qed

lemma merge_block_correct:
  assumes ord: "ordered_blocks (L @ z # R)" and apart: "apart_blocks (L @ [z])" "apart_blocks R"
  shows "apart_blocks (L @ merge_block z R)" "ordered_blocks (L @ merge_block z R)"
    "block_bytes (set (L @ merge_block z R)) = block_bytes (set (L @ z # R))"
proof -
  consider (merge) q K where "R = q # K" "fst z + snd z = fst q" "merge_block z R = (fst z, snd z + snd q) # K"
    | (keep) "merge_block z R = z # R" "R = [] \<or> fst z + snd z \<noteq> fst (hd R)"
    by (cases R) (auto simp: merge_block_unfold)
  then have "apart_blocks (L @ merge_block z R) \<and> ordered_blocks (L @ merge_block z R) \<and>
    block_bytes (set (L @ merge_block z R)) = block_bytes (set (L @ z # R))"
  proof cases
    case merge
    have "{fst z..<fst z + (snd z + snd q)} = {fst z..<fst z + snd z} \<union> {fst q..<fst q + snd q}"
      using merge(2) by auto
    moreover have "fst y + snd y < fst w" if "y \<in> set L" "w \<in> set K" for y w
      using that merge ord apart by (fastforce simp: apart_blocks_def ordered_blocks_def sorted_wrt_append)
    ultimately show ?thesis
      using merge apart ord ordered_blocks_merge [of L "fst z" "snd z" "fst q" "snd q" K]
      by (auto simp: apart_blocks_def sorted_wrt_append)
  next
    case keep
    have "fst z + snd z < fst w" if w: "w \<in> set R" for w
    proof -
      have "fst z + snd z < fst (hd R)"
        using keep(2) w ord by (cases R) (auto simp: ordered_blocks_def sorted_wrt_append)
      moreover have "fst (hd R) \<le> fst w" using w apart(2) by (cases R) (auto simp: apart_blocks_def)
      ultimately show ?thesis by simp
    qed
    moreover have "fst y + snd y < fst w" if "y \<in> set L" "w \<in> set R" for y w
      using that calculation [OF that(2)] apart(1) by (fastforce simp: apart_blocks_def sorted_wrt_append)
    ultimately show ?thesis
      using keep apart ord by (auto simp: apart_blocks_def sorted_wrt_append)
  qed
  then show "apart_blocks (L @ merge_block z R)" "ordered_blocks (L @ merge_block z R)"
    "block_bytes (set (L @ merge_block z R)) = block_bytes (set (L @ z # R))" by auto
qed

lemma disjnt_blocks_iff:
  "0 < snd x \<Longrightarrow> 0 < snd y \<Longrightarrow>
    disjnt_blocks x y \<longleftrightarrow> {fst x..<fst x + snd x} \<inter> {fst y..<fst y + snd y} = {}"
  by (auto simp: disjnt_blocks_def)

lemma wf_blocks_free:
  assumes wf: "wf_blocks lo hi F U" and x: "x \<in> U" and b: "0 < lo" "hi < 2 ^ 64"
  shows "wf_blocks lo hi (free_block x F) (U - {x})"
    and "block_bytes (set (free_block x F)) = block_bytes (set F) \<union> {fst x..<fst x + snd x}"
proof -
  let ?L = "blocks_below x F" and ?R = "blocks_above x F" and ?G = "free_block x F"
  obtain L z where m: "merge_prev ?L x = (L, z)" by (metis surj_pair)
  have "sorted_wrt (\<lambda>x y. fst x + snd x < fst y) (?L @ ?R)"
    using wf by (simp add: wf_blocks_def below_above)
  then have apart: "apart_blocks ?L" "apart_blocks ?R"
    by (simp_all add: apart_blocks_def sorted_wrt_append)
  note ord = wf_blocks_insert_ordered [OF assms]
  note p = merge_prev_correct [OF ord apart(1) m]
  note q = merge_block_correct [OF p(2,1) apart(2)]
  have G: "?G = L @ merge_block z ?R" using free_block_split [OF ord] m by (simp add: below_above)
  have "set F = set ?L \<union> set ?R" by (metis below_above set_append)
  then show bytes: "block_bytes (set ?G) = block_bytes (set F) \<union> {fst x..<fst x + snd x}"
    using q(3) p(3) by (auto simp: G)
  have blk: "64 \<le> snd y \<and> lo \<le> fst y \<and> fst y + snd y \<le> hi" if "y \<in> set F \<union> U" for y
    using wf that unfolding wf_blocks_def by blast
  have sz: "64 \<le> snd y" if "y \<in> set ?G" for y using q(2) that by (auto simp: G ordered_blocks_def)
  have in_bytes: "{fst y..<fst y + snd y} \<subseteq> block_bytes (set F) \<union> {fst x..<fst x + snd x}"
    if "y \<in> set ?G" for y using that bytes by (auto simp: block_bytes_def)
  have "{fst y..<fst y + snd y} \<subseteq> {lo..<hi}" if "y \<in> set F \<union> U" for y
    using blk [OF that] by auto
  then have heap: "block_bytes (set F) \<union> {fst x..<fst x + snd x} \<subseteq> {lo..<hi}"
    using x unfolding block_bytes_def by blast
  have in_heap: "lo \<le> fst y \<and> fst y + snd y \<le> hi" if y: "y \<in> set ?G" for y
  proof -
    have "{fst y..<fst y + snd y} \<subseteq> {lo..<hi}" using in_bytes [OF y] heap by blast
    then show ?thesis using sz [OF y] by auto
  qed
  have "disjnt_blocks y u" if y: "y \<in> set ?G" and u: "u \<in> U - {x}" for y u
  proof -
    have "{fst v..<fst v + snd v} \<inter> {fst u..<fst u + snd u} = {}" if v: "v \<in> insert x (set F)" for v
    proof -
      have "disjnt_blocks v u" using v wf u x by (auto simp: wf_blocks_def pairwise_def)
      moreover have "0 < snd v" "0 < snd u" using v blk [of v] blk [of u] u x by auto
      ultimately show ?thesis by (simp only: disjnt_blocks_iff)
    qed
    then have "(block_bytes (set F) \<union> {fst x..<fst x + snd x}) \<inter> {fst u..<fst u + snd u} = {}"
      unfolding block_bytes_def by blast
    then have "{fst y..<fst y + snd y} \<inter> {fst u..<fst u + snd u} = {}" using in_bytes [OF y] by blast
    moreover have "0 < snd y" "0 < snd u" using sz [OF y] blk [of u] u by auto
    ultimately show ?thesis by (simp only: disjnt_blocks_iff)
  qed
  moreover have "64 \<le> snd y \<and> lo \<le> fst y \<and> fst y + snd y \<le> hi" if "y \<in> set ?G \<union> (U - {x})" for y
    using that sz in_heap blk [of y] by blast
  moreover have "pairwise disjnt_blocks (U - {x})"
    using wf by (auto simp: wf_blocks_def intro: pairwise_subset)
  ultimately show "wf_blocks lo hi ?G (U - {x})"
    using q(1) unfolding wf_blocks_def apart_blocks_def G [symmetric] by blast
qed

subsection \<open>Freeing refines sorted insertion with merging\<close>

lemma resize_unlink:
  assumes l: "free_ring m head (xs @ p # y # ys)" and ord: "ordered_blocks (xs @ p # y # ys)"
    and hdrs: "\<forall>x\<in>set (xs @ p # y # ys). free_hdr m x" and adj: "fst p + snd p = fst y"
    and m': "m' = intrusive_list_unlink_node kmem_links (node y)
      (store64 (of_nat (fst p) + 24) (of_nat (snd p) + of_nat (snd y)) m)"
  shows "free_ring m' head (xs @ (fst p, snd p + snd y) # ys)"
    and "\<forall>x\<in>set (xs @ (fst p, snd p + snd y) # ys). free_hdr m' x"
    and "changes_only (block_bytes (set (xs @ p # y # ys))) m m'"
proof -
  let ?F = "xs @ p # y # ys" and ?z = "(fst p, snd p + snd y)"
  note ok = ordered_blocks_ok [OF ord]
  define m1 where "m1 = store64 (of_nat (fst p) + 24) (of_nat (snd p) + of_nat (snd y)) m"
  have p: "64 \<le> snd p" "fst p + snd p < 2 ^ 64" using blocks_okD [OF ok, of p] by auto
  have eq: "of_nat (fst p) + 24 = (of_nat (fst p + 24) :: u64)" by simp
  have ch1: "changes_only {fst p + 24..<fst p + 24 + 8} m m1"
    unfolding m1_def eq by (rule changes_only_store64) (use p in linarith)
  have out: "{fst x + 8..<fst x + 24} \<inter> {fst p + 24..<fst p + 24 + 8} = {}" if "x \<in> set ?F" for x
    using that p blocks_okD [OF ok that] blocks_ok_disjnt [OF ok that, of p]
    by (cases "x = p") (auto simp: disjnt_blocks_def)
  have "node_bytes (set ?F) \<inter> {fst p + 24..<fst p + 24 + 8} = {}"
    unfolding node_bytes_def using out by blast
  then have l1: "free_ring m1 head ?F" using dlist_changes_only [OF ch1 ok] l by simp
  have y: "node y \<in> set (map node ?F)" by simp
  have m'1: "m' = intrusive_list_unlink_node kmem_links (node y) m1" by (simp add: m' m1_def)
  have ch2: "changes_only (node_bytes (set ?F)) m1 m'"
    by (rule list_changes_only [OF ok]) (use km.unlink_frame [OF l1 y] m'1 in \<open>auto simp: image_Un\<close>)
  show "free_ring m' head (xs @ ?z # ys)"
    using km.unlink_correct [of m1 head "map node xs @ [node p]" "node y" "map node ys"] l1
      dlist_hd [OF l1] by (auto simp: m'1 node_def hd_append split: if_splits)
  have "load64 m1 (of_nat (fst p)) = load64 m (of_nat (fst p))"
    unfolding m1_def eq by (rule load64_store64_at) (use p in linarith)+
  then have "free_hdr m1 ?z" using hdrs by (simp add: free_hdr_def m1_def)
  moreover have "free_hdr m' ?z = free_hdr m1 ?z"
    by (rule free_hdr_changes_only [OF ch2])
      (use hdr_outside_nodes [OF ok subset_refl, of p] p in auto)
  moreover have "free_hdr m' x" if x: "x \<in> set xs \<union> set ys" for x
  proof -
    have xp: "x \<in> set ?F" "x \<noteq> p" using x km.dlist_distinct [OF l] by auto
    have "free_hdr m1 x = free_hdr m x"
      by (rule free_hdr_changes_only [OF ch1])
        (use p blocks_okD [OF ok xp(1)] blocks_ok_disjnt [OF ok xp(1), of p] xp(2) in
          \<open>auto simp: disjnt_blocks_def\<close>)
    then show ?thesis using free_hdr_list_frame [OF ch2 ok subset_refl xp(1)] hdrs xp(1) by auto
  qed
  ultimately show "\<forall>x\<in>set (xs @ ?z # ys). free_hdr m' x" by auto
  have "{fst p + 24..<fst p + 24 + 8} \<subseteq> block_bytes (set ?F)" using p by auto
  then show "changes_only (block_bytes (set ?F)) m m'"
    using changes_only_trans [OF ch1 ch2] node_bytes_subset [OF ok] by simp
qed

lemma free_search_result:
  assumes "free_ring m head (xs @ ys)" "ys \<noteq> []" "blocks_ok (set (xs @ ys))" "p < 2 ^ 64"
  shows "free_search head (of_nat p) m (node (hd ys)) prev =
    Some (last (prev # map node (takeWhile (\<lambda>x. fst x \<le> p) ys)))"
  using assms
proof (induction ys arbitrary: xs prev)
  case (Cons y ys)
  have b: "fst y < 2 ^ 64" using blocks_okD [OF Cons.prems(3), of y] by auto
  have nxt: "rd_next kmem_links m (node y) = hd (map node ys @ [head])"
    using dlist_next [of _ _ m head "map node xs" "node y" "map node ys"] Cons.prems(1) by simp
  have new: "node (hd ys) \<noteq> head" if "ys \<noteq> []"
    using dlist_hd [OF Cons.prems(1)] km.dlist_distinct [OF Cons.prems(1)]
      imageI [OF hd_in_set [OF that], of node] by (cases xs) auto
  show ?case
  proof (cases "fst y \<le> p")
    case True
    then show ?thesis
      using b Cons.prems nxt new Cons.IH [of "xs @ [y]" "node y"]
      by (cases "ys = []")
        (simp_all add: free_search.simps [of head "of_nat p" m "node y"] of_nat64_less hd_append
          hd_map Let_def)
  next
    case False
    then show ?thesis
      using b Cons.prems(4)
      by (simp add: free_search.simps [of head "of_nat p" m "node y"] of_nat64_less)
  qed
qed simp

lemma free_link_front:
  assumes l: "free_ring m head F" "F \<noteq> []" and ok: "blocks_ok (insert y (set F))" and y: "y \<notin> set F"
  shows "let m1 = wr_next kmem_links (rd_prev kmem_links m head) (node y) m;
             m2 = wr_prev kmem_links (node y) (rd_prev kmem_links m1 head) m1;
             m3 = wr_next kmem_links (node y) head m2;
             m4 = wr_prev kmem_links head (node y) m3
         in free_ring m4 (node y) (y # F) \<and> changes_only (node_bytes (insert y (set F))) m m4"
proof -
  have sep: "kmem_sep x (node y)" if "x \<in> set (map node F)" for x
    using that node_sep [OF ok, of _ y] y by auto
  obtain m' where m': "intrusive_list_push_back kmem_links head (node y) m = Some (node y, m')"
      "free_ring m' (node y) (y # F)"
    using km.push_back_as_head [OF l(1) _ sep] node_neq_NULL [OF ok] by auto
  have h: "head \<noteq> NULL" "head \<in> set (map node F)" using dlist_hd [OF l(1)] l(2) by auto
  let ?m1 = "wr_next kmem_links (rd_prev kmem_links m head) (node y) m"
  have "rd_prev kmem_links ?m1 head = rd_prev kmem_links m head"
    using km.prev_wr_next_any km.dlist_sepD [OF l(1) km.dlist_links_in(2) [OF l(1) h(2)] h(2)] by blast
  then have "m' = wr_prev kmem_links head (node y) (wr_next kmem_links (node y) head
      (wr_prev kmem_links (node y) (rd_prev kmem_links ?m1 head) ?m1))"
    using m'(1) h(1) node_neq_NULL [OF ok, of y]
    by (simp add: intrusive_list_push_back_def intrusive_list_get_tail_def Let_def)
  moreover have "changes_only (node_bytes (insert y (set F))) m m'"
    by (rule list_changes_only [OF ok]) (use km.push_back_frame [OF l(1) m'(1)] in auto)
  ultimately show ?thesis using m'(2) by (simp add: Let_def)
qed

lemma free_link_correct:
  assumes l: "free_ring m (free_list h) F" "F = [] \<Longrightarrow> free_ring m (node y) [y]"
    and ok: "blocks_ok (insert y (set F))" and y: "y \<notin> set F"
  shows "\<exists>h' m'. free_link h (of_nat (fst y + 16)) (of_nat (fst y)) m = Some (h', m') \<and>
    h' = h\<lparr>free_list := free_list h'\<rparr> \<and>
    free_ring m' (free_list h') (blocks_below y F @ y # blocks_above y F) \<and>
    changes_only (node_bytes (insert y (set F))) m m'"
proof (cases "F = []")
  case True
  then show ?thesis
    using l by (auto simp: free_link_def node_def blocks_below_def blocks_above_def
        intro!: exI [of _ "h\<lparr>free_list := of_nat (fst y) + 8\<rparr>"])
next
  case False
  have h: "free_list h \<noteq> NULL" "free_list h = node (hd F)" using dlist_hd [OF l(1)] False by (auto simp: hd_map)
  have b: "fst y + 16 < 2 ^ 64" using blocks_okD [OF ok, of y] by auto
  have "fst x \<le> fst y + 16 \<longleftrightarrow> fst x < fst y" if x: "x \<in> set F" for x
  proof -
    have "x \<noteq> y" using x y by auto
    then show ?thesis
      using blocks_ok_disjnt [OF ok, of x y] blocks_okD [OF ok, of x] blocks_okD [OF ok, of y] x
      by (auto simp: disjnt_blocks_def)
  qed
  then have "takeWhile (\<lambda>x. fst x \<le> fst y + 16) F = blocks_below y F"
    unfolding blocks_below_def by (rule takeWhile_cong [OF refl])
  moreover have "blocks_ok (set F)" using blocks_ok_subset [OF ok] by blast
  ultimately have search: "free_search (free_list h) (of_nat (fst y + 16)) m (free_list h) NULL =
      Some (last (NULL # map node (blocks_below y F)))"
    using free_search_result [of m "free_list h" "[]" F "fst y + 16" NULL] l(1) False b h(2)
    by auto
  have ptr: "of_nat (fst y) + 8 = node y" by (simp add: node_def)
  show ?thesis
  proof (cases "blocks_below y F = []")
    case True
    then have "blocks_above y F = F" using below_above [of y F] by simp
    then show ?thesis
      using free_link_front [OF l(1) False ok y] search True h(1)
      by (auto simp: free_link_def Let_def ptr simp del: of_nat_add)
  next
    case below: False
    then obtain K p where K: "blocks_below y F = K @ [p]" by (meson rev_exhaust)
    then have F: "F = K @ p # blocks_above y F" using below_above [of y F] by simp
    then have p: "p \<in> set F" by (metis in_set_conv_decomp)
    have sep: "kmem_sep x (node y)" if "x \<in> set (map node F)" for x
      using that node_sep [OF ok, of _ y] y by auto
    obtain m' where m': "intrusive_list_insert kmem_links (node p) (node y) m = Some (node y, m')"
        "free_ring m' (free_list h) (K @ p # y # blocks_above y F)"
      using km.insert_correct [of m "free_list h" "map node K" "node p" "map node (blocks_above y F)" "node y"]
        l(1) F node_neq_NULL [OF ok, of y] sep by (metis insertI1 list.simps(9) map_append)
    have "changes_only (node_bytes (insert y (set F))) m m'"
      by (rule list_changes_only [OF ok]) (use km.insert_frame [OF l(1) _ m'(1)] p in auto)
    then show ?thesis
      using m' search K h(1) node_neq_NULL [OF ok, of p] p
      by (auto simp: free_link_def Let_def ptr simp del: of_nat_add)
  qed
qed

lemma touches_iff:
  assumes "blocks_ok B" "x \<in> B" "y \<in> B" "free_hdr m x"
  shows "of_nat (fst x) + free_block_size m (of_nat (fst x)) = of_nat (fst y) \<longleftrightarrow>
    fst x + snd x = fst y"
  using free_block_size_hdr [OF assms(4)] blocks_okD [OF assms(1,2)] blocks_okD [OF assms(1,3)]
    of_nat64_eq [of "fst x + snd x" "fst y"] by simp

lemma free_merge_prev_correct:
  assumes l: "free_ring m head (L @ y # R)" and ord: "ordered_blocks (L @ y # R)"
    and hdrs: "\<forall>x\<in>set (L @ y # R). free_hdr m x" and mp: "merge_prev L y = (L', z)"
  shows "\<exists>m'. free_merge_prev (of_nat (snd y)) (of_nat (fst y)) m = (of_nat (fst z), m') \<and>
    free_ring m' head (L' @ z # R) \<and> (\<forall>x\<in>set (L' @ z # R). free_hdr m' x) \<and>
    changes_only (block_bytes (set (L @ y # R))) m m'"
proof -
  note ok = ordered_blocks_ok [OF ord]
  define w where "w = last (y # R @ L)"
  have ptr: "of_nat (fst y) + 8 = node y" by (simp add: node_def)
  have prev: "rd_prev kmem_links m (node y) = node w"
    using dlist_prev_hd [OF km.dlist_rotate_to [of m head "map node L" "node y" "map node R"]] l
      last_map [of "y # R @ L" node] by (simp add: w_def)
  have w: "w \<in> set (L @ y # R)" using last_in_set [of "y # R @ L"] unfolding w_def by auto
  have touch: "of_nat (fst w) + free_block_size m (of_nat (fst w)) = of_nat (fst y) \<longleftrightarrow>
      fst w + snd w = fst y"
    using touches_iff [OF ok w, of y] hdrs w by auto
  show ?thesis
  proof (cases "L \<noteq> [] \<and> fst (last L) + snd (last L) = fst y")
    case True
    then obtain K where K: "L = K @ [w]" by (cases L rule: rev_cases) (auto simp: w_def)
    have adj: "fst w + snd w = fst y" using True K by simp
    have z: "L' = K" "z = (fst w, snd w + snd y)" using mp True K by (auto simp: merge_prev_def)
    note r = resize_unlink [of m head K w y R, OF _ _ _ adj refl]
    have "free_merge_prev (of_nat (snd y)) (of_nat (fst y)) m = (of_nat (fst w),
      intrusive_list_unlink_node kmem_links (node y)
        (store64 (of_nat (fst w) + 24) (of_nat (snd w) + of_nat (snd y)) m))"
      using prev touch adj hdrs K free_block_size_hdr [of m w]
      by (simp add: free_merge_prev_def Let_def ptr)
    then show ?thesis using r l ord hdrs K z by auto
  next
    case False
    have "fst w + snd w \<noteq> fst y"
    proof (cases "L = []")
      case True
      then show ?thesis using ord w by (auto simp: ordered_blocks_def)
    qed (use False in \<open>simp add: w_def\<close>)
    then have "free_merge_prev (of_nat (snd y)) (of_nat (fst y)) m = (of_nat (fst y), m)"
      using prev touch by (simp add: free_merge_prev_def Let_def ptr)
    then show ?thesis using False mp l hdrs by (auto simp: merge_prev_def)
  qed
qed

lemma free_merge_next_correct:
  assumes l: "free_ring m head (L @ z # R)" and ord: "ordered_blocks (L @ z # R)"
    and hdrs: "\<forall>x\<in>set (L @ z # R). free_hdr m x"
  shows "\<exists>m'. free_merge_next (of_nat (fst z)) m = m' \<and>
    free_ring m' head (L @ merge_block z R) \<and> (\<forall>x\<in>set (L @ merge_block z R). free_hdr m' x) \<and>
    changes_only (block_bytes (set (L @ z # R))) m m'"
proof -
  note ok = ordered_blocks_ok [OF ord]
  define w where "w = hd (R @ L @ [z])"
  have ptr: "of_nat (fst x) + 8 = node x" for x by (simp add: node_def)
  have "head = node (hd (L @ [z]))" using dlist_hd [OF l] by (cases L) auto
  then have nxt: "rd_next kmem_links m (node z) = node w"
    using dlist_next [of _ _ m head "map node L" "node z" "map node R"] l
    by (cases R; cases L) (auto simp: w_def)
  have w: "w \<in> set (L @ z # R)" using hd_in_set [of "R @ L @ [z]"] unfolding w_def by auto
  have touch: "of_nat (fst z) + free_block_size m (of_nat (fst z)) = of_nat (fst w) \<longleftrightarrow>
      fst z + snd z = fst w"
    using touches_iff [OF ok _ w] hdrs by simp
  show ?thesis
  proof (cases "R \<noteq> [] \<and> fst z + snd z = fst (hd R)")
    case True
    then obtain K where K: "R = w # K" by (cases R) (auto simp: w_def)
    have adj: "fst z + snd z = fst w" using True K by simp
    note r = resize_unlink [of m head L z w K, OF _ _ _ adj refl]
    have "free_merge_next (of_nat (fst z)) m = intrusive_list_unlink_node kmem_links (node w)
        (store64 (of_nat (fst z) + 24) (of_nat (snd z) + of_nat (snd w)) m)"
      using nxt touch adj hdrs K free_block_size_hdr [of m w] free_block_size_hdr [of m z]
      by (simp add: free_merge_next_def Let_def ptr)
    then show ?thesis using r l ord hdrs K adj by (simp add: merge_block_unfold)
  next
    case False
    have "fst z + snd z \<noteq> fst w"
    proof (cases "R = []")
      case True
      then show ?thesis using ord w by (auto simp: ordered_blocks_def sorted_wrt_append)
    qed (use False in \<open>simp add: w_def\<close>)
    then have "free_merge_next (of_nat (fst z)) m = m"
      using nxt touch by (simp add: free_merge_next_def Let_def ptr)
    then show ?thesis using False l hdrs by (auto simp: merge_block_unfold)
  qed
qed

lemma free_merge_correct:
  assumes l: "free_ring m head (blocks_below x F @ x # blocks_above x F)"
    and ord: "ordered_blocks (blocks_below x F @ x # blocks_above x F)"
    and apart: "apart_blocks (blocks_below x F)"
    and hdrs: "\<forall>y\<in>insert x (set F). free_hdr m y"
  shows "\<exists>p m1 m2. free_merge_prev (of_nat (snd x)) (of_nat (fst x)) m = (p, m1) \<and>
    free_merge_next p m1 = m2 \<and> free_ring m2 head (free_block x F) \<and>
    (\<forall>y\<in>set (free_block x F). free_hdr m2 y) \<and> changes_only (block_bytes (insert x (set F))) m m2"
proof -
  let ?L = "blocks_below x F" and ?R = "blocks_above x F"
  have FLR: "set F = set ?L \<union> set ?R" by (metis below_above set_append)
  obtain L z where mp: "merge_prev ?L x = (L, z)" by (metis surj_pair)
  note z = merge_prev_correct [OF ord apart mp]
  have bytes: "block_bytes (set (?L @ x # ?R)) = block_bytes (insert x (set F))"
    "block_bytes (set (L @ z # ?R)) = block_bytes (insert x (set F))"
    using z(3) FLR by auto
  obtain m4 where m4: "free_merge_prev (of_nat (snd x)) (of_nat (fst x)) m = (of_nat (fst z), m4)"
      "free_ring m4 head (L @ z # ?R)" "\<forall>y\<in>set (L @ z # ?R). free_hdr m4 y"
      "changes_only (block_bytes (insert x (set F))) m m4"
    using free_merge_prev_correct [OF l ord _ mp] hdrs FLR unfolding bytes by auto
  obtain m5 where m5: "free_merge_next (of_nat (fst z)) m4 = m5"
      "free_ring m5 head (free_block x F)" "\<forall>y\<in>set (free_block x F). free_hdr m5 y"
      "changes_only (block_bytes (insert x (set F))) m4 m5"
    using free_merge_next_correct [OF m4(2) z(2) m4(3)] free_block_split [OF ord] mp
    unfolding bytes by (auto simp: below_above)
  show ?thesis using m4(1) m5 changes_only_trans [OF m4(4) m5(4)] by blast
qed

lemma free_header:
  assumes rep: "kmem_rep h m F U" and x: "x \<in> U"
  shows "\<exists>m'. intrusive_list_init kmem_links (of_nat (fst x) + 8) m = Some (node x, m') \<and>
    free_ring (store64 (of_nat (fst x)) KMEM_BLOCK_MAGIC
      (store64 (of_nat (fst x) + 24) (of_nat (snd x)) m')) (free_list h) F \<and>
    free_ring (store64 (of_nat (fst x)) KMEM_BLOCK_MAGIC
      (store64 (of_nat (fst x) + 24) (of_nat (snd x)) m')) (node x) [x] \<and>
    (\<forall>y\<in>insert x (set F). free_hdr (store64 (of_nat (fst x)) KMEM_BLOCK_MAGIC
      (store64 (of_nat (fst x) + 24) (of_nat (snd x)) m')) y) \<and>
    changes_only (header_bytes x) m (store64 (of_nat (fst x)) KMEM_BLOCK_MAGIC
      (store64 (of_nat (fst x) + 24) (of_nat (snd x)) m'))"
proof -
  note ok = kmem_rep_ok [OF rep]
  have xB: "x \<in> set F \<union> U" using x by simp
  let ?st = "\<lambda>m. store64 (of_nat (fst x)) KMEM_BLOCK_MAGIC
    (store64 (of_nat (fst x) + 24) (of_nat (snd x)) m)"
  obtain m' where m': "intrusive_list_init kmem_links (of_nat (fst x) + 8) m = Some (node x, m')"
      "free_ring (?st m') (node x) [x]" "free_hdr (?st m') x" "changes_only (header_bytes x) m (?st m')"
    using new_free_block(2) [OF ok xB, of m] by blast
  have rep': "wf_blocks (heap_lo h) (heap_hi h) F U" "free_ring m (free_list h) F" "\<forall>x\<in>set F. free_hdr m x"
    using rep by (simp_all add: kmem_rep_def)
  have xF: "x \<notin> set F" using wf_blocks_apart [OF rep'(1) _ x] by blast
  have "node_bytes (set F) \<inter> header_bytes x = {}"
    using header_outside_nodes [OF ok xB _ xF] by blast
  then have "free_ring (?st m') (free_list h) F"
    using dlist_changes_only [OF m'(4) kmem_rep_ok_free [OF rep]] rep'(2) by simp
  moreover have "free_hdr (?st m') y" if y: "y \<in> set F" for y
  proof -
    have "changes_only (node_bytes {} \<union> header_bytes x) m (?st m')" using m'(4) by (simp add: node_bytes_def)
    then show ?thesis using free_hdr_split_frame [OF _ ok, of "{}" x m _ y] y xF rep'(3) xB by auto
  qed
  ultimately show ?thesis using m' by blast
qed

lemma kmem_free_guards:
  assumes rep: "kmem_rep h m F U" and x: "x \<in> U"
  shows "of_nat (fst x + 16) \<noteq> NULL" "of_nat (fst x + 16) - 16 = (of_nat (fst x) :: u64)"
    "\<not> of_nat (fst x) < heap_start h" "\<not> of_nat (fst x) > heap_start h + heap_size h"
    "load64 m (of_nat (fst x)) = KMEM_BLOCK_MAGIC" "load64 m (of_nat (fst x) + 8) = of_nat (snd x)"
proof -
  have b: "64 \<le> snd x" "0 < fst x" "fst x + snd x < 2 ^ 64"
    using blocks_okD [OF kmem_rep_ok [OF rep], of x] x by auto
  have hi: "heap_hi h < 2 ^ 64" "heap_lo h \<le> fst x" "fst x + snd x \<le> heap_hi h"
    using rep x by (auto simp: kmem_rep_def wf_blocks_def)
  have u: "unat (of_nat (fst x) :: u64) = fst x" using unat_of_nat64 b by simp
  show "of_nat (fst x + 16) \<noteq> NULL" using of_nat64_eq [of "fst x + 16" 0] b by simp
  show "\<not> of_nat (fst x) < heap_start h" using u hi by (simp add: word_less_nat_alt heap_lo_def)
  have "unat (heap_start h + heap_size h) = heap_hi h"
    using hi(1) by (simp add: unat_plus_if' heap_hi_def)
  then show "\<not> of_nat (fst x) > heap_start h + heap_size h"
    using u hi by (simp add: word_less_nat_alt)
  show "load64 m (of_nat (fst x)) = KMEM_BLOCK_MAGIC" "load64 m (of_nat (fst x) + 8) = of_nat (snd x)"
    using rep x by (auto simp: kmem_rep_def used_hdr_def)
qed simp

lemma kmem_free_rep:
  assumes rep: "kmem_rep h m F U" and x: "x \<in> U"
  shows "\<exists>h' m'. kmem_free h (of_nat (fst x + 16)) m = Some (h', m') \<and>
    kmem_rep h' m' (free_block x F) (U - {x}) \<and> changes_only (block_bytes (insert x (set F))) m m' \<and>
    h' = h\<lparr>free_list := free_list h'\<rparr>"
proof -
  have rep': "0 < heap_lo h" "heap_hi h < 2 ^ 64" "wf_blocks (heap_lo h) (heap_hi h) F U"
    "\<forall>y\<in>U. used_hdr m y" using rep by (simp_all add: kmem_rep_def)
  let ?L = "blocks_below x F" and ?R = "blocks_above x F" and ?B = "insert x (set F)"
  note ord = wf_blocks_insert_ordered [OF rep'(3) x rep'(1,2)]
  have ok: "blocks_ok ?B" using blocks_ok_subset [OF kmem_rep_ok [OF rep]] x by auto
  have xF: "x \<notin> set F" using wf_blocks_apart [OF rep'(3) _ x] by blast
  obtain m1 m2 where m1: "intrusive_list_init kmem_links (of_nat (fst x) + 8) m = Some (node x, m1)"
      and m2: "m2 = store64 (of_nat (fst x)) KMEM_BLOCK_MAGIC
        (store64 (of_nat (fst x) + 24) (of_nat (snd x)) m1)"
      "free_ring m2 (free_list h) F" "free_ring m2 (node x) [x]" "\<forall>y\<in>?B. free_hdr m2 y"
      "changes_only (header_bytes x) m m2"
    using free_header [OF rep x] by blast
  obtain h' m3 where m3: "free_link h (of_nat (fst x + 16)) (of_nat (fst x)) m2 = Some (h', m3)"
      "h' = h\<lparr>free_list := free_list h'\<rparr>" "free_ring m3 (free_list h') (?L @ x # ?R)"
      "changes_only (node_bytes ?B) m2 m3"
    using free_link_correct [OF m2(2,3) ok xF] by blast
  have h3: "\<forall>y\<in>?B. free_hdr m3 y"
    using free_hdr_list_frame [OF m3(4) ok subset_refl] m2(4) by blast
  have "sorted_wrt (\<lambda>x y. fst x + snd x < fst y) (?L @ ?R)"
    using rep'(3) by (simp add: wf_blocks_def below_above)
  then have apart: "apart_blocks ?L" by (simp add: apart_blocks_def sorted_wrt_append)
  obtain p m4 m5 where m5: "free_merge_prev (of_nat (snd x)) (of_nat (fst x)) m3 = (p, m4)"
      "free_merge_next p m4 = m5" "free_ring m5 (free_list h') (free_block x F)"
      "\<forall>y\<in>set (free_block x F). free_hdr m5 y" "changes_only (block_bytes ?B) m3 m5"
    using free_merge_correct [OF m3(3) ord apart h3] by blast
  have "header_bytes x \<subseteq> block_bytes ?B" "node_bytes ?B \<subseteq> block_bytes ?B"
    using blocks_okD [OF ok, of x] node_bytes_subset [OF ok] by (auto simp: header_bytes_def)
  then have "changes_only (block_bytes ?B) m m3" by (rule changes_only_trans [OF m2(5) m3(4)])
  then have ch: "changes_only (block_bytes ?B) m m5" by (rule changes_only_trans [OF _ m5(5)]) simp_all
  have "kmem_free h (of_nat (fst x + 16)) m = Some (h', m5)"
    using kmem_free_guards [OF rep x] m1 m2(1) m3(1) m5(1,2)
    by (simp add: kmem_free_def Let_def del: of_nat_add)
  moreover have "used_hdr m5 y" if "y \<in> U - {x}" for y
    using used_hdr_frame [OF ch kmem_rep_ok [OF rep], of y] x that rep'(4)
      wf_blocks_apart [OF rep'(3), of y] by auto
  moreover have "heap_lo h' = heap_lo h" "heap_hi h' = heap_hi h"
    by (subst m3(2), simp add: heap_lo_def heap_hi_def)+
  ultimately show ?thesis
    using m5 m3(2) ch rep' wf_blocks_free(1) [OF rep'(3) x rep'(1,2)] by (auto simp: kmem_rep_def)
qed

lemma kmem_init_rep:
  assumes "0 < unat start" "64 \<le> unat sz" "unat start + unat sz < 2 ^ 64"
  shows "\<exists>h m'. kmem_init start sz m = Some (h, m') \<and> kmem_rep h m' [(unat start, unat sz)] {} \<and>
    heap_start h = start \<and> heap_size h = sz \<and> changes_only {unat start..<unat start + 32} m m'"
proof -
  let ?x = "(unat start, unat sz)" and ?h = "\<lparr>heap_start = start, heap_size = sz, free_list = start + 8\<rparr>"
  have ok: "blocks_ok {?x}" using assms by (simp add: blocks_ok_def)
  obtain m1 where m1: "intrusive_list_init kmem_links (start + 8) m = Some (node ?x, m1)"
      "free_ring (store64 start KMEM_BLOCK_MAGIC (store64 (start + 24) sz m1)) (node ?x) [?x]"
      "free_hdr (store64 start KMEM_BLOCK_MAGIC (store64 (start + 24) sz m1)) ?x"
      "changes_only (header_bytes ?x) m (store64 start KMEM_BLOCK_MAGIC (store64 (start + 24) sz m1))"
    using new_free_block(2) [OF ok, of ?x m] by auto
  have "kmem_init start sz m = Some (?h, store64 start KMEM_BLOCK_MAGIC (store64 (start + 24) sz m1))"
    using m1(1) by (simp add: kmem_init_def Let_def)
  moreover have "kmem_rep ?h (store64 start KMEM_BLOCK_MAGIC (store64 (start + 24) sz m1)) [?x] {}"
    using m1 assms by (simp add: kmem_rep_def wf_blocks_def heap_lo_def heap_hi_def node_def)
  ultimately show ?thesis using m1(4) by (simp add: header_bytes_def)
qed

lemma kmem_rep_write:
  assumes rep: "kmem_rep h m F U" and x: "x \<in> U"
    and ch: "changes_only {fst x + 16..<fst x + snd x} m m'"
  shows "kmem_rep h m' F U"
proof -
  note ok = kmem_rep_ok [OF rep]
  have wf: "wf_blocks (heap_lo h) (heap_hi h) F U" using rep by (simp add: kmem_rep_def)
  have out: "{fst y..<fst y + snd y} \<inter> {fst x + 16..<fst x + snd x} = {}"
    if "y \<in> set F \<union> U" "y \<noteq> x" for y
    using blocks_ok_disjnt [OF ok that(1), of x] that x by (auto simp: disjnt_blocks_def)
  have new: "y \<noteq> x" if "y \<in> set F" for y using wf_blocks_apart [OF wf that] x by auto
  have "node_bytes (set F) \<inter> {fst x + 16..<fst x + snd x} = {}"
    using node_bytes_subset [OF kmem_rep_ok_free [OF rep]] out new unfolding block_bytes_def by blast
  then have "free_ring m' (free_list h) F"
    using dlist_changes_only [OF ch kmem_rep_ok_free [OF rep]] rep by (simp add: kmem_rep_def)
  moreover have "free_hdr m' y" if "y \<in> set F" for y
    using free_hdr_changes_only [OF ch, of y] out [of y] new [OF that] that rep
      blocks_okD [OF ok, of y] by (auto simp: disjoint_iff kmem_rep_def)
  moreover have "used_hdr m' y" if "y \<in> U" for y
    using used_hdr_changes_only [OF ch, of y] out [of y] that rep
      blocks_okD [OF ok, of y] by (cases "y = x") (auto simp: disjoint_iff kmem_rep_def)
  ultimately show ?thesis using rep by (simp add: kmem_rep_def)
qed

text \<open>Memory outside the heap does not matter.\<close>

lemma kmem_rep_outside:
  assumes rep: "kmem_rep h m F U" and ch: "changes_only S m m'" and out: "S \<inter> {heap_lo h..<heap_hi h} = {}"
  shows "kmem_rep h m' F U"
proof -
  note ok = kmem_rep_ok [OF rep]
  have inside: "{fst y..<fst y + snd y} \<inter> S = {}" if "y \<in> set F \<union> U" for y
  proof -
    have "heap_lo h \<le> fst y" "fst y + snd y \<le> heap_hi h" using rep that by (auto simp: kmem_rep_def wf_blocks_def)
    then show ?thesis using out by fastforce
  qed
  have "node_bytes (set F) \<inter> S = {}"
    using node_bytes_subset [OF kmem_rep_ok_free [OF rep]] inside unfolding block_bytes_def by blast
  then have "free_ring m' (free_list h) F"
    using dlist_changes_only [OF ch kmem_rep_ok_free [OF rep]] rep by (simp add: kmem_rep_def)
  moreover have "free_hdr m' y" if "y \<in> set F" for y
    using free_hdr_changes_only [OF ch, of y] inside [of y] that rep
      blocks_okD [OF ok, of y] by (auto simp: disjoint_iff kmem_rep_def)
  moreover have "used_hdr m' y" if "y \<in> U" for y
    using used_hdr_changes_only [OF ch, of y] inside [of y] that rep
      blocks_okD [OF ok, of y] by (auto simp: disjoint_iff kmem_rep_def)
  ultimately show ?thesis using rep by (simp add: kmem_rep_def)
qed

lemma print_free_loop_rep:
  assumes "free_ring m (free_list h) (xs @ ys)" "ys \<noteq> []" "\<forall>x\<in>set ys. free_hdr m x"
  shows "print_free_loop n h m (node (hd ys)) =
    map (\<lambda>x. (KMEM_BLOCK_MAGIC, of_nat (fst x), of_nat (fst x) - heap_start h, of_nat (snd x))) (take (Suc n) ys)"
  using assms
proof (induction ys arbitrary: xs n)
  case (Cons y ys)
  have hdr: "load64 m (of_nat (fst y)) = KMEM_BLOCK_MAGIC" "free_block_size m (of_nat (fst y)) = of_nat (snd y)"
    using Cons.prems(3) free_block_size_hdr by (auto simp: free_hdr_def)
  have nxt: "rd_next kmem_links m (node y) = hd (map node ys @ [free_list h])"
    using dlist_next [of _ _ m "free_list h" "map node xs" "node y" "map node ys"] Cons.prems(1) by simp
  have new: "node (hd ys) \<noteq> free_list h" if "ys \<noteq> []"
    using dlist_hd [OF Cons.prems(1)] km.dlist_distinct [OF Cons.prems(1)]
      imageI [OF hd_in_set [OF that], of node] by (cases xs) auto
  show ?case
    using hdr nxt new Cons.IH [of "xs @ [y]"] Cons.prems
    by (cases n; cases "ys = []") (simp_all add: hd_append hd_map Let_def)
qed simp

inductive kmem_step ::
  "kmem_heap_t \<times> memory \<times> block set \<Rightarrow> kmem_heap_t \<times> memory \<times> block set \<Rightarrow> bool" where
  alloc: "kmem_alloc h sz m = Some (p, h', m') \<Longrightarrow> p \<noteq> NULL \<Longrightarrow>
    kmem_step (h, m, U) (h', m', insert (unat p - 16, request sz) U)"
| no_memory: "kmem_alloc h sz m = Some (NULL, h', m') \<Longrightarrow> kmem_step (h, m, U) (h', m', U)"
| free: "x \<in> U \<Longrightarrow> kmem_free h (of_nat (fst x + 16)) m = Some (h', m') \<Longrightarrow>
    kmem_step (h, m, U) (h', m', U - {x})"
| free_null: "kmem_free h NULL m = Some (h', m') \<Longrightarrow> kmem_step (h, m, U) (h', m', U)"
| client_write: "x \<in> U \<Longrightarrow> changes_only {fst x + 16..<fst x + snd x} m m' \<Longrightarrow>
    kmem_step (h, m, U) (h, m', U)"

lemma kmem_step_rep:
  assumes "kmem_step s s'" "s = (h, m, U)" "s' = (h', m', U')" "kmem_rep h m F U"
  shows "\<exists>F'. kmem_rep h' m' F' U'"
  using assms
proof (induction rule: kmem_step.induct)
  case (alloc h0 sz m0 p h1 m1 U0)
  show ?case
  proof (cases "first_fit (request sz) F")
    case None
    then show ?thesis using alloc kmem_alloc_none [of h0 m0 F U0 sz] by simp
  next
    case (Some r)
    obtain a F' where r: "r = (a, F')" by (cases r)
    then obtain h2 m2 where a: "kmem_alloc h0 sz m0 = Some (of_nat (a + 16), h2, m2)"
        "kmem_rep h2 m2 F' (insert (a, request sz) U0)"
      using kmem_alloc_some [of h0 m0 F U0 sz a F'] Some alloc.prems by auto
    have "a + 16 < 2 ^ 64"
      using blocks_okD [OF kmem_rep_ok [OF a(2)], of "(a, request sz)"] request_bounds(1) [of sz] by simp
    then have "unat p - 16 = a" using a(1) alloc.hyps(1) unat_of_nat64 [of "a + 16"] by simp
    then show ?thesis using a alloc by auto
  qed
next
  case (no_memory h0 sz m0 h1 m1 U0)
  show ?case
  proof (cases "first_fit (request sz) F")
    case None
    then show ?thesis using no_memory kmem_alloc_none [of h0 m0 F U0 sz] by auto
  next
    case (Some r)
    obtain a F' where r: "r = (a, F')" by (cases r)
    then obtain h2 m2 where a: "kmem_alloc h0 sz m0 = Some (of_nat (a + 16), h2, m2)"
        "kmem_rep h2 m2 F' (insert (a, request sz) U0)"
      using kmem_alloc_some [of h0 m0 F U0 sz a F'] Some no_memory.prems by auto
    then show ?thesis
      using kmem_free_guards(1) [OF a(2), of "(a, request sz)"] no_memory.hyps by auto
  qed
next
  case (free x U0 h0 m0 h1 m1)
  then show ?case using kmem_free_rep [of h0 m0 F U0 x] by auto
next
  case (free_null h0 m0 h1 m1 U0)
  then show ?case by (auto simp: kmem_free_def)
next
  case (client_write x U0 m0 m1 h0)
  then show ?case using kmem_rep_write [of h0 m0 F U0 x m1] by auto
qed

lemma kmem_reach_rep:
  assumes "kmem_step\<^sup>*\<^sup>* (h, m, U) (h', m', U')" "kmem_rep h m F U"
  shows "\<exists>F'. kmem_rep h' m' F' U'"
  using assms(1)
proof (induction "(h', m', U')" arbitrary: h' m' U' rule: rtranclp_induct)
  case base
  then show ?case using assms(2) by blast
next
  case (step s)
  obtain h1 m1 U1 where s: "s = (h1, m1, U1)" by (cases s)
  then obtain F1 where "kmem_rep h1 m1 F1 U1" using step.hyps(3) by blast
  then show ?case using kmem_step_rep [OF step.hyps(2) s refl] by blast
qed

lemma payload_untouched:
  assumes ok: "blocks_ok B" and D: "D \<subseteq> B" and y: "y \<in> B" "y \<notin> D"
    and ch: "changes_only (block_bytes D) m m'" and i: "i \<in> {fst y..<fst y + snd y}"
  shows "m' (of_nat i) = m (of_nat i)"
proof -
  have "{fst x..<fst x + snd x} \<inter> {fst y..<fst y + snd y} = {}" if x: "x \<in> D" for x
  proof -
    have "x \<noteq> y" using x y by auto
    then show ?thesis
      using blocks_ok_disjnt [OF ok _ y(1), of x] x D by (auto simp: disjnt_blocks_def)
  qed
  then have "i \<notin> block_bytes D" using i unfolding block_bytes_def by blast
  moreover have "unat (of_nat i :: u64) = i"
    using i blocks_okD [OF ok y(1)] by (intro unat_of_nat64) auto
  ultimately show ?thesis using ch by (simp add: changes_only_def)
qed

lemma free_block_after_take:
  assumes wf: "wf_blocks lo hi (pre @ (a, s) # post) U" and n: "64 \<le> n" "n \<le> s" and b: "0 < lo" "hi < 2 ^ 64"
  shows "free_block (a, n) (pre @ (if s - n < 64 then [] else [(a + n, s - n)]) @ post) =
    pre @ (a, if s - n < 64 then n else s) # post"
proof -
  have ord: "ordered_blocks (pre @ (a, s) # post)" by (rule wf_blocks_ordered [OF wf b])
  have sorted: "sorted_wrt (\<lambda>x y. fst x + snd x < fst y) (pre @ (a, s) # post)"
    using wf by (simp add: wf_blocks_def)
  have "fst (last pre) + snd (last pre) < a" if "pre \<noteq> []"
    using sorted last_in_set [OF that] by (auto simp: sorted_wrt_append)
  then have mp: "merge_prev pre (a, n) = (pre, (a, n))" by (auto simp: merge_prev_def)
  have post: "a + s < fst (hd post)" if "post \<noteq> []"
    using sorted hd_in_set [OF that] by (auto simp: sorted_wrt_append)
  show ?thesis
  proof (cases "s - n < 64")
    case True
    have "ordered_blocks (pre @ (a, n) # post)"
      using ord n by (fastforce simp: ordered_blocks_def sorted_wrt_append)
    moreover have "merge_block (a, n) post = (a, n) # post" using post n by (cases post) auto
    ultimately show ?thesis using True free_block_split [of pre "(a, n)" post] mp by simp
  next
    case False
    have "ordered_blocks (pre @ (a, n) # (a + n, s - n) # post)"
      using ord n False by (fastforce simp: ordered_blocks_def sorted_wrt_append)
    then show ?thesis using False n free_block_split [of pre "(a, n)" "(a + n, s - n) # post"] mp
      by (simp add: merge_block_unfold)
  qed
qed

subsection \<open>Properties\<close>

text \<open>
  Initialisation of a heap of at least 64 bytes that does not wrap succeeds and gives one free
  block that covers the whole heap; only the 32 bytes of its header are written.
\<close>

theorem kmem_init_refines:
  assumes "0 < unat start" "64 \<le> unat sz" "unat start + unat sz < 2 ^ 64"
  shows "\<exists>h m'. kmem_init start sz m = Some (h, m') \<and> kmem_rep h m' [(unat start, unat sz)] {} \<and>
    heap_start h = start \<and> heap_size h = sz \<and> changes_only {unat start..<unat start + 32} m m'"
  by (rule kmem_init_rep [OF assms])

theorem kmem_init_refines_witness:
  "\<exists>h m'. kmem_init 0x1000 0x1000 (\<lambda>_. 0) = Some (h, m') \<and> kmem_rep h m' [(0x1000, 0x1000)] {}"
  using kmem_init_refines [of "0x1000" "0x1000" "\<lambda>_. 0"] by auto

text \<open>
  C1. Allocation always returns.  It refines first fit with the request rounded as the code rounds
  it (payload plus the 16 byte header at 64-bit width, at least 64): when no free block is large
  enough it returns NULL and changes nothing; otherwise it returns the payload of the first block that
  is, the representation holds for the first-fit result, and no byte outside the free blocks is written.
\<close>

theorem kmem_alloc_refines:
  assumes "kmem_rep h m F U"
  shows "case first_fit (request sz) F of
      None \<Rightarrow> kmem_alloc h sz m = Some (NULL, h, m)
    | Some (a, F') \<Rightarrow> \<exists>h' m'. kmem_alloc h sz m = Some (of_nat (a + 16), h', m') \<and>
        kmem_rep h' m' F' (insert (a, request sz) U) \<and> changes_only (block_bytes (set F)) m m' \<and>
        h' = h\<lparr>free_list := free_list h'\<rparr>"
  using kmem_alloc_none [OF assms] kmem_alloc_some [OF assms]
  by (cases "first_fit (request sz) F") auto

theorem kmem_alloc_refines_witness:
  "\<exists>h m h' m'. kmem_init 0x1000 0x1000 (\<lambda>_. 0) = Some (h, m) \<and>
    kmem_alloc h 100 m = Some (0x1010, h', m') \<and> kmem_rep h' m' [(0x1074, 0xf8c)] {(0x1000, 0x74)}"
proof -
  obtain h m where i: "kmem_init 0x1000 0x1000 (\<lambda>_. 0) = Some (h, m)" "kmem_rep h m [(0x1000, 0x1000)] {}"
    using kmem_init_rep [of "0x1000" "0x1000" "\<lambda>_. 0"] by auto
  then show ?thesis using kmem_alloc_refines [OF i(2), of 100] by (auto simp: request_def)
qed

text \<open>
  C2. Freeing a used block always returns.  It refines insertion in address order with merging of
  touching neighbours: the block leaves the used blocks, its bytes join the free bytes, and
  no byte outside the free blocks and the block itself is written.
\<close>

theorem kmem_free_refines:
  assumes "kmem_rep h m F U" "x \<in> U"
  shows "\<exists>h' m'. kmem_free h (of_nat (fst x + 16)) m = Some (h', m') \<and>
    kmem_rep h' m' (free_block x F) (U - {x}) \<and>
    block_bytes (set (free_block x F)) = block_bytes (set F) \<union> {fst x..<fst x + snd x} \<and>
    changes_only (block_bytes (insert x (set F))) m m'"
  using kmem_free_rep [OF assms] wf_blocks_free(2) [OF _ assms(2)] assms(1)
  by (fastforce simp: kmem_rep_def)

theorem kmem_free_refines_witness:
  "\<exists>h m h' m'. kmem_rep h m [(0x1074, 0xf8c)] {(0x1000, 0x74)} \<and>
    kmem_free h 0x1010 m = Some (h', m') \<and> kmem_rep h' m' [(0x1000, 0x1000)] {}"
proof -
  obtain h m where i: "kmem_rep h m [(0x1000, 0x1000)] {}"
    using kmem_init_rep [of "0x1000" "0x1000" "\<lambda>_. 0"] by auto
  obtain h1 m1 where a: "kmem_rep h1 m1 [(0x1074, 0xf8c)] {(0x1000, 0x74)}"
    using kmem_alloc_some [OF i, of 100 "0x1000" "[(0x1074, 0xf8c)]"] by (auto simp: request_def)
  then show ?thesis using kmem_free_refines [OF a, of "(0x1000, 0x74)"] by auto
qed

text \<open>
  C3. From an initialised heap, under any sequence of allocations, frees of live blocks and client
  writes inside live payloads: the live blocks stay pairwise disjoint and inside the
  heap, every further allocation returns, and so does every free of a live block.
\<close>

theorem kmem_reachable_safe:
  assumes "0 < unat start" "64 \<le> unat sz" "unat start + unat sz < 2 ^ 64"
    and "kmem_init start sz m0 = Some (h0, m1)" "kmem_step\<^sup>*\<^sup>* (h0, m1, {}) (h, m, U)"
  shows "pairwise disjnt_blocks U \<and>
    (\<forall>x\<in>U. unat (heap_start h) \<le> fst x \<and> fst x + snd x \<le> unat (heap_start h) + unat (heap_size h)) \<and>
    (\<forall>n. kmem_alloc h n m \<noteq> None) \<and> (\<forall>x\<in>U. kmem_free h (of_nat (fst x + 16)) m \<noteq> None)"
proof -
  have "kmem_rep h0 m1 [(unat start, unat sz)] {}"
    using kmem_init_rep [OF assms(1-3), of m0] assms(4) by auto
  then obtain F where rep: "kmem_rep h m F U" using kmem_reach_rep [OF assms(5)] by blast
  have "kmem_alloc h n m \<noteq> None" for n
    using kmem_alloc_none [OF rep, of n] kmem_alloc_some [OF rep, of n]
    by (cases "first_fit (request n) F") auto
  moreover have "kmem_free h (of_nat (fst x + 16)) m \<noteq> None" if "x \<in> U" for x
    using kmem_free_rep [OF rep that] by auto
  ultimately show ?thesis using rep by (simp add: kmem_rep_def wf_blocks_def heap_lo_def heap_hi_def)
qed

theorem kmem_reachable_safe_witness:
  "\<exists>h0 m1. kmem_init 0x1000 0x1000 (\<lambda>_. 0) = Some (h0, m1) \<and> kmem_alloc h0 100 m1 \<noteq> None"
proof -
  obtain h m where i: "kmem_init 0x1000 0x1000 (\<lambda>_. 0) = Some (h, m)"
    using kmem_init_rep [of "0x1000" "0x1000" "\<lambda>_. 0"] by auto
  have "kmem_alloc h 100 m \<noteq> None"
    using kmem_reachable_safe [of "0x1000" "0x1000", OF _ _ _ i rtranclp.rtrancl_refl] by simp
  then show ?thesis using i by blast
qed

text \<open>
  C5. No allocation, and no free of another block, changes a byte of a live block.
\<close>

theorem kmem_keeps_contents:
  assumes rep: "kmem_rep h m F U" and y: "y \<in> U" and i: "i \<in> {fst y..<fst y + snd y}"
  shows "(\<forall>sz p h' m'. kmem_alloc h sz m = Some (p, h', m') \<longrightarrow> m' (of_nat i) = m (of_nat i)) \<and>
    (\<forall>x h' m'. x \<in> U \<longrightarrow> x \<noteq> y \<longrightarrow> kmem_free h (of_nat (fst x + 16)) m = Some (h', m') \<longrightarrow>
      m' (of_nat i) = m (of_nat i))"
proof (intro conjI allI impI)
  note ok = kmem_rep_ok [OF rep]
  have yF: "y \<notin> set F" using rep y wf_blocks_apart [of _ _ F U y] by (auto simp: kmem_rep_def)
  fix sz p h' m' assume a: "kmem_alloc h sz m = Some (p, h', m')"
  have "changes_only (block_bytes (set F)) m m'"
    using kmem_alloc_none [OF rep, of sz] kmem_alloc_some [OF rep, of sz] a
    by (cases "first_fit (request sz) F") auto
  then show "m' (of_nat i) = m (of_nat i)"
    using payload_untouched [OF ok _ _ yF _ i] y by blast
next
  note ok = kmem_rep_ok [OF rep]
  have yF: "y \<notin> set F" using rep y wf_blocks_apart [of _ _ F U y] by (auto simp: kmem_rep_def)
  fix x h' m' assume f: "x \<in> U" "x \<noteq> y" "kmem_free h (of_nat (fst x + 16)) m = Some (h', m')"
  have "changes_only (block_bytes (insert x (set F))) m m'" using kmem_free_rep [OF rep f(1)] f(3) by auto
  then show "m' (of_nat i) = m (of_nat i)"
    using payload_untouched [OF ok, of "insert x (set F)" y m m' i] f y yF i by blast
qed

theorem kmem_keeps_contents_witness:
  "\<exists>h m. kmem_rep h m [(0x1074, 0xf8c)] {(0x1000, 0x74)} \<and>
    (\<exists>p h' m'. kmem_alloc h 8 m = Some (p, h', m') \<and> m' 0x1010 = m 0x1010)"
proof -
  obtain h m where i: "kmem_rep h m [(0x1000, 0x1000)] {}"
    using kmem_init_rep [of "0x1000" "0x1000" "\<lambda>_. 0"] by auto
  obtain h1 m1 where a: "kmem_rep h1 m1 [(0x1074, 0xf8c)] {(0x1000, 0x74)}"
    using kmem_alloc_some [OF i, of 100 "0x1000" "[(0x1074, 0xf8c)]"] by (auto simp: request_def)
  obtain h2 m2 where b: "kmem_alloc h1 8 m1 = Some (0x1084, h2, m2)"
    using kmem_alloc_some [OF a, of 8 "0x1074" "[(0x10b4, 0xf4c)]"] by (auto simp: request_def)
  have "m2 0x1010 = m1 0x1010"
    using kmem_keeps_contents [OF a, of "(0x1000, 0x74)" "0x1010"] b by auto
  then show ?thesis using a b by blast
qed

text \<open>
  C6. Freeing what was just allocated restores the free list, up to the unused rest of the
  chosen block: a rest of 64 bytes or more was split off and is merged back, a smaller rest was
  left out of the used block's size and is in neither list afterwards.
\<close>

theorem kmem_alloc_free_roundtrip:
  assumes rep: "kmem_rep h m (pre @ (a, s) # post) U"
    and first: "\<forall>x\<in>set pre. snd x < request sz" and n: "request sz \<le> s"
  shows "\<exists>p h1 m1 h2 m2. kmem_alloc h sz m = Some (p, h1, m1) \<and> kmem_free h1 p m1 = Some (h2, m2) \<and>
    kmem_rep h2 m2 (pre @ (a, if s - request sz < 64 then request sz else s) # post) U"
proof -
  let ?n = "request sz" and ?F = "pre @ (a, s) # post"
  have wf: "wf_blocks (heap_lo h) (heap_hi h) ?F U" "0 < heap_lo h" "heap_hi h < 2 ^ 64"
    using rep by (simp_all add: kmem_rep_def)
  have "first_fit ?n ?F = Some (a, pre @ (if s - ?n < 64 then [] else [(a + ?n, s - ?n)]) @ post)"
    using first n by (induction pre) auto
  then obtain h1 m1 where a: "kmem_alloc h sz m = Some (of_nat (a + 16), h1, m1)"
      "kmem_rep h1 m1 (pre @ (if s - ?n < 64 then [] else [(a + ?n, s - ?n)]) @ post) (insert (a, ?n) U)"
    using kmem_alloc_some [OF rep] by blast
  have "(a, ?n) \<notin> U"
  proof
    assume u: "(a, ?n) \<in> U"
    have "disjnt_blocks (a, s) (a, ?n)" using u wf(1) by (auto simp: wf_blocks_def)
    then show False using n request_bounds(1) [of sz] by (simp add: disjnt_blocks_def)
  qed
  then show ?thesis
    using a kmem_free_rep [OF a(2), of "(a, ?n)"] free_block_after_take [OF wf(1) request_bounds(1) n wf(2,3)]
    by auto
qed

theorem kmem_alloc_free_roundtrip_witness:
  "\<exists>h m p h1 m1 h2 m2. kmem_rep h m [(0x1000, 0x1000)] {} \<and> kmem_alloc h 0xfe0 m = Some (p, h1, m1) \<and>
    kmem_free h1 p m1 = Some (h2, m2) \<and> kmem_rep h2 m2 [(0x1000, 0xff0)] {}"
proof -
  obtain h m where i: "kmem_rep h m [(0x1000, 0x1000)] {}"
    using kmem_init_rep [of "0x1000" "0x1000" "\<lambda>_. 0"] by auto
  then show ?thesis
    using kmem_alloc_free_roundtrip [of h m "[]" "0x1000" "0x1000" "[]" "{}" "0xfe0"]
      i by (simp add: request_def) blast
qed

text \<open>
  The addition of the header size wraps: a request of \<open>2 ^ 64 - 16\<close> bytes or more succeeds whenever
  any free block exists, with a block of 64 bytes.
\<close>

theorem kmem_alloc_wraps:
  assumes rep: "kmem_rep h m ((a, s) # F) U" and big: "2 ^ 64 - 16 \<le> unat sz"
  shows "\<exists>h' m' F'. kmem_alloc h sz m = Some (of_nat (a + 16), h', m') \<and>
    kmem_rep h' m' F' (insert (a, 64) U)"
proof -
  have "unat (sz + 16) < 16" using big unat_less64 [of sz] by (simp add: unat_plus_if')
  then have r: "request sz = 64" by (simp add: request_def)
  have "64 \<le> s" using blocks_okD [OF kmem_rep_ok [OF rep], of "(a, s)"] by simp
  then obtain F' where "first_fit (request sz) ((a, s) # F) = Some (a, F')" using r by simp
  then show ?thesis using kmem_alloc_some [OF rep] r by metis
qed

theorem kmem_alloc_wraps_witness:
  "\<exists>h m h' m' F'. kmem_rep h m [(0x1000, 0x1000)] {} \<and>
    kmem_alloc h 0xffffffffffffffff m = Some (0x1010, h', m') \<and> kmem_rep h' m' F' {(0x1000, 64)}"
proof -
  obtain h m where i: "kmem_rep h m [(0x1000, 0x1000)] {}"
    using kmem_init_rep [of "0x1000" "0x1000" "\<lambda>_. 0"] by auto
  then show ?thesis using kmem_alloc_wraps [OF i, of "0xffffffffffffffff"] by simp blast
qed

end
