(* ===== verification/Hash_Map.thy ===== *)
theory Hash_Map
  imports Intrusive_List
begin

text \<open>
  The intrusive chained hash map of common/include/common/hash_map.hpp and its pooled variant.

  A \<open>hash_map_node\<close> begins with its list node, so node and list node have the same address.  The map
  object is the record \<open>hash_map\<close>; the link fields and the keys of the nodes live in
  \<open>hm_mem\<close>, which all maps of the kernel share.  The hash function is a field, as in the source.
  Taking a hash modulo a table of size 0 traps: \<^const>\<open>None\<close>.

  \<open>hm_rep h M S\<close> says that the map holds exactly the nodes \<open>S\<close>, no two of them with the same key
  and each in the bucket of its key.  The locale \<open>node_map\<close> is the interface the clients use; the
  hash map interprets it.
\<close>

subsection \<open>The map\<close>

record 'k hash_map =
  hm_table_size :: nat
  hm_hash_func :: "'k \<Rightarrow> u64"
  hm_table :: "ptr list"

record 'k hm_mem =
  links :: link_heap
  key :: "ptr \<Rightarrow> 'k"

definition hash_map_new :: "nat \<Rightarrow> ('k \<Rightarrow> u64) \<Rightarrow> 'k hash_map" where
  "hash_map_new table_size hash_func =
     \<lparr>hm_table_size = table_size, hm_hash_func = hash_func, hm_table = replicate table_size NULL\<rparr>"

definition hm_index :: "'k hash_map \<Rightarrow> 'k \<Rightarrow> nat option" where
  "hm_index h k =
     (if hm_table_size h = 0 then None else Some (unat (hm_hash_func h k) mod hm_table_size h))"

partial_function (option) hm_find_loop ::
  "('k, 'z) hm_mem_scheme \<Rightarrow> ptr \<Rightarrow> 'k \<Rightarrow> ptr \<Rightarrow> ptr option" where
  "hm_find_loop M first k head =
     (if key M head = k then Some head
      else let head = rd_next link_ops (links M) head
           in if head \<noteq> first then hm_find_loop M first k head else Some NULL)"

definition hm_find_at :: "'k hash_map \<Rightarrow> nat \<Rightarrow> 'k \<Rightarrow> ('k, 'z) hm_mem_scheme \<Rightarrow> ptr option" where
  "hm_find_at h idx k M =
     (let head = hm_table h ! idx
      in if head = NULL then Some NULL else hm_find_loop M head k head)"

definition hm_find :: "'k hash_map \<Rightarrow> 'k \<Rightarrow> ('k, 'z) hm_mem_scheme \<Rightarrow> ptr option" where
  "hm_find h k M = do {
     idx \<leftarrow> hm_index h k;
     hm_find_at h idx k M
   }"

definition hm_insert ::
  "'k hash_map \<Rightarrow> ptr \<Rightarrow> ('k, 'z) hm_mem_scheme \<Rightarrow> ('k hash_map \<times> ('k, 'z) hm_mem_scheme) option" where
  "hm_insert h node M = do {
     idx \<leftarrow> hm_index h (key M node);
     (head, l) \<leftarrow> intrusive_list_push_back link_ops (hm_table h ! idx) node (links M);
     Some (h\<lparr>hm_table := (hm_table h)[idx := head]\<rparr>, M\<lparr>links := l\<rparr>)
   }"

definition hm_remove ::
  "'k hash_map \<Rightarrow> ptr \<Rightarrow> ('k, 'z) hm_mem_scheme \<Rightarrow> ('k hash_map \<times> ('k, 'z) hm_mem_scheme) option" where
  "hm_remove h node M = do {
     idx \<leftarrow> hm_index h (key M node);
     let (head, l) = intrusive_list_delete link_ops (hm_table h ! idx) node (links M);
     Some (h\<lparr>hm_table := (hm_table h)[idx := head]\<rparr>, M\<lparr>links := l\<rparr>)
   }"

subsection \<open>Representation\<close>

definition bucket_of :: "'k hash_map \<Rightarrow> 'k \<Rightarrow> nat" where
  "bucket_of h k = unat (hm_hash_func h k) mod hm_table_size h"

definition hm_buckets :: "'k hash_map \<Rightarrow> ('k, 'z) hm_mem_scheme \<Rightarrow> ptr list list \<Rightarrow> bool" where
  "hm_buckets h M B \<longleftrightarrow>
     0 < hm_table_size h \<and> length (hm_table h) = hm_table_size h \<and> length B = hm_table_size h \<and>
     (\<forall>i<hm_table_size h. ring (links M) (hm_table h ! i) (B ! i) \<and>
        (\<forall>n\<in>set (B ! i). bucket_of h (key M n) = i))"

definition hm_rep :: "'k hash_map \<Rightarrow> ('k, 'z) hm_mem_scheme \<Rightarrow> ptr set \<Rightarrow> bool" where
  "hm_rep h M S \<longleftrightarrow> inj_on (key M) S \<and> (\<exists>B. hm_buckets h M B \<and> S = \<Union> (set ` set B))"

lemma hm_index_bucket: "0 < hm_table_size h \<Longrightarrow> hm_index h k = Some (bucket_of h k)"
  by (simp add: hm_index_def bucket_of_def)

lemma bucket_less: "0 < hm_table_size h \<Longrightarrow> bucket_of h k < hm_table_size h"
  by (simp add: bucket_of_def)

lemma hm_buckets_member:
  assumes "hm_buckets h M B"
  shows "n \<in> \<Union> (set ` set B) \<longleftrightarrow> n \<in> set (B ! bucket_of h (key M n))"
proof
  assume "n \<in> \<Union> (set ` set B)"
  then obtain i where i: "i < length B" "n \<in> set (B ! i)" by (metis UN_E in_set_conv_nth)
  then have "bucket_of h (key M n) = i" using assms by (auto simp: hm_buckets_def)
  then show "n \<in> set (B ! bucket_of h (key M n))" using i by simp
next
  assume "n \<in> set (B ! bucket_of h (key M n))"
  moreover have "bucket_of h (key M n) < length B"
    using assms bucket_less by (auto simp: hm_buckets_def)
  ultimately show "n \<in> \<Union> (set ` set B)" by auto
qed

lemma hm_find_loop_result:
  assumes "ring (links M) first (xs @ ys)" "ys \<noteq> []" "\<forall>x\<in>set xs. key M x \<noteq> k"
  shows "hm_find_loop M first k (hd ys) =
    Some (hd (filter (\<lambda>n. key M n = k) ys @ [NULL]))"
  using assms
proof (induction ys arbitrary: xs)
  case (Cons y ys)
  have nxt: "lnext (links M) y = hd (ys @ [first])"
    using dlist_next [OF Cons.prems(1)] by simp
  have new: "hd ys \<noteq> first" if "ys \<noteq> []"
    using dlist_hd [OF Cons.prems(1)] lh.dlist_distinct [OF Cons.prems(1)] hd_in_set [OF that]
    by (cases xs) auto
  show ?case
  proof (cases "key M y = k")
    case True
    then show ?thesis by (simp add: hm_find_loop.simps)
  next
    case False
    then show ?thesis
      using nxt new Cons.prems Cons.IH [of "xs @ [y]"]
      by (cases "ys = []") (simp_all add: hm_find_loop.simps [of M first k y])
  qed
qed simp

lemma hm_find_buckets:
  assumes B: "hm_buckets h M B"
  shows "hm_find h k M = Some (hd (filter (\<lambda>n. key M n = k) (B ! bucket_of h k) @ [NULL]))"
proof -
  let ?i = "bucket_of h k"
  have s: "0 < hm_table_size h" and r: "ring (links M) (hm_table h ! ?i) (B ! ?i)"
    using B bucket_less [of h k] by (auto simp: hm_buckets_def)
  show ?thesis
  proof (cases "B ! ?i = []")
    case True
    then show ?thesis using r s by (simp add: hm_find_def hm_find_at_def hm_index_bucket)
  next
    case False
    then show ?thesis
      using hm_find_loop_result [of M "hm_table h ! ?i" "[]" "B ! ?i" k] r s dlist_hd [OF r False]
      by (auto simp: hm_find_def hm_find_at_def hm_index_bucket Let_def)
  qed
qed

lemma UN_set_nth: "\<Union> (set ` set B) = (\<Union>i<length B. set (B ! i))"
proof -
  have "set B = (!) B ` {..<length B}" by (auto simp: image_iff in_set_conv_nth)
  then show ?thesis by simp
qed

lemma hm_bucketD:
  assumes "hm_buckets h M B" "i < hm_table_size h"
  shows "ring (links M) (hm_table h ! i) (B ! i)" "n \<in> set (B ! i) \<Longrightarrow> bucket_of h (key M n) = i"
    "set (B ! i) \<subseteq> \<Union> (set ` set B)"
  using assms by (auto simp: hm_buckets_def UN_set_nth)

lemma hm_buckets_disjoint:
  assumes "hm_buckets h M B" "i < hm_table_size h" "j < hm_table_size h" "i \<noteq> j"
  shows "set (B ! i) \<inter> set (B ! j) = {}"
  using hm_bucketD(2) [OF assms(1,2)] hm_bucketD(2) [OF assms(1,3)] assms(4) by blast

lemma hm_buckets_update:
  assumes B: "hm_buckets h M B" and i: "i < hm_table_size h"
    and new: "ring l head xs" "\<forall>n\<in>set xs. bucket_of h (key M n) = i"
    and others: "\<And>j. j < hm_table_size h \<Longrightarrow> j \<noteq> i \<Longrightarrow> ring l (hm_table h ! j) (B ! j)"
  shows "hm_buckets (h\<lparr>hm_table := (hm_table h)[i := head]\<rparr>) (M\<lparr>links := l\<rparr>) (B[i := xs])"
  using assms by (auto simp: hm_buckets_def nth_list_update bucket_of_def)

lemma hm_buckets_update_nodes:
  assumes B: "hm_buckets h M B" and i: "i < hm_table_size h"
  shows "\<Union> (set ` set (B[i := xs])) = set xs \<union> (\<Union> (set ` set B) - set (B ! i))"
proof -
  have len: "length B = hm_table_size h" using B by (simp add: hm_buckets_def)
  have same: "j = i" if "j < hm_table_size h" "x \<in> set (B ! j)" "x \<in> set (B ! i)" for x j
    using hm_bucketD(2) [OF B that(1,2)] hm_bucketD(2) [OF B i that(3)] by simp
  have "\<Union> (set ` set (B[i := xs])) = set xs \<union> (\<Union>j\<in>{..<hm_table_size h} - {i}. set (B ! j))"
    unfolding UN_set_nth using i len by (auto simp: nth_list_update split: if_splits)
  also have "(\<Union>j\<in>{..<hm_table_size h} - {i}. set (B ! j)) = \<Union> (set ` set B) - set (B ! i)"
    using i len same unfolding UN_set_nth by auto
  finally show ?thesis .
qed

lemma hm_insert_rep:
  assumes rep: "hm_rep h M S" and n: "n \<notin> S" "n \<noteq> NULL" "key M n \<notin> key M ` S"
  shows "\<exists>h' l. hm_insert h n M = Some (h', M\<lparr>links := l\<rparr>) \<and> hm_rep h' (M\<lparr>links := l\<rparr>) (insert n S) \<and>
    (\<forall>f :: link_heap \<Rightarrow> 'x. unobserved link_ops (insert n S) f \<longrightarrow> f l = f (links M))"
proof -
  obtain B where B: "hm_buckets h M B" and S: "S = \<Union> (set ` set B)"
    using rep by (auto simp: hm_rep_def)
  let ?i = "bucket_of h (key M n)"
  have s: "0 < hm_table_size h" and i: "?i < hm_table_size h"
    using B bucket_less [of h] by (auto simp: hm_buckets_def)
  note r = hm_bucketD(1) [OF B i] and iS = hm_bucketD(3) [OF B i, folded S]
  have nB: "n \<notin> set (B ! j)" if "j < hm_table_size h" for j
    using n(1) hm_bucketD(3) [OF B that] S by blast
  obtain l where l: "intrusive_list_push_back link_ops (hm_table h ! ?i) n (links M) = Some (n, l)"
      "ring l n (n # B ! ?i)"
    using lh.push_back_as_head [OF r n(2)] nB [OF i] by blast
  have others: "ring l (hm_table h ! j) (B ! j)" if j: "j < hm_table_size h" "j \<noteq> ?i" for j
  proof -
    have "insert n (set (B ! ?i)) \<inter> set (B ! j) = {}"
      using hm_buckets_disjoint [OF B i j(1)] j nB [OF j(1)] by auto
    then show ?thesis
      using lh.push_back_frame [OF r l(1) unobserved_ring [of _ "B ! j" "hm_table h ! j"]]
        hm_bucketD(1) [OF B j(1)] by simp
  qed
  have B': "hm_buckets (h\<lparr>hm_table := (hm_table h)[?i := n]\<rparr>) (M\<lparr>links := l\<rparr>) (B[?i := n # B ! ?i])"
    by (rule hm_buckets_update [OF B i l(2) _ others]) (use hm_bucketD(2) [OF B i] in auto)
  have "\<Union> (set ` set (B[?i := n # B ! ?i])) = insert n S"
    using iS unfolding hm_buckets_update_nodes [OF B i] S [symmetric] by auto
  then have "hm_rep (h\<lparr>hm_table := (hm_table h)[?i := n]\<rparr>) (M\<lparr>links := l\<rparr>) (insert n S)"
    unfolding hm_rep_def using B' rep n
    by (intro conjI exI [of _ "B[?i := n # B ! ?i]"]) (auto simp: hm_rep_def)
  moreover have "hm_insert h n M = Some (h\<lparr>hm_table := (hm_table h)[?i := n]\<rparr>, M\<lparr>links := l\<rparr>)"
    using l(1) s by (simp add: hm_insert_def hm_index_bucket)
  moreover have "f l = f (links M)" if "unobserved link_ops (insert n S) f" for f :: "link_heap \<Rightarrow> 'x"
    by (rule lh.push_back_frame [OF r l(1) unobserved_subset [OF that]]) (use iS in auto)
  ultimately show ?thesis by blast
qed

lemma hm_remove_rep:
  assumes rep: "hm_rep h M S" and n: "n \<in> S"
  shows "\<exists>h' l. hm_remove h n M = Some (h', M\<lparr>links := l\<rparr>) \<and> hm_rep h' (M\<lparr>links := l\<rparr>) (S - {n}) \<and>
    (\<forall>f :: link_heap \<Rightarrow> 'x. unobserved link_ops S f \<longrightarrow> f l = f (links M))"
proof -
  obtain B where B: "hm_buckets h M B" and S: "S = \<Union> (set ` set B)"
    using rep by (auto simp: hm_rep_def)
  let ?i = "bucket_of h (key M n)"
  have s: "0 < hm_table_size h" and i: "?i < hm_table_size h"
    using B bucket_less [of h] by (auto simp: hm_buckets_def)
  note r = hm_bucketD(1) [OF B i] and iS = hm_bucketD(3) [OF B i, folded S]
  have nB: "n \<in> set (B ! ?i)" using n hm_buckets_member [OF B] S by simp
  have dist: "distinct (B ! ?i)" using lh.dlist_distinct [OF r] .
  obtain head l where l: "intrusive_list_delete link_ops (hm_table h ! ?i) n (links M) = (head, l)"
    by fastforce
  have others: "ring l (hm_table h ! j) (B ! j)" if j: "j < hm_table_size h" "j \<noteq> ?i" for j
    using lh.delete_frame [OF r nB l unobserved_ring [of _ "B ! j" "hm_table h ! j"]]
      hm_buckets_disjoint [OF B i j(1)] j hm_bucketD(1) [OF B j(1)] by auto
  have B': "hm_buckets (h\<lparr>hm_table := (hm_table h)[?i := head]\<rparr>) (M\<lparr>links := l\<rparr>)
      (B[?i := remove1 n (B ! ?i)])"
    by (rule hm_buckets_update [OF B i lh.delete_correct [OF r nB l] _ others])
      (use hm_bucketD(2) [OF B i] dist in auto)
  have "\<Union> (set ` set (B[?i := remove1 n (B ! ?i)])) = S - {n}"
    using iS nB dist unfolding hm_buckets_update_nodes [OF B i] S [symmetric] by auto
  then have "hm_rep (h\<lparr>hm_table := (hm_table h)[?i := head]\<rparr>) (M\<lparr>links := l\<rparr>) (S - {n})"
    unfolding hm_rep_def using B' rep
    by (intro conjI exI [of _ "B[?i := remove1 n (B ! ?i)]"]) (auto simp: hm_rep_def inj_on_diff)
  moreover have "hm_remove h n M = Some (h\<lparr>hm_table := (hm_table h)[?i := head]\<rparr>, M\<lparr>links := l\<rparr>)"
    using l s by (simp add: hm_remove_def hm_index_bucket)
  moreover have "f l = f (links M)" if "unobserved link_ops S f" for f :: "link_heap \<Rightarrow> 'x"
    by (rule lh.delete_frame [OF r nB l unobserved_subset [OF that]]) (use iS in auto)
  ultimately show ?thesis by blast
qed

lemma hm_rep_NULL: "hm_rep h M S \<Longrightarrow> NULL \<notin> S"
proof
  assume rep: "hm_rep h M S" "NULL \<in> S"
  then obtain B i where "hm_buckets h M B" "i < hm_table_size h" "NULL \<in> set (B ! i)"
    by (auto simp: hm_rep_def UN_set_nth) (auto simp: hm_buckets_def)
  then show False using hm_bucketD(1) [of h M B i] by (auto simp: dlist_def split: if_splits)
qed

lemma hd_filter_eq: "n \<in> set xs \<Longrightarrow> hd (filter (\<lambda>x. x = n) xs @ ys) = n"
  by (induction xs) auto

lemma hm_find_in:
  assumes rep: "hm_rep h M S" and n: "n \<in> S"
  shows "hm_find h (key M n) M = Some n"
proof -
  obtain B where B: "hm_buckets h M B" and S: "S = \<Union> (set ` set B)" and inj: "inj_on (key M) S"
    using rep by (auto simp: hm_rep_def)
  let ?i = "bucket_of h (key M n)"
  have i: "?i < hm_table_size h" using B bucket_less [of h] by (auto simp: hm_buckets_def)
  note sub = hm_bucketD(3) [OF B i, folded S]
  have nB: "n \<in> set (B ! ?i)" using n hm_buckets_member [OF B] S by simp
  have "key M x = key M n \<longleftrightarrow> x = n" if "x \<in> set (B ! ?i)" for x
    using inj n sub that by (auto simp: inj_on_def)
  then have "filter (\<lambda>x. key M x = key M n) (B ! ?i) = filter (\<lambda>x. x = n) (B ! ?i)"
    by (auto cong: filter_cong)
  moreover have "hd (filter (\<lambda>x. x = n) (B ! ?i) @ [NULL]) = n"
    using nB by (rule hd_filter_eq)
  ultimately show ?thesis using hm_find_buckets [OF B] by simp
qed

lemma hm_find_out:
  assumes rep: "hm_rep h M S" and k: "k \<notin> key M ` S"
  shows "hm_find h k M = Some NULL"
proof -
  obtain B where B: "hm_buckets h M B" and S: "S = \<Union> (set ` set B)"
    using rep by (auto simp: hm_rep_def)
  have i: "bucket_of h k < hm_table_size h" using B bucket_less [of h] by (auto simp: hm_buckets_def)
  have "filter (\<lambda>n. key M n = k) (B ! bucket_of h k) = []"
    using k hm_bucketD(3) [OF B i, folded S] by (auto simp: filter_empty_conv)
  then show ?thesis using hm_find_buckets [OF B] by simp
qed

lemma hm_rep_new:
  assumes "0 < n"
  shows "hm_rep (hash_map_new n f) M {}"
proof -
  have "hm_buckets (hash_map_new n f) M (replicate n [])"
    using assms by (auto simp: hm_buckets_def hash_map_new_def)
  moreover have "\<Union> (set ` set (replicate n [])) = {}" by auto
  ultimately show ?thesis unfolding hm_rep_def by (metis inj_on_empty)
qed

subsection \<open>The interface\<close>

locale node_map =
  fixes rep :: "'h \<Rightarrow> 'm \<Rightarrow> ptr set \<Rightarrow> bool"
    and key_of :: "'m \<Rightarrow> ptr \<Rightarrow> 'k"
    and lookup :: "'h \<Rightarrow> 'k \<Rightarrow> 'm \<Rightarrow> ptr option"
    and ins :: "'h \<Rightarrow> ptr \<Rightarrow> 'm \<Rightarrow> ('h \<times> 'm) option"
    and del :: "'h \<Rightarrow> ptr \<Rightarrow> 'm \<Rightarrow> ('h \<times> 'm) option"
  assumes rep_NULL: "rep h m S \<Longrightarrow> NULL \<notin> S"
    and rep_inj: "rep h m S \<Longrightarrow> inj_on (key_of m) S"
    and lookup_in: "rep h m S \<Longrightarrow> n \<in> S \<Longrightarrow> lookup h (key_of m n) m = Some n"
    and lookup_out: "rep h m S \<Longrightarrow> k \<notin> key_of m ` S \<Longrightarrow> lookup h k m = Some NULL"
    and ins_rep: "rep h m S \<Longrightarrow> n \<notin> S \<Longrightarrow> n \<noteq> NULL \<Longrightarrow> key_of m n \<notin> key_of m ` S \<Longrightarrow>
      \<exists>h' m'. ins h n m = Some (h', m') \<and> rep h' m' (insert n S) \<and> key_of m' = key_of m"
    and del_rep: "rep h m S \<Longrightarrow> n \<in> S \<Longrightarrow>
      \<exists>h' m'. del h n m = Some (h', m') \<and> rep h' m' (S - {n}) \<and> key_of m' = key_of m"
begin

lemma lookup_cases:
  assumes "rep h m S"
  shows "\<exists>p. lookup h k m = Some p \<and> (p \<noteq> NULL \<longrightarrow> p \<in> S \<and> key_of m p = k) \<and>
    (p = NULL \<longrightarrow> k \<notin> key_of m ` S)"
proof (cases "k \<in> key_of m ` S")
  case True
  then obtain n where "n \<in> S" "k = key_of m n" by blast
  then show ?thesis using lookup_in [OF assms] rep_NULL [OF assms] by metis
next
  case False
  then show ?thesis using lookup_out [OF assms] by blast
qed

lemma lookup_after_ins:
  assumes "rep h m S" "n \<notin> S" "n \<noteq> NULL" "key_of m n \<notin> key_of m ` S" "ins h n m = Some (h', m')"
  shows "lookup h' k m' = (if k = key_of m n then Some n else lookup h k m)"
proof -
  have r: "rep h' m' (insert n S)" and k': "key_of m' = key_of m"
    using ins_rep [OF assms(1-4)] assms(5) by auto
  show ?thesis
  proof (cases "k \<in> key_of m ` insert n S")
    case True
    then obtain x where x: "x \<in> insert n S" "k = key_of m x" by blast
    then have "lookup h' k m' = Some x" using lookup_in [OF r x(1)] k' by simp
    moreover have "k \<noteq> key_of m n" if "x \<noteq> n" using x that assms(4) by (metis imageI insertE)
    ultimately show ?thesis using x lookup_in [OF assms(1), of x] by (cases "x = n") auto
  next
    case False
    then show ?thesis using lookup_out [OF r, of k] lookup_out [OF assms(1), of k] k' by auto
  qed
qed

lemma lookup_after_del:
  assumes "rep h m S" "n \<in> S" "del h n m = Some (h', m')"
  shows "lookup h' k m' = (if k = key_of m n then Some NULL else lookup h k m)"
proof -
  have r: "rep h' m' (S - {n})" and k': "key_of m' = key_of m"
    using del_rep [OF assms(1,2)] assms(3) by auto
  have inj: "inj_on (key_of m) S" using rep_inj [OF assms(1)] .
  show ?thesis
  proof (cases "k \<in> key_of m ` (S - {n})")
    case True
    then obtain x where x: "x \<in> S - {n}" "k = key_of m x" by blast
    then show ?thesis
      using lookup_in [OF r x(1)] lookup_in [OF assms(1), of x] k' inj assms(2)
      by (auto simp: inj_on_def)
  next
    case False
    moreover have "k \<notin> key_of m ` S" if "k \<noteq> key_of m n" using False that by auto
    ultimately show ?thesis using lookup_out [OF r, of k] lookup_out [OF assms(1), of k] k' by auto
  qed
qed

lemma ins_del:
  assumes "rep h m S" "n \<notin> S" "n \<noteq> NULL" "key_of m n \<notin> key_of m ` S"
  shows "\<exists>h1 m1 h2 m2. ins h n m = Some (h1, m1) \<and> del h1 n m1 = Some (h2, m2) \<and> rep h2 m2 S"
proof -
  obtain h1 m1 where i: "ins h n m = Some (h1, m1)" "rep h1 m1 (insert n S)"
    using ins_rep [OF assms] by blast
  then obtain h2 m2 where "del h1 n m1 = Some (h2, m2)" "rep h2 m2 (insert n S - {n})"
    using del_rep [OF i(2), of n] by blast
  then show ?thesis using i assms(2) by auto
qed

end

interpretation hm: node_map hm_rep key hm_find hm_insert hm_remove
proof unfold_locales
  fix h :: "'a hash_map" and M :: "('a, 'b) hm_mem_scheme" and S n k
  assume r: "hm_rep h M S"
  show "NULL \<notin> S" by (rule hm_rep_NULL [OF r])
  show "inj_on (key M) S" using r by (simp add: hm_rep_def)
  show "n \<in> S \<Longrightarrow> hm_find h (key M n) M = Some n" by (rule hm_find_in [OF r])
  show "k \<notin> key M ` S \<Longrightarrow> hm_find h k M = Some NULL" by (rule hm_find_out [OF r])
  show "n \<notin> S \<Longrightarrow> n \<noteq> NULL \<Longrightarrow> key M n \<notin> key M ` S \<Longrightarrow>
      \<exists>h' M'. hm_insert h n M = Some (h', M') \<and> hm_rep h' M' (insert n S) \<and> key M' = key M"
    using hm_insert_rep [OF r, of n] by fastforce
  show "n \<in> S \<Longrightarrow> \<exists>h' M'. hm_remove h n M = Some (h', M') \<and> hm_rep h' M' (S - {n}) \<and> key M' = key M"
    using hm_remove_rep [OF r, of n] by fastforce
qed

subsection \<open>The pooled map\<close>

text \<open>
  The pool is an array of entries at \<open>pm_pool\<close>; \<open>pm_entry_size\<close> is the size of \<open>entry_t\<close> and
  \<open>pm_node_offset\<close> the offset of its node, both fixed by the value type.  An entry is
  named by the address of its node.
\<close>

record 'k pooled_hash_map =
  pm_map :: "'k hash_map"
  pm_pool_size :: nat
  pm_pool :: ptr
  pm_pool_head :: ptr
  pm_entry_size :: u64
  pm_node_offset :: u64

record ('k, 'v) pool_mem = "'k hm_mem" +
  entry_value :: "ptr \<Rightarrow> 'v"

definition pool_node :: "'k pooled_hash_map \<Rightarrow> nat \<Rightarrow> ptr" where
  "pool_node p i = pm_pool p + of_nat i * pm_entry_size p + pm_node_offset p"

primrec pool_fill ::
  "'k pooled_hash_map \<Rightarrow> nat \<Rightarrow> ('k, 'v) pool_mem \<Rightarrow> ('k pooled_hash_map \<times> ('k, 'v) pool_mem) option" where
  "pool_fill p 0 M = Some (p, M)"
| "pool_fill p (Suc i) M = do {
     (p, M) \<leftarrow> pool_fill p i M;
     (_, l) \<leftarrow> intrusive_list_init link_ops (pool_node p i) (links M);
     (head, l) \<leftarrow> intrusive_list_push_back link_ops (pm_pool_head p) (pool_node p i) l;
     Some (p\<lparr>pm_pool_head := head\<rparr>, M\<lparr>links := l\<rparr>)
   }"

definition pooled_hash_map_new ::
  "nat \<Rightarrow> nat \<Rightarrow> ('k \<Rightarrow> u64) \<Rightarrow> ptr \<Rightarrow> u64 \<Rightarrow> u64 \<Rightarrow> ('k, 'v) pool_mem \<Rightarrow>
    ('k pooled_hash_map \<times> ('k, 'v) pool_mem) option" where
  "pooled_hash_map_new pool_size table_size hash_func pool esize off M =
     pool_fill \<lparr>pm_map = hash_map_new table_size hash_func, pm_pool_size = pool_size, pm_pool = pool,
       pm_pool_head = NULL, pm_entry_size = esize, pm_node_offset = off\<rparr> pool_size M"

primrec pool_unlink :: "'k pooled_hash_map \<Rightarrow> nat \<Rightarrow> ('k, 'v) pool_mem \<Rightarrow> ('k, 'v) pool_mem" where
  "pool_unlink p 0 M = M"
| "pool_unlink p (Suc i) M =
     (let M = pool_unlink p i M
      in M\<lparr>links := intrusive_list_unlink_node link_ops (pool_node p i) (links M)\<rparr>)"

definition pooled_hash_map_destroy :: "'k pooled_hash_map \<Rightarrow> ('k, 'v) pool_mem \<Rightarrow> ('k, 'v) pool_mem" where
  "pooled_hash_map_destroy p M = pool_unlink p (pm_pool_size p) M"

definition pooled_insert ::
  "'k pooled_hash_map \<Rightarrow> 'k \<Rightarrow> 'v \<Rightarrow> ('k, 'v) pool_mem \<Rightarrow>
    (ptr \<times> 'k pooled_hash_map \<times> ('k, 'v) pool_mem) option" where
  "pooled_insert p k v M =
     (if pm_pool_head p = NULL then Some (NULL, p, M)
      else do {
        let new_item = pm_pool_head p;
        let M = M\<lparr>entry_value := (entry_value M)(new_item := v)\<rparr>;
        let M = M\<lparr>key := (key M)(new_item := k)\<rparr>;
        let (head, l) = intrusive_list_delete link_ops (pm_pool_head p) new_item (links M);
        let p = p\<lparr>pm_pool_head := head\<rparr>;
        (h, M) \<leftarrow> hm_insert (pm_map p) new_item (M\<lparr>links := l\<rparr>);
        Some (new_item, p\<lparr>pm_map := h\<rparr>, M)
      })"

definition pooled_remove_node ::
  "'k pooled_hash_map \<Rightarrow> ptr \<Rightarrow> ('k, 'v) pool_mem \<Rightarrow> ('k pooled_hash_map \<times> ('k, 'v) pool_mem) option" where
  "pooled_remove_node p node M = do {
     (h, M) \<leftarrow> hm_remove (pm_map p) node M;
     let p = p\<lparr>pm_map := h\<rparr>;
     if pm_pool p \<le> node \<and> node < pm_pool p + of_nat (pm_pool_size p) * pm_entry_size p then do {
       (head, l) \<leftarrow> intrusive_list_push_back link_ops (pm_pool_head p) node (links M);
       Some (p\<lparr>pm_pool_head := head\<rparr>, M\<lparr>links := l\<rparr>)
     } else Some (p, M)
   }"

definition pooled_remove ::
  "'k pooled_hash_map \<Rightarrow> 'k \<Rightarrow> ('k, 'v) pool_mem \<Rightarrow> ('k pooled_hash_map \<times> ('k, 'v) pool_mem) option" where
  "pooled_remove p k M = do {
     node \<leftarrow> hm_find (pm_map p) k M;
     if node \<noteq> NULL then pooled_remove_node p node M else Some (p, M)
   }"

definition pool_nodes :: "'k pooled_hash_map \<Rightarrow> ptr set" where
  "pool_nodes p = pool_node p ` {..<pm_pool_size p}"

text \<open>
  A pool as the allocator hands it out: the array does not wrap, a node lies inside its entry
  and address 0 is not among the nodes.
\<close>

definition pool_layout :: "'k pooled_hash_map \<Rightarrow> bool" where
  "pool_layout p \<longleftrightarrow> 0 < unat (pm_pool p) \<and> unat (pm_node_offset p) < unat (pm_entry_size p) \<and>
     unat (pm_pool p) + pm_pool_size p * unat (pm_entry_size p) < 2 ^ 64"

definition pooled_rep :: "'k pooled_hash_map \<Rightarrow> ('k, 'v) pool_mem \<Rightarrow> ptr set \<Rightarrow> bool" where
  "pooled_rep p M S \<longleftrightarrow> pool_layout p \<and> hm_rep (pm_map p) M S \<and>
     (\<exists>P. ring (links M) (pm_pool_head p) P \<and> set P \<inter> S = {} \<and> set P \<union> S = pool_nodes p)"

lemma unat_pool_node:
  assumes "pool_layout p" "i < pm_pool_size p"
  shows "unat (pool_node p i) =
    unat (pm_pool p) + i * unat (pm_entry_size p) + unat (pm_node_offset p)"
proof -
  let ?n = "unat (pm_pool p) + i * unat (pm_entry_size p) + unat (pm_node_offset p)"
  have "Suc i * unat (pm_entry_size p) \<le> pm_pool_size p * unat (pm_entry_size p)"
    using assms(2) by (intro mult_le_mono1) simp
  then have "?n < 2 ^ 64" using assms(1) by (simp add: pool_layout_def)
  moreover have "pool_node p i = of_nat ?n" by (simp add: pool_node_def)
  ultimately show ?thesis by (simp only: unat_of_nat64)
qed

lemma pool_node_range:
  assumes "pool_layout p" "n \<in> pool_nodes p"
  shows "pm_pool p \<le> n \<and> n < pm_pool p + of_nat (pm_pool_size p) * pm_entry_size p" "n \<noteq> NULL"
proof -
  obtain i where i: "i < pm_pool_size p" "n = pool_node p i" using assms(2) by (auto simp: pool_nodes_def)
  note u = unat_pool_node [OF assms(1) i(1), folded i(2)]
  let ?e = "unat (pm_entry_size p)"
  have "Suc i * ?e \<le> pm_pool_size p * ?e" using i by (intro mult_le_mono1) simp
  then have lt: "unat n < unat (pm_pool p) + pm_pool_size p * ?e"
    using u assms(1) by (simp add: pool_layout_def)
  have "pm_pool p + of_nat (pm_pool_size p) * pm_entry_size p =
      of_nat (unat (pm_pool p) + pm_pool_size p * ?e)" by simp
  then have "unat (pm_pool p + of_nat (pm_pool_size p) * pm_entry_size p) =
      unat (pm_pool p) + pm_pool_size p * ?e"
    using assms(1) unat_of_nat64 by (simp only: pool_layout_def)
  then show "pm_pool p \<le> n \<and> n < pm_pool p + of_nat (pm_pool_size p) * pm_entry_size p"
    using lt u by (simp add: word_le_nat_alt word_less_nat_alt)
  show "n \<noteq> NULL" using u assms(1) by (auto simp: pool_layout_def)
qed

lemma inj_pool_node:
  assumes "pool_layout p"
  shows "inj_on (pool_node p) {..<pm_pool_size p}"
proof (rule inj_onI)
  fix i j assume ij: "i \<in> {..<pm_pool_size p}" "j \<in> {..<pm_pool_size p}" "pool_node p i = pool_node p j"
  then have "i * unat (pm_entry_size p) = j * unat (pm_entry_size p)"
    using unat_pool_node [OF assms, of i] unat_pool_node [OF assms, of j] by (metis add_left_cancel add_right_cancel lessThan_iff)
  moreover have "0 < unat (pm_entry_size p)" using assms unfolding pool_layout_def by linarith
  ultimately show "i = j" by simp
qed

lemma pool_fill_correct:
  assumes "pool_layout p" "n \<le> pm_pool_size p" "pm_pool_head p = NULL"
  shows "\<exists>head l P. pool_fill p n M = Some (p\<lparr>pm_pool_head := head\<rparr>, M\<lparr>links := l\<rparr>) \<and>
    ring l head P \<and> set P = pool_node p ` {..<n}"
  using assms(2)
proof (induction n)
  case 0
  then show ?case using assms(3)
    by (intro exI [of _ NULL] exI [of _ "links M"] exI [of _ "[]"]) simp
next
  case (Suc n)
  then obtain head l P where IH: "pool_fill p n M = Some (p\<lparr>pm_pool_head := head\<rparr>, M\<lparr>links := l\<rparr>)"
      "ring l head P" "set P = pool_node p ` {..<n}" by auto
  let ?n = "pool_node p n"
  have nn: "?n \<noteq> NULL" using pool_node_range(2) [OF assms(1), of ?n] Suc.prems by (auto simp: pool_nodes_def)
  have nP: "?n \<notin> set P" 
    using inj_onD [OF inj_pool_node [OF assms(1)], of n] Suc.prems IH(3) by fastforce
  obtain l1 where l1: "intrusive_list_init link_ops ?n l = Some (?n, l1)"
    using lh.init_correct [OF nn] by blast
  have "ring l1 head P" using lh.init_frame [OF l1 unobserved_ring [of _ P head]] nP IH(2) by auto
  then obtain l2 where l2: "intrusive_list_push_back link_ops head ?n l1 = Some (?n, l2)" "ring l2 ?n (?n # P)"
    using lh.push_back_as_head [of l1 head P ?n] nn nP by blast
  have "pool_node (p\<lparr>pm_pool_head := head\<rparr>) n = ?n" by (simp add: pool_node_def)
  then have "pool_fill p (Suc n) M = Some (p\<lparr>pm_pool_head := ?n\<rparr>, M\<lparr>links := l2\<rparr>)"
    using IH(1) l1 l2(1) by simp
  moreover have "set (?n # P) = pool_node p ` {..<Suc n}" using IH(3) by (auto simp: lessThan_Suc)
  ultimately show ?case using l2(2) by blast
qed

lemma pooled_new_rep:
  assumes "0 < table_size"
    and "0 < unat pool" "unat off < unat esize" "unat pool + pool_size * unat esize < 2 ^ 64"
  shows "\<exists>p M'. pooled_hash_map_new pool_size table_size f pool esize off M = Some (p, M') \<and>
    pooled_rep p M' {} \<and> pm_pool_size p = pool_size"
proof -
  let ?p = "\<lparr>pm_map = hash_map_new table_size f, pm_pool_size = pool_size, pm_pool = pool,
       pm_pool_head = NULL, pm_entry_size = esize, pm_node_offset = off\<rparr>"
  have lay: "pool_layout ?p" using assms by (simp add: pool_layout_def)
  obtain head l P where f: "pool_fill ?p pool_size M = Some (?p\<lparr>pm_pool_head := head\<rparr>, M\<lparr>links := l\<rparr>)"
      "ring l head P" "set P = pool_node ?p ` {..<pool_size}"
    using pool_fill_correct [OF lay, of pool_size M] by auto
  have "pooled_rep (?p\<lparr>pm_pool_head := head\<rparr>) (M\<lparr>links := l\<rparr>) {}"
    using lay f(2,3) hm_rep_new [OF assms(1)]
    by (auto simp: pooled_rep_def pool_layout_def pool_nodes_def pool_node_def)
  then show ?thesis using f(1) by (auto simp: pooled_hash_map_new_def)
qed

lemma hm_rep_key_update:
  assumes rep: "hm_rep h M S" and n: "n \<notin> S"
  shows "hm_rep h (M\<lparr>key := (key M)(n := k)\<rparr>) S"
proof -
  obtain B where B: "hm_buckets h M B" and S: "S = \<Union> (set ` set B)" and inj: "inj_on (key M) S"
    using rep by (auto simp: hm_rep_def)
  have "x \<noteq> n" if "i < hm_table_size h" "x \<in> set (B ! i)" for x i
    using hm_bucketD(3) [OF B that(1)] that(2) n S by blast
  then have "hm_buckets h (M\<lparr>key := (key M)(n := k)\<rparr>) B"
    using B by (auto simp: hm_buckets_def)
  moreover have "inj_on (key (M\<lparr>key := (key M)(n := k)\<rparr>)) S"
    using inj n by (auto simp: inj_on_def)
  ultimately show ?thesis using S by (auto simp: hm_rep_def)
qed

lemma hm_rep_links:
  assumes rep: "hm_rep h M S"
    and same: "\<And>head ys. set ys \<subseteq> S \<Longrightarrow> ring (links M) head ys \<Longrightarrow> ring l head ys"
  shows "hm_rep h (M\<lparr>links := l\<rparr>) S"
proof -
  obtain B where B: "hm_buckets h M B" and S: "S = \<Union> (set ` set B)" and inj: "inj_on (key M) S"
    using rep by (auto simp: hm_rep_def)
  have "ring l (hm_table h ! i) (B ! i)" if "i < hm_table_size h" for i
    using same [OF hm_bucketD(3) [OF B that, folded S] hm_bucketD(1) [OF B that]] .
  then have "hm_buckets h (M\<lparr>links := l\<rparr>) B" using B by (auto simp: hm_buckets_def)
  then show ?thesis using S inj by (auto simp: hm_rep_def)
qed

lemma hm_rep_value [simp]: "hm_rep h (M\<lparr>entry_value := v\<rparr>) S = hm_rep h M S"
  by (simp add: hm_rep_def hm_buckets_def)

lemma pooled_insert_full:
  assumes "pooled_rep p M S" "S = pool_nodes p"
  shows "pooled_insert p k v M = Some (NULL, p, M)"
proof -
  obtain P where "ring (links M) (pm_pool_head p) P" "set P \<inter> S = {}" "set P \<union> S = pool_nodes p"
    using assms(1) by (auto simp: pooled_rep_def)
  then have "pm_pool_head p = NULL" using assms(2) by (cases P) auto
  then show ?thesis by (simp add: pooled_insert_def)
qed

lemma pooled_insert_rep:
  assumes rep: "pooled_rep p M S" and room: "S \<noteq> pool_nodes p" and k: "k \<notin> key M ` S"
  shows "\<exists>n p' M'. pooled_insert p k v M = Some (n, p', M') \<and> n \<in> pool_nodes p - S \<and>
    pooled_rep p' M' (insert n S) \<and> key M' = (key M)(n := k) \<and>
    entry_value M' = (entry_value M)(n := v) \<and> pool_nodes p' = pool_nodes p"
proof -
  obtain P where P: "ring (links M) (pm_pool_head p) P" "set P \<inter> S = {}" "set P \<union> S = pool_nodes p"
    and lay: "pool_layout p" and hm: "hm_rep (pm_map p) M S"
    using rep by (auto simp: pooled_rep_def)
  have ne: "P \<noteq> []" using P(3) room by auto
  define n where "n = pm_pool_head p"
  obtain Q where Q: "P = n # Q" using dlist_hd [OF P(1) ne] ne by (cases P) (auto simp: n_def)
  have nn: "n \<in> set P" "n \<noteq> NULL" "n \<notin> S" "distinct P"
    using Q P(2) dlist_hd [OF P(1) ne] lh.dlist_distinct [OF P(1)] by (auto simp: n_def)
  obtain head l where d: "intrusive_list_delete link_ops n n (links M) = (head, l)" by fastforce
  note d' = d [unfolded n_def]
  have l: "ring l head Q" using lh.delete_correct [OF P(1) nn(1)] d Q by (simp add: n_def)
  let ?M1 = "M\<lparr>entry_value := (entry_value M)(n := v), key := (key M)(n := k), links := l\<rparr>"
  have hm1: "hm_rep (pm_map p) (M\<lparr>links := l\<rparr>) S"
  proof (rule hm_rep_links [OF hm])
    fix h ys assume ys: "set ys \<subseteq> S" "ring (links M) h ys"
    have "set P \<inter> set ys = {}" using P(2) ys(1) by blast
    then show "ring l h ys"
      using lh.delete_frame [OF P(1) nn(1) _ unobserved_ring [of "set P" ys h]] d ys(2)
      by (simp add: n_def)
  qed
  have "hm_rep (pm_map p) ?M1 S"
    using hm_rep_key_update [OF hm1 nn(3), of k] by (simp add: hm_rep_def hm_buckets_def)
  moreover have "key ?M1 n \<notin> key ?M1 ` S" using k nn(3) by auto
  ultimately obtain h' l' where i: "hm_insert (pm_map p) n ?M1 = Some (h', ?M1\<lparr>links := l'\<rparr>)"
      "hm_rep h' (?M1\<lparr>links := l'\<rparr>) (insert n S)"
      "\<forall>f :: link_heap \<Rightarrow> bool. unobserved link_ops (insert n S) f \<longrightarrow> f l' = f l"
    using hm_insert_rep [of "pm_map p" ?M1 S n] nn by auto
  have lQ: "ring l' head Q"
    using i(3) unobserved_ring [of "insert n S" Q head] l Q nn(4) P(2) by auto
  let ?p = "p\<lparr>pm_pool_head := head, pm_map := h'\<rparr>" and ?M2 = "?M1\<lparr>links := l'\<rparr>"
  have "pooled_insert p k v M = Some (n, ?p, ?M2)"
    using nn(2) d i(1) by (simp add: pooled_insert_def n_def Let_def)
  moreover have nodes: "pool_nodes ?p = pool_nodes p" by (simp add: pool_nodes_def pool_node_def)
  moreover have "pooled_rep ?p ?M2 (insert n S)"
    using lay i(2) lQ Q P nn(4) unfolding pooled_rep_def nodes
    by (auto simp: pool_layout_def intro!: exI [of _ Q])
  ultimately show ?thesis using nn P(3) by auto
qed

lemma pooled_remove_node_rep:
  assumes rep: "pooled_rep p M S" and n: "n \<in> S"
  shows "\<exists>p' M'. pooled_remove_node p n M = Some (p', M') \<and> pooled_rep p' M' (S - {n}) \<and>
    key M' = key M \<and> entry_value M' = entry_value M \<and> pool_nodes p' = pool_nodes p"
proof -
  obtain P where P: "ring (links M) (pm_pool_head p) P" "set P \<inter> S = {}" "set P \<union> S = pool_nodes p"
    and lay: "pool_layout p" and hm: "hm_rep (pm_map p) M S"
    using rep by (auto simp: pooled_rep_def)
  obtain h' l where r: "hm_remove (pm_map p) n M = Some (h', M\<lparr>links := l\<rparr>)"
      "hm_rep h' (M\<lparr>links := l\<rparr>) (S - {n})"
      "\<forall>f :: link_heap \<Rightarrow> bool. unobserved link_ops S f \<longrightarrow> f l = f (links M)"
    using hm_remove_rep [OF hm n] by blast
  have P1: "ring l (pm_pool_head p) P"
    using r(3) unobserved_ring [of S P "pm_pool_head p"] P(1,2) by auto
  have nP: "n \<notin> set P" "n \<in> pool_nodes p" using n P by auto
  note range = pool_node_range [OF lay nP(2)]
  obtain l' where l': "intrusive_list_push_back link_ops (pm_pool_head p) n l = Some (n, l')"
      "ring l' n (n # P)"
    using lh.push_back_as_head [OF P1 range(2)] nP by blast
  have "hm_rep h' (M\<lparr>links := l\<rparr>\<lparr>links := l'\<rparr>) (S - {n})"
  proof (rule hm_rep_links [OF r(2)])
    fix h ys assume ys: "set ys \<subseteq> S - {n}" "ring (links (M\<lparr>links := l\<rparr>)) h ys"
    have "insert n (set P) \<inter> set ys = {}" using ys(1) P(2) by blast
    then show "ring l' h ys" using lh.push_back_frame [OF P1 l'(1) unobserved_ring [of _ ys h]] ys(2) by simp
  qed
  moreover let ?p = "p\<lparr>pm_map := h', pm_pool_head := n\<rparr>"
  have nodes: "pool_nodes ?p = pool_nodes p" by (simp add: pool_nodes_def pool_node_def)
  ultimately have "pooled_rep ?p (M\<lparr>links := l'\<rparr>) (S - {n})"
    using lay l'(2) P n unfolding pooled_rep_def nodes
    by (auto simp: pool_layout_def intro!: exI [of _ "n # P"])
  moreover have "pooled_remove_node p n M = Some (?p, M\<lparr>links := l'\<rparr>)"
    using r(1) l'(1) range(1) by (simp add: pooled_remove_node_def)
  ultimately show ?thesis using nodes by auto
qed

lemma card_pool_nodes: "pool_layout p \<Longrightarrow> card (pool_nodes p) = pm_pool_size p"
  by (simp add: pool_nodes_def card_image inj_pool_node)

subsection \<open>Properties\<close>

text \<open>
  A lookup always returns: the node with the key when the map holds one, NULL otherwise.
\<close>

theorem hash_map_find:
  assumes "hm_rep h M S"
  shows "\<exists>p. hm_find h k M = Some p \<and> (p \<noteq> NULL \<longrightarrow> p \<in> S \<and> key M p = k) \<and>
    (p = NULL \<longrightarrow> k \<notin> key M ` S)"
  by (rule hm.lookup_cases [OF assms])

theorem hash_map_find_witness:
  "hm_find (hash_map_new 4 (\<lambda>k. k)) 7 \<lparr>links = two_nodes, key = (\<lambda>p. p)\<rparr> = Some NULL"
  using hash_map_find [OF hm_rep_new [of 4 "\<lambda>k. k" "\<lparr>links = two_nodes, key = (\<lambda>p. p)\<rparr>"], of 7] by auto

text \<open>
  C24. After the insertion of a node with a new key a lookup of its key finds it and a lookup of any
  other key finds what it found before; removing it again restores the map.
\<close>

theorem hash_map_insert:
  assumes "hm_rep h M S" "n \<notin> S" "n \<noteq> NULL" "key M n \<notin> key M ` S"
  shows "\<exists>h' M'. hm_insert h n M = Some (h', M') \<and>
    (\<forall>k. hm_find h' k M' = (if k = key M n then Some n else hm_find h k M)) \<and>
    (\<exists>h'' M''. hm_remove h' n M' = Some (h'', M'') \<and> hm_rep h'' M'' S)"
  using hm.ins_del [OF assms] hm.lookup_after_ins [OF assms] by metis

theorem hash_map_insert_witness:
  "\<exists>h' M'. hm_insert (hash_map_new 4 (\<lambda>k. k)) 0x30 \<lparr>links = two_nodes, key = (\<lambda>p. 7)\<rparr> = Some (h', M') \<and>
    hm_find h' 7 M' = Some 0x30 \<and> hm_find h' 3 M' = Some NULL"
  using hash_map_insert [OF hm_rep_new [of 4 "\<lambda>k. k" "\<lparr>links = two_nodes, key = (\<lambda>p. 7)\<rparr>"], of "0x30"]
    hm_find_out [OF hm_rep_new [of 4 "\<lambda>k. k" "\<lparr>links = two_nodes, key = (\<lambda>p. 7 :: u64)\<rparr>"], of 3]
  by fastforce

text \<open>
  A pooled map accepts an insertion of a new key exactly while fewer entries than the pool has
  are in use.  The entry comes from the pool, holds key and value, and leaves all other entries
  alone; an exhausted pool answers NULL and changes nothing.
\<close>

theorem pooled_insert_capacity:
  assumes rep: "pooled_rep p M S" and k: "k \<notin> key M ` S"
  shows "if card S < pm_pool_size p
    then \<exists>n p' M'. pooled_insert p k v M = Some (n, p', M') \<and> n \<notin> S \<and> pooled_rep p' M' (insert n S) \<and>
      key M' = (key M)(n := k) \<and> entry_value M' = (entry_value M)(n := v)
    else pooled_insert p k v M = Some (NULL, p, M)"
proof -
  have lay: "pool_layout p" and sub: "S \<subseteq> pool_nodes p" using rep by (auto simp: pooled_rep_def)
  have "finite (pool_nodes p)" by (simp add: pool_nodes_def)
  then have room: "card S < pm_pool_size p \<longleftrightarrow> S \<noteq> pool_nodes p"
    using card_pool_nodes [OF lay] sub psubset_card_mono [of "pool_nodes p" S] by auto
  show ?thesis
  proof (cases "S = pool_nodes p")
    case True
    then show ?thesis using room pooled_insert_full [OF rep] by simp
  next
    case False
    then show ?thesis using room pooled_insert_rep [OF rep False k, of v] by auto
  qed
qed

theorem pooled_insert_capacity_witness:
  "\<exists>p M. pooled_hash_map_new 2 4 (\<lambda>k. k) 0x1000 64 8
      \<lparr>links = two_nodes, key = (\<lambda>p. 0), entry_value = (\<lambda>p. 0 :: nat)\<rparr> = Some (p, M) \<and>
    (\<exists>n p' M'. pooled_insert p 5 9 M = Some (n, p', M') \<and> entry_value M' n = 9)"
proof -
  obtain p M where n: "pooled_hash_map_new 2 4 (\<lambda>k. k) 0x1000 64 8
      \<lparr>links = two_nodes, key = (\<lambda>p. 0), entry_value = (\<lambda>p. 0 :: nat)\<rparr> = Some (p, M)"
      "pooled_rep p M {}" "pm_pool_size p = 2"
    using pooled_new_rep [of 4 "0x1000" 8 64 2 "\<lambda>k. k"
        "\<lparr>links = two_nodes, key = (\<lambda>p. 0), entry_value = (\<lambda>p. 0 :: nat)\<rparr>"] by auto
  then show ?thesis using pooled_insert_capacity [OF n(2), of 5 9] by fastforce
qed

text \<open>
  Removal by key from a pooled map: an entry with the key leaves the map and its node returns to
  the pool; when there is none nothing changes.  Keys and values of all entries stay.
\<close>

theorem pooled_remove_correct:
  assumes rep: "pooled_rep p M S"
  shows "\<exists>p' M'. pooled_remove p k M = Some (p', M') \<and> pooled_rep p' M' {n \<in> S. key M n \<noteq> k} \<and>
    key M' = key M \<and> entry_value M' = entry_value M"
proof -
  have hm: "hm_rep (pm_map p) M S" using rep by (auto simp: pooled_rep_def)
  show ?thesis
  proof (cases "k \<in> key M ` S")
    case True
    then obtain n where n: "n \<in> S" "k = key M n" by blast
    have "{x \<in> S. key M x \<noteq> k} = S - {n}" using n hm.rep_inj [OF hm] by (auto simp: inj_on_def)
    then show ?thesis
      using pooled_remove_node_rep [OF rep n(1)] hm_find_in [OF hm n(1)] hm_rep_NULL [OF hm] n
      by (auto simp: pooled_remove_def)
  next
    case False
    then have "{x \<in> S. key M x \<noteq> k} = S" by auto
    then show ?thesis using hm_find_out [OF hm False] rep by (auto simp: pooled_remove_def)
  qed
qed

theorem pooled_remove_correct_witness:
  "\<exists>p M p' M'. pooled_hash_map_new 2 4 (\<lambda>k. k) 0x1000 64 8
      \<lparr>links = two_nodes, key = (\<lambda>p. 0), entry_value = (\<lambda>p. 0 :: nat)\<rparr> = Some (p, M) \<and>
    pooled_remove p 5 M = Some (p', M') \<and> pooled_rep p' M' {}"
proof -
  obtain p M where n: "pooled_hash_map_new 2 4 (\<lambda>k. k) 0x1000 64 8
      \<lparr>links = two_nodes, key = (\<lambda>p. 0), entry_value = (\<lambda>p. 0 :: nat)\<rparr> = Some (p, M)"
      "pooled_rep p M {}"
    using pooled_new_rep [of 4 "0x1000" 8 64 2 "\<lambda>k. k"
        "\<lparr>links = two_nodes, key = (\<lambda>p. 0), entry_value = (\<lambda>p. 0 :: nat)\<rparr>"] by auto
  then show ?thesis using pooled_remove_correct [OF n(2), of 5] by fastforce
qed

end
