(* ===== verification/Kvmclock.thy ===== *)
theory Kvmclock
  imports Otrix_Prelude
begin

text \<open>
  The paravirtual clock of arch/x86_64/kvmclock.cpp.

  The hypervisor writes the two shared structures while the guest reads them.  Their content is a
  function of time, \<open>nat \<Rightarrow> pvclock_vcpu_time_info\<close> and \<open>nat \<Rightarrow> pvclock_wall_clock\<close>, a parameter of the
  model; every volatile read is one tick.  The retry loops are partial functions: they
  do not return while the version keeps changing.  The documented protocol of the hypervisor
  (\<open>pv_protocol\<close>) is that versions never decrease and that the fields do not change between two
  moments with the same even version.

  The inline assembly is written out at its width: \<open>mulq; shrd $32\<close> is bits 32 to 95 of the 128-bit
  product, \<open>shld; shl; divq\<close> divides the 96-bit \<open>ns * 2 ^ 32\<close> and traps (\<^const>\<open>None\<close>) when the
  divisor is 0 or the quotient does not fit 64 bits.
\<close>

record pvclock_wall_clock =
  wc_version :: u32
  wc_sec :: u32
  wc_nsec :: u32

record pvclock_vcpu_time_info =
  ti_version :: u32
  ti_tsc_timestamp :: u64
  ti_system_time :: u64
  ti_tsc_to_system_mul :: u32
  ti_tsc_shift :: "8 word"

datatype clock_event = Wrmsr u32 u64

definition MSR_KVM_WALL_CLOCK_NEW :: u32 where
  "MSR_KVM_WALL_CLOCK_NEW = 0x4b564d00"

definition MSR_KVM_SYSTEM_TIME_NEW :: u32 where
  "MSR_KVM_SYSTEM_TIME_NEW = 0x4b564d01"

text \<open>
  \<open>cpuid\<close> gives the four registers for a leaf and subleaf; \<open>wall\<close> and \<open>info\<close> are the addresses of
  the two structures.  The result is the return value and the MSR writes in order.
\<close>

definition kvmclock_init ::
  "(u32 \<Rightarrow> u32 \<Rightarrow> u32 \<times> u32 \<times> u32 \<times> u32) \<Rightarrow> ptr \<Rightarrow> ptr \<Rightarrow> bool \<times> clock_event list" where
  "kvmclock_init cpuid wall info =
     (let (eax, ebx, ecx, edx) = cpuid 0x40000000 0 in
      if ebx \<noteq> 0x4b4d564b \<or> ecx \<noteq> 0x564b4d56 \<or> edx \<noteq> 0x4d then (False, [])
      else let (eax, ebx, ecx, edx) = cpuid eax 0 in
      if eax AND push_bit 3 1 = 0 then (False, [])
      else (True, [Wrmsr MSR_KVM_WALL_CLOCK_NEW wall, Wrmsr MSR_KVM_SYSTEM_TIME_NEW (info OR 1)]))"

text \<open>\<open>boottime_ns\<close>: the arithmetic is that of \<open>uint32_t\<close>, widened for the return.\<close>

partial_function (option) wall_clock_read ::
  "(nat \<Rightarrow> pvclock_wall_clock) \<Rightarrow> nat \<Rightarrow> (u32 \<times> u32) option" where
  "wall_clock_read w t =
     (let version = wc_version (w t);
          sec = wc_sec (w (t + 1));
          nsec = wc_nsec (w (t + 2))
      in if wc_version (w (t + 3)) AND 1 \<noteq> 0 \<or> wc_version (w (t + 4)) \<noteq> version
         then wall_clock_read w (t + 5) else Some (sec, nsec))"

definition boottime_ns ::
  "ptr \<Rightarrow> (nat \<Rightarrow> pvclock_wall_clock) \<Rightarrow> nat \<Rightarrow> (u64 \<times> clock_event list) option" where
  "boottime_ns wall w t = do {
     let ev = [Wrmsr MSR_KVM_WALL_CLOCK_NEW wall];
     (sec, nsec) \<leftarrow> wall_clock_read w t;
     Some (ucast (sec * 1000 + nsec div 1000000), ev)
   }"

partial_function (option) scale_read ::
  "(nat \<Rightarrow> pvclock_vcpu_time_info) \<Rightarrow> nat \<Rightarrow> (u32 \<times> 8 word) option" where
  "scale_read p t =
     (let version = ti_version (p t);
          mul = ti_tsc_to_system_mul (p (t + 1));
          shift = ti_tsc_shift (p (t + 2))
      in if ti_version (p (t + 3)) AND 1 \<noteq> 0 \<or> ti_version (p (t + 4)) \<noteq> version
         then scale_read p (t + 5) else Some (mul, shift))"

definition shift_up :: "8 word \<Rightarrow> u64 \<Rightarrow> u64" where
  "shift_up shift x =
     (if sint shift < 0 then drop_bit (nat (- sint shift)) x else push_bit (nat (sint shift)) x)"

definition shift_down :: "8 word \<Rightarrow> u64 \<Rightarrow> u64" where
  "shift_down shift x =
     (if sint shift < 0 then push_bit (nat (- sint shift)) x else drop_bit (nat (sint shift)) x)"

definition div_mul_fraq :: "u32 \<Rightarrow> u64 \<Rightarrow> u64 option" where
  "div_mul_fraq mul ns =
     (let q = unat ns * 2 ^ 32 div unat mul
      in if unat mul = 0 \<or> 2 ^ 64 \<le> q then None else Some (of_nat q))"

definition mul_frac :: "u32 \<Rightarrow> u64 \<Rightarrow> u64" where
  "mul_frac mul x = of_nat (unat x * unat mul div 2 ^ 32)"

definition ns_to_tsc :: "(nat \<Rightarrow> pvclock_vcpu_time_info) \<Rightarrow> nat \<Rightarrow> u64 \<Rightarrow> u64 option" where
  "ns_to_tsc p t ns = do {
     (mul, shift) \<leftarrow> scale_read p t;
     ns \<leftarrow> div_mul_fraq mul ns;
     Some (shift_down shift ns)
   }"

partial_function (option) time_info_read ::
  "(nat \<Rightarrow> pvclock_vcpu_time_info) \<Rightarrow> nat \<Rightarrow> (u64 \<times> u64 \<times> u32 \<times> 8 word) option" where
  "time_info_read p t =
     (let version = ti_version (p t);
          tsc_timestamp = ti_tsc_timestamp (p (t + 1));
          system_time = ti_system_time (p (t + 2));
          mul = ti_tsc_to_system_mul (p (t + 3));
          shift = ti_tsc_shift (p (t + 4))
      in if ti_version (p (t + 5)) AND 1 \<noteq> 0 \<or> ti_version (p (t + 6)) \<noteq> version
         then time_info_read p (t + 7) else Some (tsc_timestamp, system_time, mul, shift))"

definition systime_ns :: "(nat \<Rightarrow> pvclock_vcpu_time_info) \<Rightarrow> nat \<Rightarrow> u64 \<Rightarrow> u64 option" where
  "systime_ns p t current_tsc = do {
     (tsc_timestamp, system_time, mul, shift) \<leftarrow> time_info_read p t;
     let time = shift_up shift (current_tsc - tsc_timestamp);
     Some (mul_frac mul time + system_time)
   }"

definition systime_us :: "(nat \<Rightarrow> pvclock_vcpu_time_info) \<Rightarrow> nat \<Rightarrow> u64 \<Rightarrow> u64 option" where
  "systime_us p t current_tsc = map_option (\<lambda>ns. ns div 1000) (systime_ns p t current_tsc)"

definition systime_ms :: "(nat \<Rightarrow> pvclock_vcpu_time_info) \<Rightarrow> nat \<Rightarrow> u64 \<Rightarrow> u64 option" where
  "systime_ms p t current_tsc = map_option (\<lambda>ns. ns div 1000000) (systime_ns p t current_tsc)"

subsection \<open>Consistent reads\<close>

definition pv_protocol :: "(nat \<Rightarrow> pvclock_vcpu_time_info) \<Rightarrow> bool" where
  "pv_protocol p \<longleftrightarrow>
     (\<forall>s t. s \<le> t \<longrightarrow> ti_version (p s) \<le> ti_version (p t)) \<and>
     (\<forall>s t. ti_version (p s) = ti_version (p t) \<and> ti_version (p s) AND 1 = 0 \<longrightarrow> p s = p t)"

lemma pv_stable:
  assumes pv: "pv_protocol p" and st: "s \<le> t" "ti_version (p t) = ti_version (p s)"
    and even: "r \<in> {s..t}" "ti_version (p r) AND 1 = 0" and u: "u \<in> {s..t}"
  shows "p u = p s" "ti_version (p s) AND 1 = 0"
proof -
  have mono: "ti_version (p a) \<le> ti_version (p b)" if "a \<le> b" for a b
    using pv that unfolding pv_protocol_def by blast
  have eq: "p a = p b" if "ti_version (p a) = ti_version (p b)" "ti_version (p a) AND 1 = 0" for a b
    using pv that unfolding pv_protocol_def by blast
  have v: "ti_version (p w) = ti_version (p s)" if "w \<in> {s..t}" for w
    using mono [of s w] mono [of w t] that st(2) by simp
  show e: "ti_version (p s) AND 1 = 0" using v [OF even(1)] even(2) by simp
  show "p u = p s" by (rule eq) (use v [OF u] e in simp_all)
qed

lemma time_info_read_consistent:
  assumes pv: "pv_protocol p" and r: "time_info_read p t = Some r"
  shows "\<exists>u\<ge>t. ti_version (p u) AND 1 = 0 \<and>
    r = (ti_tsc_timestamp (p u), ti_system_time (p u), ti_tsc_to_system_mul (p u), ti_tsc_shift (p u))"
proof -
  let ?fields = "\<lambda>x. (ti_tsc_timestamp x, ti_system_time x, ti_tsc_to_system_mul x, ti_tsc_shift x)"
  have "p = p \<longrightarrow> (\<exists>u\<ge>t. ti_version (p u) AND 1 = 0 \<and> r = ?fields (p u))"
  proof (rule time_info_read.raw_induct
      [where P = "\<lambda>q t r. q = p \<longrightarrow> (\<exists>u\<ge>t. ti_version (p u) AND 1 = 0 \<and> r = ?fields (p u))", OF _ r])
    fix f q t r
    assume IH: "\<And>q t r. f q t = Some r \<Longrightarrow>
          q = p \<longrightarrow> (\<exists>u\<ge>t. ti_version (p u) AND 1 = 0 \<and> r = ?fields (p u))"
      and step: "(let version = ti_version (q t); tsc_timestamp = ti_tsc_timestamp (q (t + 1));
          system_time = ti_system_time (q (t + 2)); mul = ti_tsc_to_system_mul (q (t + 3));
          shift = ti_tsc_shift (q (t + 4))
        in if ti_version (q (t + 5)) AND 1 \<noteq> 0 \<or> ti_version (q (t + 6)) \<noteq> version then f q (t + 7)
           else Some (tsc_timestamp, system_time, mul, shift)) = Some r"
    show "q = p \<longrightarrow> (\<exists>u\<ge>t. ti_version (p u) AND 1 = 0 \<and> r = ?fields (p u))"
    proof
      assume q: "q = p"
      show "\<exists>u\<ge>t. ti_version (p u) AND 1 = 0 \<and> r = ?fields (p u)"
      proof (cases "ti_version (p (t + 5)) AND 1 = 0 \<and> ti_version (p (t + 6)) = ti_version (p t)")
        case True
        have "p w = p t" "ti_version (p t) AND 1 = 0" if "w \<in> {t..t + 6}" for w
          by (rule pv_stable [OF pv, of t "t + 6" "t + 5"]; use True that in simp)+
        from this [of "t + 1"] this [of "t + 2"] this [of "t + 3"] this [of "t + 4"]
        have "p (t + 1) = p t" "p (t + 2) = p t" "p (t + 3) = p t" "p (t + 4) = p t"
          "ti_version (p t) AND 1 = 0" by simp_all
        moreover have "r = (ti_tsc_timestamp (p (t + 1)), ti_system_time (p (t + 2)),
            ti_tsc_to_system_mul (p (t + 3)), ti_tsc_shift (p (t + 4)))"
          using step True q by (simp add: Let_def)
        ultimately show ?thesis by (intro exI [of _ t]) simp
      next
        case False
        then have "f p (t + 7) = Some r" using step q by (auto simp: Let_def)
        then obtain u where "u \<ge> t + 7" "ti_version (p u) AND 1 = 0" "r = ?fields (p u)"
          using IH by blast
        then show ?thesis by (intro exI [of _ u]) simp
      qed
    qed
  qed
  then show ?thesis by simp
qed

lemma time_info_read_returns:
  assumes "\<And>s. T \<le> s \<Longrightarrow> p s = p T" "ti_version (p T) AND 1 = 0"
  shows "\<exists>r. time_info_read p t = Some r"
proof (induction "T - t" arbitrary: t rule: less_induct)
  case less
  show ?case
  proof (cases "T \<le> t")
    case True
    then show ?thesis
      using assms(1) [of t] assms(1) [of "t + 5"] assms(1) [of "t + 6"] assms(2)
      by (subst time_info_read.simps) (simp add: Let_def)
  next
    case False
    then have "T - (t + 7) < T - t" by simp
    then obtain a b c d where "time_info_read p (t + 7) = Some (a, b, c, d)"
      using less [of "t + 7"] by (metis prod_cases4)
    then show ?thesis by (subst time_info_read.simps) (simp add: Let_def)
  qed
qed

lemma mul_frac_div:
  assumes "div_mul_fraq mul ns = Some tsc"
  shows "unat (mul_frac mul tsc) \<le> unat ns \<and> unat ns \<le> unat (mul_frac mul tsc) + 1"
proof -
  let ?m = "unat mul" and ?q = "unat ns * 2 ^ 32 div unat mul"
  have m: "0 < ?m" and q: "?q < 2 ^ 64" "tsc = of_nat ?q"
    using assms by (auto simp: div_mul_fraq_def Let_def split: if_splits)
  have u: "unat tsc = ?q" using q by (simp add: unat_of_nat64)
  have up: "?q * ?m \<le> unat ns * 2 ^ 32" by simp
  have "?q * ?m + unat ns * 2 ^ 32 mod ?m = unat ns * 2 ^ 32" by simp
  then have low: "unat ns * 2 ^ 32 < ?q * ?m + ?m" using mod_less_divisor [OF m] by (metis add_strict_left_mono)
  have m32: "?m < 2 ^ 32" using unat_less [of mul] by simp
  have "?q * ?m div 2 ^ 32 \<le> unat ns" using div_le_mono [OF up, of "2 ^ 32"] by simp
  moreover from this have "?q * ?m div 2 ^ 32 < 2 ^ 64" using unat_less64 [of ns] by linarith
  then have "unat (mul_frac mul tsc) = ?q * ?m div 2 ^ 32" by (simp add: mul_frac_def u unat_of_nat64)
  moreover have "unat ns \<le> ?q * ?m div 2 ^ 32 + 1"
  proof (rule ccontr)
    assume "\<not> ?thesis"
    then have "(?q * ?m div 2 ^ 32 + 2) * 2 ^ 32 \<le> unat ns * 2 ^ 32" by (intro mult_le_mono1) simp
    moreover have "?q * ?m < (?q * ?m div 2 ^ 32 + 1) * 2 ^ 32"
      using div_mult_mod_eq [of "?q * ?m" "2 ^ 32"] mod_less_divisor [of "2 ^ 32" "?q * ?m"]
      by (simp add: algebra_simps del: div_mult_mod_eq mod_less_divisor)
    ultimately show False using low m32 by simp
  qed
  ultimately show ?thesis by simp
qed

subsection \<open>Properties\<close>

text \<open>
  C36. When the hypervisor follows the version protocol, the system time is computed from the fields
  of one published record, never from a mix of two; and the read returns once the hypervisor
  leaves the record alone.
\<close>

theorem systime_consistent:
  assumes "pv_protocol p"
  shows "(\<forall>r. systime_ns p t tsc = Some r \<longrightarrow> (\<exists>u\<ge>t. ti_version (p u) AND 1 = 0 \<and>
      r = mul_frac (ti_tsc_to_system_mul (p u))
            (shift_up (ti_tsc_shift (p u)) (tsc - ti_tsc_timestamp (p u))) + ti_system_time (p u))) \<and>
    ((\<exists>T. ti_version (p T) AND 1 = 0 \<and> (\<forall>s\<ge>T. p s = p T)) \<longrightarrow> systime_ns p t tsc \<noteq> None)"
proof (intro conjI allI impI)
  fix r assume "systime_ns p t tsc = Some r"
  then obtain a b c d where f: "time_info_read p t = Some (a, b, c, d)"
      "r = mul_frac c (shift_up d (tsc - a)) + b"
    by (auto simp: systime_ns_def Let_def bind_eq_Some_conv)
  then show "\<exists>u\<ge>t. ti_version (p u) AND 1 = 0 \<and>
      r = mul_frac (ti_tsc_to_system_mul (p u))
            (shift_up (ti_tsc_shift (p u)) (tsc - ti_tsc_timestamp (p u))) + ti_system_time (p u)"
    using time_info_read_consistent [OF assms f(1)] by auto
next
  assume "\<exists>T. ti_version (p T) AND 1 = 0 \<and> (\<forall>s\<ge>T. p s = p T)"
  then obtain T where T: "\<And>s. T \<le> s \<Longrightarrow> p s = p T" "ti_version (p T) AND 1 = 0" by blast
  obtain a b c d where "time_info_read p t = Some (a, b, c, d)"
    using time_info_read_returns [of T p t, OF T] by (metis prod_cases4)
  then show "systime_ns p t tsc \<noteq> None" by (simp add: systime_ns_def Let_def)
qed

theorem systime_consistent_witness:
  "pv_protocol (\<lambda>_. \<lparr>ti_version = 2, ti_tsc_timestamp = 100, ti_system_time = 7,
      ti_tsc_to_system_mul = 0x80000000, ti_tsc_shift = 1\<rparr>) \<and>
   systime_ns (\<lambda>_. \<lparr>ti_version = 2, ti_tsc_timestamp = 100, ti_system_time = 7,
      ti_tsc_to_system_mul = 0x80000000, ti_tsc_shift = 1\<rparr>) 0 150 \<noteq> None"
proof -
  let ?p = "\<lambda>_ :: nat. \<lparr>ti_version = 2, ti_tsc_timestamp = 100, ti_system_time = 7,
      ti_tsc_to_system_mul = 0x80000000, ti_tsc_shift = 1\<rparr>"
  have pv: "pv_protocol ?p" by (simp add: pv_protocol_def)
  then show ?thesis using systime_consistent [OF pv, of 0 150] by simp
qed

text \<open>
  The conversion from nanoseconds to TSC ticks inverts the scaling of the system time: scaling
  the ticks back loses at most one nanosecond.
\<close>

theorem ns_to_tsc_inverts:
  assumes "div_mul_fraq mul ns = Some tsc"
  shows "unat (mul_frac mul tsc) \<le> unat ns \<and> unat ns \<le> unat (mul_frac mul tsc) + 1"
  by (rule mul_frac_div [OF assms])

theorem ns_to_tsc_inverts_witness:
  "unat (mul_frac 0xaaaaaaab 14) \<le> 10 \<and> 10 \<le> unat (mul_frac 0xaaaaaaab 14) + 1"
  using ns_to_tsc_inverts [of "0xaaaaaaab" 10 14] by (simp add: div_mul_fraq_def)

text \<open>
  The boot time is not in nanoseconds: it is seconds times 1000 plus milliseconds, computed modulo
  \<open>2 ^ 32\<close>.
\<close>

theorem boottime_wraps:
  assumes "w t = \<lparr>wc_version = v, wc_sec = sec, wc_nsec = nsec\<rparr>" "v AND 1 = 0" "\<And>s. t \<le> s \<Longrightarrow> w s = w t"
  shows "\<exists>r. boottime_ns wall w t = Some (r, [Wrmsr MSR_KVM_WALL_CLOCK_NEW wall]) \<and>
    unat r = (unat sec * 1000 + unat nsec div 1000000) mod 2 ^ 32"
proof -
  have "wall_clock_read w t = Some (sec, nsec)"
    using assms(1,2) assms(3) [of "t + 1"] assms(3) [of "t + 2"] assms(3) [of "t + 3"] assms(3) [of "t + 4"]
    by (subst wall_clock_read.simps) (simp add: Let_def)
  moreover have "unat (ucast (sec * 1000 + nsec div 1000000) :: u64) =
      (unat sec * 1000 + unat nsec div 1000000) mod 2 ^ 32"
    by (simp add: unat_ucast32 unat_word_ariths unat_div mod_simps)
  ultimately show ?thesis by (simp add: boottime_ns_def)
qed

theorem boottime_wraps_witness:
  "\<exists>r. boottime_ns 0x1000 (\<lambda>_. \<lparr>wc_version = 2, wc_sec = 1700000000, wc_nsec = 5000000\<rparr>) 0 =
      Some (r, [Wrmsr MSR_KVM_WALL_CLOCK_NEW 0x1000]) \<and> unat r = 3487918085"
  using boottime_wraps [of "\<lambda>_. \<lparr>wc_version = 2, wc_sec = 1700000000, wc_nsec = 5000000\<rparr>" 0] by simp

end
