(* ===== verification/Scheduler.thy ===== *)
theory Scheduler
  imports Intrusive_List Kvmclock
begin

text \<open>
  The thread scheduler of kernel/kthread.cpp and kernel/include/kernel/kthread.hpp.

  A thread is named by the address of its list node (\<open>KTHREAD_PTR\<close> recovers the object from it); the
  fields of the node and of the thread are maps of the state record.  All operations run with interrupts
  disabled, so each is one atomic step up to the context switch that ends it; the switch is
  recorded as an event.  A use of a NULL thread pointer and an index outside the priority
  queues are faults: \<^const>\<open>None\<close>.  The time stamp counter is hardware: a sequence of readings
  (\<open>tsc_counter\<close>), consumed one by one.
\<close>

subsection \<open>State\<close>

datatype kthread_state =
    KTHREAD_STATE_ZOMBIE | KTHREAD_STATE_ACTIVE | KTHREAD_STATE_RUNNABLE | KTHREAD_STATE_BLOCKED

datatype sched_event = Start_timer u64 | Context_switch ptr ptr

record scheduler =
  runnable_queues :: "ptr list"
  blocked_queues :: "ptr list"
  current_thread :: ptr
  need_resched :: bool
  nearest_tsc_deadline :: u64
  preempt_count :: int
  sched_links :: link_heap
  thread_priority :: "ptr \<Rightarrow> nat"
  thread_state :: "ptr \<Rightarrow> kthread_state"
  thread_deadline :: "ptr \<Rightarrow> u64"
  tsc_counter :: "nat \<Rightarrow> u64"
  tsc_reads :: nat
  events :: "sched_event list"

definition NUM_PRIORITIES :: nat where
  "NUM_PRIORITIES = 10"

abbreviation NO_DEADLINE :: u64 where
  "NO_DEADLINE \<equiv> - 1"

definition arch_tsc :: "'z scheduler_scheme \<Rightarrow> u64 \<times> 'z scheduler_scheme" where
  "arch_tsc s = (tsc_counter s (tsc_reads s), s\<lparr>tsc_reads := tsc_reads s + 1\<rparr>)"

definition emit :: "sched_event \<Rightarrow> 'z scheduler_scheme \<Rightarrow> 'z scheduler_scheme" where
  "emit e s = s\<lparr>events := events s @ [e]\<rparr>"

definition queue_index :: "'z scheduler_scheme \<Rightarrow> ptr \<Rightarrow> nat option" where
  "queue_index s thread =
     (if thread_priority s thread < NUM_PRIORITIES then Some (thread_priority s thread) else None)"

definition KTHREAD_PTR :: "ptr \<Rightarrow> ptr option" where
  "KTHREAD_PTR list_ptr = (if list_ptr = NULL then None else Some list_ptr)"

subsection \<open>Operations\<close>

definition kthread_create :: "ptr \<Rightarrow> nat \<Rightarrow> 'z scheduler_scheme \<Rightarrow> 'z scheduler_scheme option" where
  "kthread_create thread priority s = do {
     (_, l) \<leftarrow> intrusive_list_init link_ops thread (sched_links s);
     Some (s\<lparr>sched_links := l, thread_priority := (thread_priority s)(thread := priority),
       thread_deadline := (thread_deadline s)(thread := 0),
       thread_state := (thread_state s)(thread := KTHREAD_STATE_ZOMBIE)\<rparr>)
   }"

definition add_thread :: "ptr \<Rightarrow> 'z scheduler_scheme \<Rightarrow> (kerror_t \<times> 'z scheduler_scheme) option" where
  "add_thread thread s =
     (if thread = NULL then Some (E_INVAL, s)
      else do {
        prio \<leftarrow> queue_index s thread;
        let s = s\<lparr>thread_state := (thread_state s)(thread := KTHREAD_STATE_RUNNABLE)\<rparr>;
        (head, l) \<leftarrow> intrusive_list_push_back link_ops (runnable_queues s ! prio) thread (sched_links s);
        let s = s\<lparr>runnable_queues := (runnable_queues s)[prio := head], sched_links := l\<rparr>;
        let s = (if current_thread s \<noteq> NULL \<and> thread_priority s (current_thread s) < prio
                 then s\<lparr>need_resched := True\<rparr> else s);
        Some (E_OK, s)
      })"

definition remove_thread :: "ptr \<Rightarrow> 'z scheduler_scheme \<Rightarrow> (kerror_t \<times> 'z scheduler_scheme) option" where
  "remove_thread thread s =
     (if thread = NULL then Some (E_INVAL, s)
      else do {
        prio \<leftarrow> queue_index s thread;
        let s = s\<lparr>thread_state := (thread_state s)(thread := KTHREAD_STATE_ZOMBIE)\<rparr>;
        let (head, l) = intrusive_list_delete link_ops (runnable_queues s ! prio) thread (sched_links s);
        Some (E_OK, s\<lparr>runnable_queues := (runnable_queues s)[prio := head], sched_links := l\<rparr>)
      })"

definition kthread_destroy :: "ptr \<Rightarrow> 'z scheduler_scheme \<Rightarrow> 'z scheduler_scheme option" where
  "kthread_destroy thread s = map_option snd (remove_thread thread s)"

definition scheduler_init :: "ptr \<Rightarrow> 'z scheduler_scheme \<Rightarrow> 'z scheduler_scheme option" where
  "scheduler_init idle s = do {
     s \<leftarrow> kthread_create idle 0 s;
     let s = s\<lparr>current_thread := NULL, need_resched := False, nearest_tsc_deadline := NO_DEADLINE,
       preempt_count := 0, runnable_queues := replicate NUM_PRIORITIES NULL,
       blocked_queues := replicate NUM_PRIORITIES NULL\<rparr>;
     (_, s) \<leftarrow> add_thread idle s;
     Some (s\<lparr>current_thread := idle\<rparr>)
   }"

primrec select_thread :: "nat \<Rightarrow> 'z scheduler_scheme \<Rightarrow> (nat \<times> ptr) option" where
  "select_thread 0 s = None"
| "select_thread (Suc prio) s =
     (let current = runnable_queues s ! prio
      in if current \<noteq> NULL then Some (prio, current) else select_thread prio s)"

definition schedule :: "'z scheduler_scheme \<Rightarrow> (kerror_t \<times> 'z scheduler_scheme) option" where
  "schedule s =
     (if preempt_count s > 0 then Some (E_OK, s)
      else do {
        let s = s\<lparr>need_resched := False\<rparr>;
        let prev_thread = current_thread s;
        (prio, current) \<leftarrow> select_thread NUM_PRIORITIES s;
        let s = s\<lparr>current_thread := current\<rparr>;
        let s = s\<lparr>thread_state := (thread_state s)(current := KTHREAD_STATE_ACTIVE)\<rparr>;
        let s = s\<lparr>runnable_queues :=
          (runnable_queues s)[prio := rd_next link_ops (sched_links s) (runnable_queues s ! prio)]\<rparr>;
        Some (E_OK, emit (Context_switch prev_thread current) s)
      })"

definition sleep_until :: "u64 \<Rightarrow> 'z scheduler_scheme \<Rightarrow> (kerror_t \<times> 'z scheduler_scheme) option" where
  "sleep_until tsc_deadline s = do {
     thread \<leftarrow> KTHREAD_PTR (current_thread s);
     priority \<leftarrow> queue_index s thread;
     (_, s) \<leftarrow> remove_thread thread s;
     let s = s\<lparr>thread_state := (thread_state s)(thread := KTHREAD_STATE_BLOCKED)\<rparr>;
     let s = s\<lparr>thread_deadline := (thread_deadline s)(thread := tsc_deadline)\<rparr>;
     s \<leftarrow> (if tsc_deadline = NO_DEADLINE then do {
            (head, l) \<leftarrow> intrusive_list_push_back link_ops (blocked_queues s ! priority) thread (sched_links s);
            Some (s\<lparr>blocked_queues := (blocked_queues s)[priority := head], sched_links := l\<rparr>)
          } else do {
            let s = s\<lparr>nearest_tsc_deadline := min (nearest_tsc_deadline s) tsc_deadline\<rparr>;
            (head, l) \<leftarrow>
              (if blocked_queues s ! priority \<noteq> NULL
               then intrusive_list_insert_sorted link_ops (blocked_queues s ! priority) thread
                      (\<lambda>a b. thread_deadline s a > thread_deadline s b) (sched_links s)
               else intrusive_list_push_back link_ops (blocked_queues s ! priority) thread (sched_links s));
            Some (s\<lparr>blocked_queues := (blocked_queues s)[priority := head], sched_links := l\<rparr>)
          });
     let s = (if nearest_tsc_deadline s \<noteq> NO_DEADLINE
              then emit (Start_timer (nearest_tsc_deadline s)) s else s);
     (_, s) \<leftarrow> schedule s;
     Some (E_OK, s)
   }"

definition sleep ::
  "(nat \<Rightarrow> pvclock_vcpu_time_info) \<Rightarrow> nat \<Rightarrow> u64 \<Rightarrow> 'z scheduler_scheme \<Rightarrow>
    (kerror_t \<times> 'z scheduler_scheme) option" where
  "sleep clk t block_time_ms s =
     (if block_time_ms = - 1 then sleep_until (- 1) s
      else do {
        let (now, s) = arch_tsc s;
        ticks \<leftarrow> ns_to_tsc clk t (block_time_ms * 1000 * 1000);
        sleep_until (now + ticks) s
      })"

primrec setup_timer_loop :: "nat \<Rightarrow> 'z scheduler_scheme \<Rightarrow> 'z scheduler_scheme" where
  "setup_timer_loop 0 s = s"
| "setup_timer_loop (Suc p) s =
     setup_timer_loop p
       (if blocked_queues s ! p \<noteq> NULL
        then s\<lparr>nearest_tsc_deadline :=
               min (thread_deadline s (blocked_queues s ! p)) (nearest_tsc_deadline s)\<rparr>
        else s)"

definition setup_timer :: "'z scheduler_scheme \<Rightarrow> 'z scheduler_scheme" where
  "setup_timer s =
     (let s = setup_timer_loop NUM_PRIORITIES (s\<lparr>nearest_tsc_deadline := NO_DEADLINE\<rparr>)
      in if nearest_tsc_deadline s \<noteq> NO_DEADLINE
         then emit (Start_timer (nearest_tsc_deadline s)) s else s)"

definition wake :: "ptr \<Rightarrow> 'z scheduler_scheme \<Rightarrow> (kerror_t \<times> 'z scheduler_scheme) option" where
  "wake thread s =
     (if thread = NULL then None
      else if thread_state s thread \<noteq> KTHREAD_STATE_BLOCKED then Some (E_INVAL, s)
      else do {
        prio \<leftarrow> queue_index s thread;
        let (head, l) = intrusive_list_delete link_ops (blocked_queues s ! prio) thread (sched_links s);
        let s = s\<lparr>blocked_queues := (blocked_queues s)[prio := head], sched_links := l\<rparr>;
        (_, s) \<leftarrow> add_thread thread s;
        Some (E_OK, setup_timer s)
      })"

definition preempt_disable :: "'z scheduler_scheme \<Rightarrow> 'z scheduler_scheme" where
  "preempt_disable s = s\<lparr>preempt_count := preempt_count s + 1\<rparr>"

definition preempt_enable :: "bool \<Rightarrow> 'z scheduler_scheme \<Rightarrow> 'z scheduler_scheme option" where
  "preempt_enable reschedule s =
     (if preempt_count s > 0 then
        let s = s\<lparr>preempt_count := preempt_count s - 1\<rparr>
        in if 0 = preempt_count s \<and> reschedule \<and> need_resched s
           then map_option snd (schedule s) else Some s
      else Some s)"

partial_function (option) wake_expired :: "nat \<Rightarrow> 'z scheduler_scheme \<Rightarrow> 'z scheduler_scheme option" where
  "wake_expired p s =
     (if blocked_queues s ! p = NULL then Some s
      else let (now, s) = arch_tsc s
           in if thread_deadline s (blocked_queues s ! p) < now
              then do {
                (_, s) \<leftarrow> wake (blocked_queues s ! p) s;
                wake_expired p s
              } else Some s)"

primrec timer_irq_loop :: "nat \<Rightarrow> 'z scheduler_scheme \<Rightarrow> 'z scheduler_scheme option" where
  "timer_irq_loop 0 s = Some s"
| "timer_irq_loop (Suc p) s = do {
     s \<leftarrow> wake_expired p s;
     timer_irq_loop p
       (if blocked_queues s ! p \<noteq> NULL
        then s\<lparr>nearest_tsc_deadline :=
               min (thread_deadline s (blocked_queues s ! p)) (nearest_tsc_deadline s)\<rparr>
        else s)
   }"

definition handle_timer_irq :: "'z scheduler_scheme \<Rightarrow> 'z scheduler_scheme option" where
  "handle_timer_irq s = do {
     s \<leftarrow> timer_irq_loop NUM_PRIORITIES (s\<lparr>nearest_tsc_deadline := NO_DEADLINE\<rparr>);
     let s = (if nearest_tsc_deadline s \<noteq> NO_DEADLINE
              then emit (Start_timer (nearest_tsc_deadline s)) s else s);
     if need_resched s then map_option snd (schedule s) else Some s
   }"

subsection \<open>Invariant\<close>

definition sched_queues :: "'z scheduler_scheme \<Rightarrow> ptr list list \<Rightarrow> ptr list list \<Rightarrow> bool" where
  "sched_queues s R B \<longleftrightarrow>
     length R = NUM_PRIORITIES \<and> length B = NUM_PRIORITIES \<and>
     length (runnable_queues s) = NUM_PRIORITIES \<and> length (blocked_queues s) = NUM_PRIORITIES \<and>
     rings (sched_links s) (runnable_queues s @ blocked_queues s) (R @ B) \<and>
     (\<forall>i<NUM_PRIORITIES. \<forall>t\<in>set (R ! i). thread_priority s t = i \<and>
        thread_state s t \<in> {KTHREAD_STATE_RUNNABLE, KTHREAD_STATE_ACTIVE}) \<and>
     (\<forall>i<NUM_PRIORITIES. \<forall>t\<in>set (B ! i). thread_priority s t = i \<and>
        thread_state s t = KTHREAD_STATE_BLOCKED)"

definition sched_inv :: "'z scheduler_scheme \<Rightarrow> ptr list list \<Rightarrow> ptr list list \<Rightarrow> bool" where
  "sched_inv s R B \<longleftrightarrow> sched_queues s R B \<and> current_thread s \<in> set (concat R)"

lemma sched_queuesD:
  assumes "sched_queues s R B"
  shows "length R = NUM_PRIORITIES" "length B = NUM_PRIORITIES"
    "length (runnable_queues s) = NUM_PRIORITIES" "length (blocked_queues s) = NUM_PRIORITIES"
    "rings (sched_links s) (runnable_queues s @ blocked_queues s) (R @ B)"
    "i < NUM_PRIORITIES \<Longrightarrow> t \<in> set (R ! i) \<Longrightarrow> thread_priority s t = i"
    "i < NUM_PRIORITIES \<Longrightarrow> t \<in> set (R ! i) \<Longrightarrow>
      thread_state s t \<in> {KTHREAD_STATE_RUNNABLE, KTHREAD_STATE_ACTIVE}"
    "i < NUM_PRIORITIES \<Longrightarrow> t \<in> set (B ! i) \<Longrightarrow> thread_priority s t = i"
    "i < NUM_PRIORITIES \<Longrightarrow> t \<in> set (B ! i) \<Longrightarrow> thread_state s t = KTHREAD_STATE_BLOCKED"
  using assms unfolding sched_queues_def by blast+

lemma sched_runnable:
  assumes "sched_queues s R B" "i < NUM_PRIORITIES"
  shows "ring (sched_links s) (runnable_queues s ! i) (R ! i)"
  using sched_queuesD(1-5) [OF assms(1)] assms(2)
  by (auto simp: rings_def nth_append dest!: spec [of _ i])

lemma sched_blocked:
  assumes "sched_queues s R B" "i < NUM_PRIORITIES"
  shows "ring (sched_links s) (blocked_queues s ! i) (B ! i)"
  using sched_queuesD(1-5) [OF assms(1)] assms(2)
  by (auto simp: rings_def nth_append dest!: spec [of _ "NUM_PRIORITIES + i"])

lemma sched_queues_change:
  assumes q: "sched_queues s R B" and q': "length R' = NUM_PRIORITIES" "length B' = NUM_PRIORITIES"
    "length (runnable_queues s') = NUM_PRIORITIES" "length (blocked_queues s') = NUM_PRIORITIES"
    "rings (sched_links s') (runnable_queues s' @ blocked_queues s') (R' @ B')"
    and R': "\<And>i t. i < NUM_PRIORITIES \<Longrightarrow> t \<in> set (R' ! i) \<Longrightarrow> thread_priority s' t = i \<and>
        thread_state s' t \<in> {KTHREAD_STATE_RUNNABLE, KTHREAD_STATE_ACTIVE}"
    and B': "\<And>i t. i < NUM_PRIORITIES \<Longrightarrow> t \<in> set (B' ! i) \<Longrightarrow> thread_priority s' t = i \<and>
        thread_state s' t = KTHREAD_STATE_BLOCKED"
  shows "sched_queues s' R' B'"
  using assms unfolding sched_queues_def by blast

lemma in_queue_thread:
  assumes "sched_queues s R B" "i < NUM_PRIORITIES" "t \<in> set (R ! i) \<or> t \<in> set (B ! i)"
  shows "t \<noteq> NULL" "thread_priority s t = i" "queue_index s t = Some i"
proof -
  show "t \<noteq> NULL"
    using sched_runnable [OF assms(1,2)] sched_blocked [OF assms(1,2)] assms(3)
    by (auto simp: dlist_def split: if_splits)
  show "thread_priority s t = i" using assms sched_queuesD(6,8) [OF assms(1)] by blast
  then show "queue_index s t = Some i" using assms(2) by (simp add: queue_index_def)
qed

lemma add_thread_queues:
  assumes q: "sched_queues s R B" and t: "t \<noteq> NULL" "t \<notin> set (concat (R @ B))"
    and p: "thread_priority s t = p" "p < NUM_PRIORITIES"
  shows "\<exists>l. add_thread t s = Some (E_OK,
      s\<lparr>thread_state := (thread_state s)(t := KTHREAD_STATE_RUNNABLE),
        runnable_queues := (runnable_queues s)[p := t], sched_links := l,
        need_resched := need_resched s \<or>
          (current_thread s \<noteq> NULL \<and> thread_priority s (current_thread s) < p)\<rparr>) \<and>
    sched_queues (s\<lparr>thread_state := (thread_state s)(t := KTHREAD_STATE_RUNNABLE),
        runnable_queues := (runnable_queues s)[p := t], sched_links := l,
        need_resched := need_resched s \<or>
          (current_thread s \<noteq> NULL \<and> thread_priority s (current_thread s) < p)\<rparr>) (R[p := t # R ! p]) B"
    (is "\<exists>l. _ = Some (E_OK, ?s l) \<and> _")
proof -
  note d = sched_queuesD [OF q]
  have i: "p < length (R @ B)" using p d(1) by simp
  obtain l where l: "intrusive_list_push_back link_ops (runnable_queues s ! p) t (sched_links s) = Some (t, l)"
      "rings l ((runnable_queues s @ blocked_queues s)[p := t]) ((R @ B)[p := t # R ! p])"
    using rings_push_back [OF d(5) i t] d(1,3) p(2) by (auto simp: nth_append)
  have "sched_queues (?s l) (R[p := t # R ! p]) B"
  proof (rule sched_queues_change [OF q])
    show "rings (sched_links (?s l)) (runnable_queues (?s l) @ blocked_queues (?s l)) (R[p := t # R ! p] @ B)"
      using l(2) d(1,3) p(2) by (simp add: list_update_append1)
    fix i x
    assume i: "i < NUM_PRIORITIES"
    show "x \<in> set (R[p := t # R ! p] ! i) \<Longrightarrow> thread_priority (?s l) x = i \<and>
        thread_state (?s l) x \<in> {KTHREAD_STATE_RUNNABLE, KTHREAD_STATE_ACTIVE}"
      using d(1) d(6,7) [OF i, of x] p i by (auto simp: nth_list_update split: if_splits)
    assume x: "x \<in> set (B ! i)"
    then have "x \<noteq> t" using t(2) i d(2) by (auto dest: nth_mem)
    then show "thread_priority (?s l) x = i \<and> thread_state (?s l) x = KTHREAD_STATE_BLOCKED"
      using d(8,9) [OF i x] by simp
  qed (use d in simp_all)
  moreover have "add_thread t s = Some (E_OK, ?s l)"
    using t(1) p l(1) by (simp add: add_thread_def queue_index_def Let_def)
  ultimately show ?thesis by blast
qed

definition top_queue :: "ptr list list \<Rightarrow> nat \<Rightarrow> bool" where
  "top_queue R p \<longleftrightarrow> p < NUM_PRIORITIES \<and> R ! p \<noteq> [] \<and> (\<forall>j<NUM_PRIORITIES. p < j \<longrightarrow> R ! j = [])"

lemma top_queue_exists:
  assumes "i < NUM_PRIORITIES" "R ! i \<noteq> []"
  shows "\<exists>p. top_queue R p"
proof -
  let ?S = "{i. i < NUM_PRIORITIES \<and> R ! i \<noteq> []}"
  have fin: "finite ?S" "?S \<noteq> {}" using assms by auto
  then have "Max ?S \<in> ?S" by (rule Max_in)
  moreover have "R ! j = []" if "j < NUM_PRIORITIES" "Max ?S < j" for j
    using Max_ge [OF fin(1), of j] that by fastforce
  ultimately show ?thesis unfolding top_queue_def by blast
qed

lemma select_thread_correct:
  assumes q: "sched_queues s R B" and n: "n \<le> NUM_PRIORITIES" and p: "p < n" "R ! p \<noteq> []"
    and top: "\<And>j. j < n \<Longrightarrow> p < j \<Longrightarrow> R ! j = []"
  shows "select_thread n s = Some (p, hd (R ! p))"
  using n p top
proof (induction n)
  case (Suc n)
  note r = sched_runnable [OF q, of n]
  show ?case
  proof (cases "p = n")
    case True
    then show ?thesis using r Suc.prems dlist_hd [OF r] by (auto simp: Let_def)
  next
    case False
    then have "R ! n = []" using Suc.prems(2) Suc.prems(4) [of n] by simp
    then show ?thesis using r Suc False by (simp add: Let_def)
  qed
qed simp

lemma select_thread_none:
  assumes "sched_queues s R B" "\<And>j. j < NUM_PRIORITIES \<Longrightarrow> R ! j = []" "n \<le> NUM_PRIORITIES"
  shows "select_thread n s = None"
  using assms(3)
proof (induction n)
  case (Suc n)
  then show ?case using sched_runnable [OF assms(1), of n] assms(2) [of n] by (simp add: Let_def)
qed simp

definition switched :: "nat \<Rightarrow> ptr \<Rightarrow> ptr \<Rightarrow> 'z scheduler_scheme \<Rightarrow> 'z scheduler_scheme" where
  "switched p x y s = s\<lparr>need_resched := False, current_thread := x,
     thread_state := (thread_state s)(x := KTHREAD_STATE_ACTIVE),
     runnable_queues := (runnable_queues s)[p := y],
     events := events s @ [Context_switch (current_thread s) x]\<rparr>"

lemma schedule_queues:
  assumes q: "sched_queues s R B" and pre: "preempt_count s \<le> 0" and top: "top_queue R p"
    and Rp: "R ! p = x # xs"
  shows "schedule s = Some (E_OK, switched p x (hd (xs @ [x])) s)"
    "sched_inv (switched p x (hd (xs @ [x])) s) (R[p := xs @ [x]]) B"
proof -
  note d = sched_queuesD [OF q]
  have p: "p < NUM_PRIORITIES" using top by (simp add: top_queue_def)
  have sel: "select_thread NUM_PRIORITIES s = Some (p, x)"
    using select_thread_correct [OF q order_refl p] top Rp by (auto simp: top_queue_def)
  moreover have "select_thread n (s\<lparr>need_resched := False\<rparr>) = select_thread n s" for n
    by (induction n) (simp_all add: Let_def)
  ultimately have sel': "select_thread NUM_PRIORITIES (s\<lparr>need_resched := False\<rparr>) = Some (p, x)" by simp
  have i: "p < length (R @ B)" "(R @ B) ! p = x # xs" using p d(1) Rp by (simp_all add: nth_append)
  note rot = rings_rotate [OF d(5) i]
  have hp: "runnable_queues s ! p = x" using rot(1) p d(3) by (simp add: nth_append)
  show "schedule s = Some (E_OK, switched p x (hd (xs @ [x])) s)"
    using pre sel' hp rot(2) by (simp add: schedule_def Let_def emit_def switched_def)
  have "sched_queues (switched p x (hd (xs @ [x])) s) (R[p := xs @ [x]]) B"
  proof (rule sched_queues_change [OF q])
    show "rings (sched_links (switched p x (hd (xs @ [x])) s))
        (runnable_queues (switched p x (hd (xs @ [x])) s) @ blocked_queues (switched p x (hd (xs @ [x])) s))
        (R[p := xs @ [x]] @ B)"
      using rot(3) rot(2) p d(1,3) by (simp add: switched_def list_update_append1)
    fix j t
    assume j: "j < NUM_PRIORITIES"
    show "t \<in> set (R[p := xs @ [x]] ! j) \<Longrightarrow>
        thread_priority (switched p x (hd (xs @ [x])) s) t = j \<and>
        thread_state (switched p x (hd (xs @ [x])) s) t \<in> {KTHREAD_STATE_RUNNABLE, KTHREAD_STATE_ACTIVE}"
      using d(1) d(6,7) [OF j, of t] Rp j
      by (cases "j = p") (auto simp: switched_def)
    assume t: "t \<in> set (B ! j)"
    have "x \<noteq> t" using d(7) [OF p, of x] d(9) [OF j t] Rp by auto
    then show "thread_priority (switched p x (hd (xs @ [x])) s) t = j \<and>
        thread_state (switched p x (hd (xs @ [x])) s) t = KTHREAD_STATE_BLOCKED"
      using d(8,9) [OF j t] by (simp add: switched_def)
  qed (use d in \<open>simp_all add: switched_def\<close>)
  moreover have "x \<in> set (concat (R[p := xs @ [x]]))" using p d(1) by (auto intro!: bexI [of _ "xs @ [x]"] simp: set_update_memI)
  ultimately show "sched_inv (switched p x (hd (xs @ [x])) s) (R[p := xs @ [x]]) B"
    by (simp add: sched_inv_def switched_def)
qed

lemma remove_thread_queues:
  assumes q: "sched_queues s R B" and p: "p < NUM_PRIORITIES" and t: "t \<in> set (R ! p)"
  shows "\<exists>h l. remove_thread t s = Some (E_OK, s\<lparr>thread_state := (thread_state s)(t := KTHREAD_STATE_ZOMBIE),
      runnable_queues := (runnable_queues s)[p := h], sched_links := l\<rparr>) \<and>
    sched_queues (s\<lparr>thread_state := (thread_state s)(t := KTHREAD_STATE_ZOMBIE),
      runnable_queues := (runnable_queues s)[p := h], sched_links := l\<rparr>) (R[p := remove1 t (R ! p)]) B"
    (is "\<exists>h l. _ = Some (E_OK, ?s h l) \<and> _")
proof -
  note d = sched_queuesD [OF q]
  note th = in_queue_thread [OF q p disjI1 [OF t]]
  have i: "p < length (R @ B)" and t': "t \<in> set ((R @ B) ! p)" using p d(1) t by (simp_all add: nth_append)
  obtain h l where del: "intrusive_list_delete link_ops (runnable_queues s ! p) t (sched_links s) = (h, l)"
    by fastforce
  have r: "rings l ((runnable_queues s @ blocked_queues s)[p := h]) ((R @ B)[p := remove1 t (R ! p)])"
    using rings_delete(1) [OF d(5) i t', of h l] del p d(1,3) by (simp add: nth_append)
  have dist: "distinct (R ! p)" using lh.dlist_distinct [OF sched_runnable [OF q p]] .
  have "sched_queues (?s h l) (R[p := remove1 t (R ! p)]) B"
  proof (rule sched_queues_change [OF q])
    show "rings (sched_links (?s h l)) (runnable_queues (?s h l) @ blocked_queues (?s h l)) (R[p := remove1 t (R ! p)] @ B)"
      using r d(1,3) p by (simp add: list_update_append1)
    fix j x
    assume j: "j < NUM_PRIORITIES"
    show "x \<in> set (R[p := remove1 t (R ! p)] ! j) \<Longrightarrow> thread_priority (?s h l) x = j \<and>
        thread_state (?s h l) x \<in> {KTHREAD_STATE_RUNNABLE, KTHREAD_STATE_ACTIVE}"
      using d(1) d(6,7) [OF j, of x] th(2) j dist by (cases "j = p") auto
    assume x: "x \<in> set (B ! j)"
    have "x \<noteq> t" using d(7) [OF p t] d(9) [OF j x] by auto
    then show "thread_priority (?s h l) x = j \<and> thread_state (?s h l) x = KTHREAD_STATE_BLOCKED"
      using d(8,9) [OF j x] by simp
  qed (use d in simp_all)
  moreover have "remove_thread t s = Some (E_OK, ?s h l)"
    using th del by (simp add: remove_thread_def)
  ultimately show ?thesis by blast
qed

lemma in_set_concat_nth: "i < length Q \<Longrightarrow> x \<in> set (Q ! i) \<Longrightarrow> x \<in> set (concat Q)"
  by auto

lemma removed_thread_fresh:
  assumes q: "sched_queues s R B" and p: "p < NUM_PRIORITIES" and t: "t \<in> set (R ! p)"
  shows "t \<notin> set (concat (R[p := remove1 t (R ! p)] @ B))"
proof -
  note d = sched_queuesD [OF q]
  have i: "p < length (R @ B)" "(R @ B) ! p = R ! p" using p d(1) by (simp_all add: nth_append)
  have "distinct (concat (R @ B))" using d(5) by (simp add: rings_def)
  then have "t \<notin> set (concat ((R @ B)[p := remove1 t (R ! p)]))"
    using distinct_concat_update(2) [OF _ i(1), of "remove1 t (R ! p)"] t i(2)
      lh.dlist_distinct [OF sched_runnable [OF q p]] by (auto dest: notin_set_remove1)
  then show ?thesis using p d(1) by (simp add: list_update_append1)
qed

lemma blocked_update:
  assumes q: "sched_queues s R B" and p: "p < NUM_PRIORITIES"
    and s': "runnable_queues s' = runnable_queues s" "blocked_queues s' = (blocked_queues s)[p := h]"
      "thread_priority s' = thread_priority s" "thread_state s' = (thread_state s)(t := KTHREAD_STATE_BLOCKED)"
    and t: "t \<notin> set (concat R)" "thread_priority s t = p" and xs: "set xs \<subseteq> insert t (set (B ! p))"
    and r: "rings (sched_links s') ((runnable_queues s @ blocked_queues s)[NUM_PRIORITIES + p := h])
      ((R @ B)[NUM_PRIORITIES + p := xs])"
  shows "sched_queues s' R (B[p := xs])"
proof (rule sched_queues_change [OF q])
  note d = sched_queuesD [OF q]
  show "rings (sched_links s') (runnable_queues s' @ blocked_queues s') (R @ B[p := xs])"
    using r d(1,3) by (simp add: s' list_update_append)
  fix j x
  assume j: "j < NUM_PRIORITIES"
  show "thread_priority s' x = j \<and> thread_state s' x \<in> {KTHREAD_STATE_RUNNABLE, KTHREAD_STATE_ACTIVE}"
    if "x \<in> set (R ! j)"
  proof -
    have "x \<noteq> t" using that t(1) j d(1) nth_mem [of j R] by auto
    then show ?thesis using d(6,7) [OF j that] by (simp add: s')
  qed
  show "thread_priority s' x = j \<and> thread_state s' x = KTHREAD_STATE_BLOCKED" if "x \<in> set (B[p := xs] ! j)"
    using that d(2) d(8,9) [OF j, of x] t(2) xs j by (cases "j = p") (auto simp: s')
qed (use sched_queuesD [OF q] s' in simp_all)

lemma block_queues:
  assumes q: "sched_queues s R B" and p: "p < NUM_PRIORITIES"
    and t: "t \<noteq> NULL" "t \<notin> set (concat (R @ B))" "thread_priority s t = p"
  shows "\<exists>l. intrusive_list_push_back link_ops (blocked_queues s ! p) t (sched_links s) = Some (t, l) \<and>
    sched_queues (s\<lparr>thread_state := (thread_state s)(t := KTHREAD_STATE_BLOCKED), thread_deadline := dl,
      blocked_queues := (blocked_queues s)[p := t], sched_links := l\<rparr>) R (B[p := t # B ! p])"
proof -
  note d = sched_queuesD [OF q]
  have i: "NUM_PRIORITIES + p < length (R @ B)" using p d by simp
  have n: "(runnable_queues s @ blocked_queues s) ! (NUM_PRIORITIES + p) = blocked_queues s ! p"
    "(R @ B) ! (NUM_PRIORITIES + p) = B ! p" using d by (simp_all add: nth_append)
  obtain l where l: "intrusive_list_push_back link_ops (blocked_queues s ! p) t (sched_links s) = Some (t, l)"
      "rings l ((runnable_queues s @ blocked_queues s)[NUM_PRIORITIES + p := t])
        ((R @ B)[NUM_PRIORITIES + p := t # B ! p])"
    using rings_push_back [OF d(5) i t(1,2)] unfolding n by blast
  show ?thesis
    using l t by (intro exI [of _ l] conjI blocked_update [OF q p, where t = t]) auto
qed

lemma block_sorted_queues:
  assumes q: "sched_queues s R B" and p: "p < NUM_PRIORITIES" "B ! p = [a]"
    and t: "t \<noteq> NULL" "t \<notin> set (concat (R @ B))" "thread_priority s t = p"
  shows "\<exists>l. intrusive_list_insert_sorted link_ops (blocked_queues s ! p) t cmp (sched_links s) =
      Some (if cmp a t then t else a, l) \<and>
    sched_queues (s\<lparr>thread_state := (thread_state s)(t := KTHREAD_STATE_BLOCKED), thread_deadline := dl,
      nearest_tsc_deadline := nd,
      blocked_queues := (blocked_queues s)[p := if cmp a t then t else a], sched_links := l\<rparr>) R
      (B[p := if cmp a t then [t, a] else [a, t]])"
proof -
  note d = sched_queuesD [OF q]
  have i: "NUM_PRIORITIES + p < length (R @ B)" using p d by simp
  have n: "(runnable_queues s @ blocked_queues s) ! (NUM_PRIORITIES + p) = blocked_queues s ! p"
    "(R @ B) ! (NUM_PRIORITIES + p) = [a]" using d p by (simp_all add: nth_append)
  obtain l where l: "intrusive_list_insert_sorted link_ops (blocked_queues s ! p) t cmp (sched_links s) =
        Some (if cmp a t then t else a, l)"
      "rings l ((runnable_queues s @ blocked_queues s)[NUM_PRIORITIES + p := if cmp a t then t else a])
        ((R @ B)[NUM_PRIORITIES + p := if cmp a t then [t, a] else [a, t]])"
    using rings_insert_sorted [OF d(5) i n(2) t(1,2), of cmp] unfolding n by blast
  show ?thesis
    using l t p(2) by (intro exI [of _ l] conjI blocked_update [OF q p(1), where t = t]) auto
qed

lemma sched_queues_cong:
  assumes "runnable_queues s' = runnable_queues s" "blocked_queues s' = blocked_queues s"
    "sched_links s' = sched_links s" "thread_priority s' = thread_priority s" "thread_state s' = thread_state s"
  shows "sched_queues s' R B = sched_queues s R B"
  using assms by (simp add: sched_queues_def)

lemma setup_timer_loop_fields:
  "runnable_queues (setup_timer_loop n s) = runnable_queues s"
  "blocked_queues (setup_timer_loop n s) = blocked_queues s"
  "sched_links (setup_timer_loop n s) = sched_links s"
  "thread_priority (setup_timer_loop n s) = thread_priority s"
  "thread_state (setup_timer_loop n s) = thread_state s"
  "thread_deadline (setup_timer_loop n s) = thread_deadline s"
  "current_thread (setup_timer_loop n s) = current_thread s"
  "need_resched (setup_timer_loop n s) = need_resched s"
  "preempt_count (setup_timer_loop n s) = preempt_count s"
  "tsc_counter (setup_timer_loop n s) = tsc_counter s"
  "tsc_reads (setup_timer_loop n s) = tsc_reads s"
  "scheduler.more (setup_timer_loop n s) = scheduler.more s"
  by (induction n arbitrary: s) simp_all

lemma setup_timer_fields [simp]:
  "runnable_queues (setup_timer s) = runnable_queues s"
  "blocked_queues (setup_timer s) = blocked_queues s"
  "sched_links (setup_timer s) = sched_links s"
  "thread_priority (setup_timer s) = thread_priority s"
  "thread_state (setup_timer s) = thread_state s"
  "thread_deadline (setup_timer s) = thread_deadline s"
  "current_thread (setup_timer s) = current_thread s"
  "need_resched (setup_timer s) = need_resched s"
  "preempt_count (setup_timer s) = preempt_count s"
  "tsc_counter (setup_timer s) = tsc_counter s"
  "tsc_reads (setup_timer s) = tsc_reads s"
  "scheduler.more (setup_timer s) = scheduler.more s"
  by (simp_all add: setup_timer_def Let_def emit_def setup_timer_loop_fields)

lemma setup_timer_queues [simp]: "sched_queues (setup_timer s) R B = sched_queues s R B"
  by (rule sched_queues_cong) simp_all

lemma wake_queues:
  assumes q: "sched_queues s R B" and p: "p < NUM_PRIORITIES" and t: "t \<in> set (B ! p)"
  shows "\<exists>h l. let s' = setup_timer (s\<lparr>blocked_queues := (blocked_queues s)[p := h],
        thread_state := (thread_state s)(t := KTHREAD_STATE_RUNNABLE),
        runnable_queues := (runnable_queues s)[p := t], sched_links := l,
        need_resched := need_resched s \<or>
          (current_thread s \<noteq> NULL \<and> thread_priority s (current_thread s) < p)\<rparr>)
    in wake t s = Some (E_OK, s') \<and> sched_queues s' (R[p := t # R ! p]) (B[p := remove1 t (B ! p)])"
proof -
  note d = sched_queuesD [OF q]
  note th = in_queue_thread [OF q p disjI2 [OF t]]
  have i: "NUM_PRIORITIES + p < length (R @ B)" and n: "(R @ B) ! (NUM_PRIORITIES + p) = B ! p"
    "(runnable_queues s @ blocked_queues s) ! (NUM_PRIORITIES + p) = blocked_queues s ! p"
    using p d by (simp_all add: nth_append)
  obtain h l where del: "intrusive_list_delete link_ops (blocked_queues s ! p) t (sched_links s) = (h, l)"
    by fastforce
  have r: "rings l ((runnable_queues s @ blocked_queues s)[NUM_PRIORITIES + p := h])
      ((R @ B)[NUM_PRIORITIES + p := remove1 t (B ! p)])"
    using rings_delete(1) [OF d(5) i, of t h l] del t unfolding n by blast
  let ?s = "s\<lparr>blocked_queues := (blocked_queues s)[p := h], sched_links := l\<rparr>"
  have tR: "t \<notin> set (R ! j)" if "j < NUM_PRIORITIES" for j
    using d(7) [OF that, of t] d(9) [OF p t] by auto
  have q1: "sched_queues ?s R (B[p := remove1 t (B ! p)])"
  proof (rule blocked_update [OF q p, where t = t])
    show "t \<notin> set (concat R)" using tR d(1) by (auto simp: in_set_conv_nth [of _ R])
    show "set (remove1 t (B ! p)) \<subseteq> insert t (set (B ! p))" by (meson set_remove1_subset subset_insertI2)
  qed (use r d(9) [OF p t] th(2) in auto)
  have "t \<notin> set (concat (R @ B[p := remove1 t (B ! p)]))"
  proof -
    have dist: "distinct (concat (R @ B))" using d(5) by (simp add: rings_def)
    have "t \<notin> set (concat ((R @ B)[NUM_PRIORITIES + p := remove1 t (B ! p)]))"
      using distinct_concat_update(2) [OF dist i, of "remove1 t (B ! p)"] t n(1)
        lh.dlist_distinct [OF sched_blocked [OF q p]] by (auto dest: notin_set_remove1)
    then show ?thesis using d(1) by (simp add: list_update_append)
  qed
  then obtain l' where a: "add_thread t ?s = Some (E_OK,
      ?s\<lparr>thread_state := (thread_state s)(t := KTHREAD_STATE_RUNNABLE),
        runnable_queues := (runnable_queues s)[p := t], sched_links := l',
        need_resched := need_resched s \<or>
          (current_thread s \<noteq> NULL \<and> thread_priority s (current_thread s) < p)\<rparr>)"
      "sched_queues (?s\<lparr>thread_state := (thread_state s)(t := KTHREAD_STATE_RUNNABLE),
        runnable_queues := (runnable_queues s)[p := t], sched_links := l',
        need_resched := need_resched s \<or>
          (current_thread s \<noteq> NULL \<and> thread_priority s (current_thread s) < p)\<rparr>)
        (R[p := t # R ! p]) (B[p := remove1 t (B ! p)])"
    using add_thread_queues [OF q1 th(1) _ _ p] th(2) by auto
  show ?thesis
    using a d(9) [OF p t] th(1,3) del unfolding Let_def
    by (intro exI [of _ h] exI [of _ l']) (simp add: wake_def)
qed

subsection \<open>Blocking\<close>

definition sleeper_queue :: "(ptr \<Rightarrow> u64) \<Rightarrow> ptr \<Rightarrow> u64 \<Rightarrow> ptr list \<Rightarrow> ptr list" where
  "sleeper_queue dl t d xs =
     (if d = NO_DEADLINE then t # xs
      else case xs of [] \<Rightarrow> [t] | a # _ \<Rightarrow> (if dl a > d then [t, a] else [a, t]))"

definition timer_events :: "u64 \<Rightarrow> sched_event list" where
  "timer_events d = (if d \<noteq> NO_DEADLINE then [Start_timer d] else [])"

definition asleep ::
  "nat \<Rightarrow> ptr \<Rightarrow> u64 \<Rightarrow> ptr \<Rightarrow> ptr \<Rightarrow> link_heap \<Rightarrow> 'z scheduler_scheme \<Rightarrow> 'z scheduler_scheme" where
  "asleep p t d h h' l s = s\<lparr>runnable_queues := (runnable_queues s)[p := h],
     thread_state := (thread_state s)(t := KTHREAD_STATE_BLOCKED),
     thread_deadline := (thread_deadline s)(t := d),
     nearest_tsc_deadline := min (nearest_tsc_deadline s) d,
     blocked_queues := (blocked_queues s)[p := h'], sched_links := l,
     events := events s @ timer_events (min (nearest_tsc_deadline s) d)\<rparr>"

lemma enqueue_blocked:
  assumes q: "sched_queues s R B" and p: "p < NUM_PRIORITIES"
    and t: "t \<noteq> NULL" "t \<notin> set (concat (R @ B))" "thread_priority s t = p"
    and d: "d = NO_DEADLINE \<or> length (B ! p) \<le> 1"
  shows "\<exists>h l. (if d \<noteq> NO_DEADLINE \<and> blocked_queues s ! p \<noteq> NULL
      then intrusive_list_insert_sorted link_ops (blocked_queues s ! p) t
        (\<lambda>a b. ((thread_deadline s)(t := d)) b < ((thread_deadline s)(t := d)) a) (sched_links s)
      else intrusive_list_push_back link_ops (blocked_queues s ! p) t (sched_links s)) = Some (h, l) \<and>
    sched_queues (s\<lparr>thread_state := (thread_state s)(t := KTHREAD_STATE_BLOCKED),
      thread_deadline := (thread_deadline s)(t := d),
      blocked_queues := (blocked_queues s)[p := h], sched_links := l\<rparr>) R
      (B[p := sleeper_queue (thread_deadline s) t d (B ! p)])"
proof -
  have hb: "blocked_queues s ! p = NULL \<longleftrightarrow> B ! p = []"
    using sched_blocked [OF q p] by (cases "B ! p") (auto simp: dlist_def split: if_splits)
  show ?thesis
  proof (cases "d = NO_DEADLINE \<or> B ! p = []")
    case True
    then have "sleeper_queue (thread_deadline s) t d (B ! p) = t # B ! p" by (auto simp: sleeper_queue_def)
    then show ?thesis
      using block_queues [OF q p t, of "(thread_deadline s)(t := d)"] True hb by auto
  next
    case False
    then obtain a where a: "B ! p = [a]" using d by (cases "B ! p") auto
    have "a \<in> set (concat B)" using a p sched_queuesD(2) [OF q] in_set_concat_nth [of p B a] by simp
    then have ta: "a \<noteq> t" using t(2) by auto
    then have "sleeper_queue (thread_deadline s) t d (B ! p) =
        (if ((thread_deadline s)(t := d)) t < ((thread_deadline s)(t := d)) a then [t, a] else [a, t])"
      using False a by (simp add: sleeper_queue_def)
    then show ?thesis
      using block_sorted_queues [OF q p a t, where cmp = "\<lambda>a b. ((thread_deadline s)(t := d)) b < ((thread_deadline s)(t := d)) a"
          and dl = "(thread_deadline s)(t := d)" and nd = "nearest_tsc_deadline s"] False hb a
      by (auto simp del: fun_upd_apply cong: if_cong)
  qed
qed

lemma sleep_until_asleep:
  assumes q: "sched_queues s R B" and p: "p < NUM_PRIORITIES" and t: "current_thread s = t" "t \<in> set (R ! p)"
    and d: "d = NO_DEADLINE \<or> length (B ! p) \<le> 1"
  shows "\<exists>h h' l. sleep_until d s = map_option (\<lambda>(_, s). (E_OK, s)) (schedule (asleep p t d h h' l s)) \<and>
    sched_queues (asleep p t d h h' l s) (R[p := remove1 t (R ! p)])
      (B[p := sleeper_queue (thread_deadline s) t d (B ! p)])"
proof -
  note th = in_queue_thread [OF q p disjI1 [OF t(2)]]
  obtain h l where rm: "remove_thread t s = Some (E_OK, s\<lparr>thread_state := (thread_state s)(t := KTHREAD_STATE_ZOMBIE),
        runnable_queues := (runnable_queues s)[p := h], sched_links := l\<rparr>)"
      "sched_queues (s\<lparr>thread_state := (thread_state s)(t := KTHREAD_STATE_ZOMBIE),
        runnable_queues := (runnable_queues s)[p := h], sched_links := l\<rparr>) (R[p := remove1 t (R ! p)]) B"
    using remove_thread_queues [OF q p t(2)] by blast
  have fresh: "t \<notin> set (concat (R[p := remove1 t (R ! p)] @ B))"
    by (rule removed_thread_fresh [OF q p t(2)])
  obtain h' l' where e: "(if d \<noteq> NO_DEADLINE \<and> blocked_queues s ! p \<noteq> NULL
      then intrusive_list_insert_sorted link_ops (blocked_queues s ! p) t
        (\<lambda>a b. ((thread_deadline s)(t := d)) b < ((thread_deadline s)(t := d)) a) l
      else intrusive_list_push_back link_ops (blocked_queues s ! p) t l) = Some (h', l')"
    and q': "sched_queues (s\<lparr>runnable_queues := (runnable_queues s)[p := h],
        thread_state := (thread_state s)(t := KTHREAD_STATE_BLOCKED), thread_deadline := (thread_deadline s)(t := d),
        blocked_queues := (blocked_queues s)[p := h'], sched_links := l'\<rparr>) (R[p := remove1 t (R ! p)])
        (B[p := sleeper_queue (thread_deadline s) t d (B ! p)])"
    using enqueue_blocked [OF rm(2) p th(1) fresh _ d] th(2) by (auto simp del: fun_upd_apply cong: if_cong)
  have "sched_queues (asleep p t d h h' l' s) (R[p := remove1 t (R ! p)])
      (B[p := sleeper_queue (thread_deadline s) t d (B ! p)])"
    using q' sched_queues_cong by (simp add: asleep_def sched_queues_def)
  moreover have "sleep_until d s = map_option (\<lambda>(_, s). (E_OK, s)) (schedule (asleep p t d h h' l' s))"
    using e rm(1) th t(1)
    by (cases "d = NO_DEADLINE"; cases "blocked_queues s ! p = NULL";
        cases "schedule (asleep p t d h h' l' s)")
       (auto simp: sleep_until_def KTHREAD_PTR_def Let_def emit_def asleep_def timer_events_def simp del: fun_upd_apply)
  ultimately show ?thesis by blast
qed

subsection \<open>The timer interrupt\<close>

lemma arch_tsc_eq [simp]: "arch_tsc s = (tsc_counter s (tsc_reads s), s\<lparr>tsc_reads := tsc_reads s + 1\<rparr>)"
  by (simp add: arch_tsc_def)

definition unchanged_threads :: "'z scheduler_scheme \<Rightarrow> 'z scheduler_scheme \<Rightarrow> bool" where
  "unchanged_threads s s' \<longleftrightarrow> thread_deadline s' = thread_deadline s \<and> tsc_counter s' = tsc_counter s \<and>
     current_thread s' = current_thread s \<and> preempt_count s' = preempt_count s"

lemma unchanged_threads_refl [simp]: "unchanged_threads s s"
  by (simp add: unchanged_threads_def)

lemma unchanged_threads_trans:
  "unchanged_threads s s' \<Longrightarrow> unchanged_threads s' s'' \<Longrightarrow> unchanged_threads s s''"
  by (simp add: unchanged_threads_def)

lemma wake_head:
  assumes q: "sched_queues s R B" and p: "p < NUM_PRIORITIES" and Bp: "B ! p = x # xs"
  shows "\<exists>s'. wake x s = Some (E_OK, s') \<and> sched_queues s' (R[p := x # R ! p]) (B[p := xs]) \<and>
    unchanged_threads s s' \<and> tsc_reads s' = tsc_reads s"
  using wake_queues [OF q p, of x] Bp by (auto simp: Let_def unchanged_threads_def)

lemma wake_expired_queues:
  assumes "sched_queues s R B" "p < NUM_PRIORITIES"
  shows "\<exists>k s'. wake_expired p s = Some s' \<and> k \<le> length (B ! p) \<and>
    sched_queues s' (R[p := rev (take k (B ! p)) @ R ! p]) (B[p := drop k (B ! p)]) \<and>
    unchanged_threads s s' \<and> tsc_reads s' = tsc_reads s + k + (if k < length (B ! p) then 1 else 0) \<and>
    (\<forall>i<k. thread_deadline s (B ! p ! i) < tsc_counter s (tsc_reads s + i)) \<and>
    (k < length (B ! p) \<longrightarrow> \<not> thread_deadline s (B ! p ! k) < tsc_counter s (tsc_reads s + k))"
  using assms
proof (induction "B ! p" arbitrary: s R B)
  case Nil
  then have "blocked_queues s ! p = NULL" using sched_blocked [OF Nil.prems] by simp
  then show ?case
    using Nil list_update_id [of B p] by (intro exI [of _ 0] exI [of _ s]) (simp add: wake_expired.simps)
next
  case (Cons x xs)
  note q = Cons.prems(1) and p = Cons.prems(2)
  have Bp: "B ! p = x # xs" using Cons.hyps(2) by simp
  have h: "blocked_queues s ! p = x" "x \<noteq> NULL"
    using dlist_hd [OF sched_blocked [OF q p]] in_queue_thread(1) [OF q p, of x] Bp by simp_all
  let ?s = "s\<lparr>tsc_reads := tsc_reads s + 1\<rparr>"
  have q1: "sched_queues ?s R B" using q by (simp add: sched_queues_def)
  show ?case
  proof (cases "thread_deadline s x < tsc_counter s (tsc_reads s)")
    case False
    then have "wake_expired p s = Some ?s" using h by (simp add: wake_expired.simps Let_def)
    then show ?thesis
      using q1 Bp False list_update_id [of B p]
      by (intro exI [of _ 0] exI [of _ ?s]) (simp add: unchanged_threads_def)
  next
    case True
    obtain s1 where s1: "wake x ?s = Some (E_OK, s1)" "sched_queues s1 (R[p := x # R ! p]) (B[p := xs])"
        "unchanged_threads ?s s1" "tsc_reads s1 = tsc_reads s + 1"
      using wake_head [OF q1 p Bp] by auto
    have B1: "xs = B[p := xs] ! p" using p sched_queuesD(2) [OF q] by simp
    note IH = Cons.hyps(1) [OF B1 s1(2) p]
    obtain k s' where k: "wake_expired p s1 = Some s'" "k \<le> length xs"
        "sched_queues s' (R[p := rev (take k xs) @ x # R ! p]) (B[p := drop k xs])"
        "unchanged_threads s1 s'" "tsc_reads s' = tsc_reads s1 + k + (if k < length xs then 1 else 0)"
        "\<forall>i<k. thread_deadline s1 (xs ! i) < tsc_counter s1 (tsc_reads s1 + i)"
        "k < length xs \<longrightarrow> \<not> thread_deadline s1 (xs ! k) < tsc_counter s1 (tsc_reads s1 + k)"
      using IH p sched_queuesD(1,2) [OF q] by (auto simp flip: B1)
    have same: "thread_deadline s1 = thread_deadline s" "tsc_counter s1 = tsc_counter s"
      using s1(3) by (simp_all add: unchanged_threads_def)
    have "wake_expired p s = Some s'" using h True s1(1) k(1) by (simp add: wake_expired.simps [of _ s] Let_def)
    moreover have "unchanged_threads s s'"
      using s1(3) k(4) by (simp add: unchanged_threads_def)
    moreover have "thread_deadline s (B ! p ! i) < tsc_counter s (tsc_reads s + i)" if "i < Suc k" for i
      using that True k(6) Bp same s1(4) by (cases i) auto
    ultimately show ?thesis
      using k s1(4) Bp same by (intro exI [of _ "Suc k"] exI [of _ s']) simp
  qed
qed

definition expired_woken ::
  "'z scheduler_scheme \<Rightarrow> nat \<Rightarrow> ptr list \<Rightarrow> ptr list \<Rightarrow> ptr list \<Rightarrow> ptr list \<Rightarrow> bool" where
  "expired_woken s r Rp Bp Rp' Bp' \<longleftrightarrow>
     (\<exists>k\<le>length Bp. Bp' = drop k Bp \<and> Rp' = rev (take k Bp) @ Rp \<and>
       (\<forall>i<k. \<exists>j. tsc_reads s \<le> j \<and> j < r \<and> thread_deadline s (Bp ! i) < tsc_counter s j) \<and>
       (k < length Bp \<longrightarrow>
         (\<exists>j. tsc_reads s \<le> j \<and> j < r \<and> tsc_counter s j \<le> thread_deadline s (Bp ! k))))"

lemma expired_woken_mono:
  assumes "expired_woken s r Rp Bp Rp' Bp'" "unchanged_threads s0 s" "tsc_reads s0 \<le> tsc_reads s" "r \<le> r'"
  shows "expired_woken s0 r' Rp Bp Rp' Bp'"
proof -
  have same: "thread_deadline s = thread_deadline s0" "tsc_counter s = tsc_counter s0"
    using assms(2) by (simp_all add: unchanged_threads_def)
  have wide: "\<exists>j. tsc_reads s0 \<le> j \<and> j < r' \<and> P j" if "\<exists>j. tsc_reads s \<le> j \<and> j < r \<and> P j" for P
    using that assms(3,4) by (meson order_trans less_le_trans)
  obtain k where k: "k \<le> length Bp" "Bp' = drop k Bp" "Rp' = rev (take k Bp) @ Rp"
    "\<forall>i<k. \<exists>j. tsc_reads s \<le> j \<and> j < r \<and> thread_deadline s (Bp ! i) < tsc_counter s j"
    "k < length Bp \<longrightarrow> (\<exists>j. tsc_reads s \<le> j \<and> j < r \<and> tsc_counter s j \<le> thread_deadline s (Bp ! k))"
    using assms(1) unfolding expired_woken_def by blast
  show ?thesis
    unfolding expired_woken_def
  proof (rule exI [of _ k], intro conjI allI impI)
    show "\<exists>j. tsc_reads s0 \<le> j \<and> j < r' \<and> thread_deadline s0 (Bp ! i) < tsc_counter s0 j" if "i < k" for i
      by (rule wide) (use k(4) that same in simp)
    show "\<exists>j. tsc_reads s0 \<le> j \<and> j < r' \<and> tsc_counter s0 j \<le> thread_deadline s0 (Bp ! k)" if "k < length Bp"
      by (rule wide) (use k(5) that same in simp)
  qed (use k in simp_all)
qed

lemma expired_woken_sets:
  assumes "expired_woken s r Rp Bp Rp' Bp'"
  shows "set Rp \<subseteq> set Rp'" "set Rp' \<union> set Bp' = set Rp \<union> set Bp"
proof -
  obtain k where k: "Bp' = drop k Bp" "Rp' = rev (take k Bp) @ Rp"
    using assms unfolding expired_woken_def by blast
  have "set Bp = set (take k Bp) \<union> set (drop k Bp)" by (metis append_take_drop_id set_append)
  then show "set Rp \<subseteq> set Rp'" "set Rp' \<union> set Bp' = set Rp \<union> set Bp" using k by auto
qed

lemma expired_woken_due:
  assumes e: "expired_woken s r Rp Bp Rp' Bp'" and m: "mono (tsc_counter s)"
    and sorted: "sorted (map (thread_deadline s) Bp)"
    and t: "t \<in> set Bp" "thread_deadline s t < tsc_counter s (tsc_reads s)"
  shows "t \<in> set Rp'"
proof -
  obtain k where k: "Rp' = rev (take k Bp) @ Rp"
    "k < length Bp \<longrightarrow> (\<exists>j. tsc_reads s \<le> j \<and> j < r \<and> tsc_counter s j \<le> thread_deadline s (Bp ! k))"
    using e unfolding expired_woken_def by blast
  obtain n where n: "n < length Bp" "t = Bp ! n" using t(1) by (auto simp: in_set_conv_nth)
  have "n < k"
  proof (rule ccontr)
    assume "\<not> n < k"
    then obtain j where "tsc_reads s \<le> j" "tsc_counter s j \<le> thread_deadline s (Bp ! k)" using k(2) n(1) by auto
    moreover have "thread_deadline s (Bp ! k) \<le> thread_deadline s (Bp ! n)"
      using sorted_nth_mono [OF sorted, of k n] \<open>\<not> n < k\<close> n(1) by simp
    ultimately have "tsc_counter s (tsc_reads s) \<le> thread_deadline s t" using monoD [OF m] n(2) by (meson order_trans)
    then show False using t(2) by simp
  qed
  then have "t \<in> set (take k Bp)" using n by (auto simp: in_set_conv_nth)
  then show ?thesis using k(1) by simp
qed

lemma expired_woken_not_due:
  assumes e: "expired_woken s r Rp Bp Rp' Bp'" and m: "mono (tsc_counter s)"
    and t: "t \<in> set Bp" "tsc_counter s r \<le> thread_deadline s t"
  shows "t \<in> set Bp'"
proof -
  obtain k where k: "Bp' = drop k Bp"
    "\<forall>i<k. \<exists>j. tsc_reads s \<le> j \<and> j < r \<and> thread_deadline s (Bp ! i) < tsc_counter s j"
    using e unfolding expired_woken_def by blast
  obtain n where n: "n < length Bp" "t = Bp ! n" using t(1) by (auto simp: in_set_conv_nth)
  have "\<not> n < k"
  proof
    assume "n < k"
    then obtain j where "j < r" "thread_deadline s t < tsc_counter s j" using k(2) n(2) by blast
    then show False using monoD [OF m, of j r] t(2) by simp
  qed
  then have "t = drop k Bp ! (n - k)" "n - k < length (drop k Bp)" using n by simp_all
  then show ?thesis using k(1) by (metis nth_mem)
qed

lemma timer_irq_loop_queues:
  assumes "sched_queues s R B" "n \<le> NUM_PRIORITIES"
  shows "\<exists>s' R' B'. timer_irq_loop n s = Some s' \<and> sched_queues s' R' B' \<and> unchanged_threads s s' \<and>
    tsc_reads s \<le> tsc_reads s' \<and>
    (\<forall>p<NUM_PRIORITIES. if p < n then expired_woken s (tsc_reads s') (R ! p) (B ! p) (R' ! p) (B' ! p)
      else R' ! p = R ! p \<and> B' ! p = B ! p)"
  using assms
proof (induction n arbitrary: s R B)
  case 0
  then show ?case by (intro exI [of _ s] exI [of _ R] exI [of _ B]) simp
next
  case (Suc n)
  note q = Suc.prems(1)
  have n: "n < NUM_PRIORITIES" using Suc.prems(2) by simp
  obtain k s1 where s1: "wake_expired n s = Some s1" "k \<le> length (B ! n)"
      "sched_queues s1 (R[n := rev (take k (B ! n)) @ R ! n]) (B[n := drop k (B ! n)])"
      "unchanged_threads s s1" "tsc_reads s1 = tsc_reads s + k + (if k < length (B ! n) then 1 else 0)"
      "\<forall>i<k. thread_deadline s (B ! n ! i) < tsc_counter s (tsc_reads s + i)"
      "k < length (B ! n) \<longrightarrow> \<not> thread_deadline s (B ! n ! k) < tsc_counter s (tsc_reads s + k)"
    using wake_expired_queues [OF q n] by blast
  define s2 where "s2 = (if blocked_queues s1 ! n \<noteq> NULL
    then s1\<lparr>nearest_tsc_deadline := min (thread_deadline s1 (blocked_queues s1 ! n)) (nearest_tsc_deadline s1)\<rparr> else s1)"
  have q2: "sched_queues s2 (R[n := rev (take k (B ! n)) @ R ! n]) (B[n := drop k (B ! n)])"
    using s1(3) sched_queues_cong by (auto simp: s2_def sched_queues_def)
  have u2: "unchanged_threads s s2" "tsc_reads s2 = tsc_reads s1"
    using s1(4) by (auto simp: s2_def unchanged_threads_def)
  obtain s' R' B' where s': "timer_irq_loop n s2 = Some s'" "sched_queues s' R' B'" "unchanged_threads s2 s'"
      "tsc_reads s2 \<le> tsc_reads s'"
      "\<forall>p<NUM_PRIORITIES. if p < n
        then expired_woken s2 (tsc_reads s') (R[n := rev (take k (B ! n)) @ R ! n] ! p) (B[n := drop k (B ! n)] ! p)
          (R' ! p) (B' ! p)
        else R' ! p = R[n := rev (take k (B ! n)) @ R ! n] ! p \<and> B' ! p = B[n := drop k (B ! n)] ! p"
    using Suc.IH [OF q2] n by auto
  have "\<exists>j. tsc_reads s \<le> j \<and> j < tsc_reads s1 \<and> thread_deadline s (B ! n ! i) < tsc_counter s j" if "i < k" for i
    using s1(5,6) that by (intro exI [of _ "tsc_reads s + i"]) simp
  moreover have "\<exists>j. tsc_reads s \<le> j \<and> j < tsc_reads s1 \<and> tsc_counter s j \<le> thread_deadline s (B ! n ! k)"
    if "k < length (B ! n)"
    using s1(5,7) that by (intro exI [of _ "tsc_reads s + k"]) (simp add: not_less)
  ultimately have
    "expired_woken s (tsc_reads s1) (R ! n) (B ! n) (rev (take k (B ! n)) @ R ! n) (drop k (B ! n))"
    using s1(2) unfolding expired_woken_def by blast
  then have en: "expired_woken s (tsc_reads s') (R ! n) (B ! n) (rev (take k (B ! n)) @ R ! n) (drop k (B ! n))"
    using s'(4) u2(2) by (auto intro: expired_woken_mono)
  have "if p < Suc n then expired_woken s (tsc_reads s') (R ! p) (B ! p) (R' ! p) (B' ! p)
      else R' ! p = R ! p \<and> B' ! p = B ! p" if "p < NUM_PRIORITIES" for p
  proof (cases "p < n")
    case True
    then have "expired_woken s2 (tsc_reads s') (R ! p) (B ! p) (R' ! p) (B' ! p)"
      using s'(5) that by auto
    then have "expired_woken s (tsc_reads s') (R ! p) (B ! p) (R' ! p) (B' ! p)"
      by (rule expired_woken_mono) (use u2 s1(5) in simp_all)
    then show ?thesis using True by simp
  next
    case False
    then show ?thesis
      using s'(5) [rule_format, OF that] en n sched_queuesD(1,2) [OF q] by (cases "p = n") simp_all
  qed
  moreover have "timer_irq_loop (Suc n) s = Some s'" using s1(1) s'(1) by (simp add: s2_def)
  ultimately show ?case
    using s'(2-4) u2 s1(5) unchanged_threads_trans [OF u2(1) s'(3)]
    by (intro exI [of _ s'] exI [of _ R'] exI [of _ B']) simp
qed

subsection \<open>Reachable states\<close>

definition threads_of :: "ptr list list \<Rightarrow> ptr set" where
  "threads_of Q = (\<Union>p<NUM_PRIORITIES. set (Q ! p))"

lemma threads_of_concat: "length Q = NUM_PRIORITIES \<Longrightarrow> set (concat Q) = threads_of Q"
  by (fastforce simp: threads_of_def in_set_conv_nth [of _ Q])

lemma schedule_total:
  assumes i: "sched_inv s R B"
  shows "\<exists>s' R'. schedule s = Some (E_OK, s') \<and> sched_inv s' R' B \<and>
    (\<forall>p<NUM_PRIORITIES. set (R' ! p) = set (R ! p)) \<and>
    thread_deadline s' = thread_deadline s \<and> tsc_counter s' = tsc_counter s \<and> tsc_reads s' = tsc_reads s \<and>
    preempt_count s' = preempt_count s"
proof (cases "preempt_count s > 0")
  case True
  then show ?thesis using i by (intro exI [of _ s] exI [of _ R]) (simp add: schedule_def)
next
  case False
  have q: "sched_queues s R B" and "current_thread s \<in> threads_of R"
    using i threads_of_concat [of R] sched_queuesD(1) by (auto simp: sched_inv_def)
  then obtain j where "j < NUM_PRIORITIES" "R ! j \<noteq> []" by (force simp: threads_of_def)
  then obtain p where "top_queue R p" using top_queue_exists by blast
  then obtain x xs where p: "top_queue R p" "R ! p = x # xs" by (cases "R ! p") (auto simp: top_queue_def)
  have "set (R[p := xs @ [x]] ! j) = set (R ! j)" if "j < NUM_PRIORITIES" for j
    using p(2) that sched_queuesD(1) [OF q] by (cases "j = p") auto
  then show ?thesis
    using schedule_queues [OF q _ p] False
    by (intro exI [of _ "switched p x (hd (xs @ [x])) s"] exI [of _ "R[p := xs @ [x]]"])
      (simp add: switched_def)
qed

lemma handle_timer_irq_total:
  assumes i: "sched_inv s R B"
  shows "\<exists>s' R' B' Rw. handle_timer_irq s = Some s' \<and> sched_inv s' R' B' \<and>
    preempt_count s' = preempt_count s \<and> tsc_counter s' = tsc_counter s \<and> thread_deadline s' = thread_deadline s \<and>
    (\<forall>p<NUM_PRIORITIES. expired_woken s (tsc_reads s') (R ! p) (B ! p) (Rw ! p) (B' ! p) \<and>
      set (R' ! p) = set (Rw ! p))"
proof -
  let ?s = "s\<lparr>nearest_tsc_deadline := NO_DEADLINE\<rparr>"
  have q: "sched_queues ?s R B" and c: "current_thread s \<in> threads_of R"
    using i threads_of_concat [of R] sched_queuesD(1) by (auto simp: sched_inv_def sched_queues_def)
  obtain s1 Rw B' where s1: "timer_irq_loop NUM_PRIORITIES ?s = Some s1" "sched_queues s1 Rw B'"
      "unchanged_threads ?s s1" "tsc_reads ?s \<le> tsc_reads s1"
      "\<forall>p<NUM_PRIORITIES. expired_woken ?s (tsc_reads s1) (R ! p) (B ! p) (Rw ! p) (B' ! p)"
    using timer_irq_loop_queues [OF q order_refl] by auto
  have ew: "expired_woken s (tsc_reads s1) (R ! p) (B ! p) (Rw ! p) (B' ! p)" if "p < NUM_PRIORITIES" for p
    using s1(5) that by (auto simp: expired_woken_def)
  have c1: "current_thread s1 \<in> threads_of Rw"
    using c s1(3) expired_woken_sets(1) [OF ew] by (auto simp: threads_of_def unchanged_threads_def)
  define s2 where "s2 = (if nearest_tsc_deadline s1 \<noteq> NO_DEADLINE
    then emit (Start_timer (nearest_tsc_deadline s1)) s1 else s1)"
  have i2: "sched_inv s2 Rw B'"
    using s1(2) c1 threads_of_concat [of Rw] sched_queuesD(1) [OF s1(2)]
    by (auto simp: s2_def sched_inv_def sched_queues_def emit_def)
  have u: "tsc_reads s2 = tsc_reads s1" "preempt_count s2 = preempt_count s" "tsc_counter s2 = tsc_counter s"
    "thread_deadline s2 = thread_deadline s"
    using s1(3) by (simp_all add: s2_def emit_def unchanged_threads_def)
  show ?thesis
  proof (cases "need_resched s2")
    case True
    obtain s' R' where s': "schedule s2 = Some (E_OK, s')" "sched_inv s' R' B'"
        "\<forall>p<NUM_PRIORITIES. set (R' ! p) = set (Rw ! p)"
        "thread_deadline s' = thread_deadline s2" "tsc_counter s' = tsc_counter s2" "tsc_reads s' = tsc_reads s2"
        "preempt_count s' = preempt_count s2"
      using schedule_total [OF i2] by blast
    have "handle_timer_irq s = Some s'"
      using True s'(1) s1(1) by (simp add: handle_timer_irq_def flip: s2_def)
    then show ?thesis
      using s' ew u by (intro exI [of _ s'] exI [of _ R'] exI [of _ B'] exI [of _ Rw]) simp
  next
    case False
    then have "handle_timer_irq s = Some s2"
      using s1(1) by (simp add: handle_timer_irq_def flip: s2_def)
    then show ?thesis
      using i2 ew u by (intro exI [of _ s2] exI [of _ Rw] exI [of _ B'] exI [of _ Rw]) simp
  qed
qed

lemma schedule_blocked_current:
  assumes q: "sched_queues s R B" and pre: "preempt_count s \<le> 0" and r: "threads_of R \<noteq> {}"
  shows "\<exists>s' R'. schedule s = Some (E_OK, s') \<and> sched_inv s' R' B \<and>
    (\<forall>p<NUM_PRIORITIES. set (R' ! p) = set (R ! p)) \<and> preempt_count s' = preempt_count s \<and>
    thread_deadline s' = thread_deadline s"
proof -
  obtain j where "j < NUM_PRIORITIES" "R ! j \<noteq> []" using r by (force simp: threads_of_def)
  then obtain p where "top_queue R p" using top_queue_exists by blast
  then obtain x xs where p: "top_queue R p" "R ! p = x # xs" by (cases "R ! p") (auto simp: top_queue_def)
  have "set (R[p := xs @ [x]] ! j) = set (R ! j)" if "j < NUM_PRIORITIES" for j
    using p(2) that sched_queuesD(1) [OF q] by (cases "j = p") auto
  then show ?thesis
    using schedule_queues [OF q pre p]
    by (intro exI [of _ "switched p x (hd (xs @ [x])) s"] exI [of _ "R[p := xs @ [x]]"])
      (simp add: switched_def)
qed

lemma sleep_until_total:
  assumes i: "sched_inv s R B" and p: "p < NUM_PRIORITIES" and t: "current_thread s = t" "t \<in> set (R ! p)"
    and d: "d = NO_DEADLINE \<or> length (B ! p) \<le> 1" and pre: "preempt_count s \<le> 0"
    and o: "u \<in> threads_of R" "u \<noteq> t"
  shows "\<exists>s' R'. sleep_until d s = Some (E_OK, s') \<and>
    sched_inv s' R' (B[p := sleeper_queue (thread_deadline s) t d (B ! p)]) \<and>
    (\<forall>j<NUM_PRIORITIES. set (R' ! j) = set (R ! j) - {t}) \<and> preempt_count s' = preempt_count s \<and>
    thread_deadline s' = (thread_deadline s)(t := d)"
proof -
  have q: "sched_queues s R B" using i by (simp add: sched_inv_def)
  note len = sched_queuesD(1) [OF q]
  obtain h h' l where a: "sleep_until d s = map_option (\<lambda>(_, s). (E_OK, s)) (schedule (asleep p t d h h' l s))"
      "sched_queues (asleep p t d h h' l s) (R[p := remove1 t (R ! p)])
        (B[p := sleeper_queue (thread_deadline s) t d (B ! p)])"
    using sleep_until_asleep [OF q p t d] by blast
  have rm: "set (R[p := remove1 t (R ! p)] ! j) = set (R ! j) - {t}" if j: "j < NUM_PRIORITIES" for j
  proof (cases "j = p")
    case True
    then show ?thesis using len p lh.dlist_distinct [OF sched_runnable [OF q p]] by simp
  next
    case False
    then have "set (R ! j) \<inter> set (R ! p) = {}"
      using in_queue_thread(2) [OF q j] in_queue_thread(2) [OF q p] by blast
    then show ?thesis using False t(2) by auto
  qed
  have "threads_of (R[p := remove1 t (R ! p)]) \<noteq> {}"
    using o rm unfolding threads_of_def by blast
  then show ?thesis
    using schedule_blocked_current [OF a(2)] pre a(1) rm by (auto simp: asleep_def)
qed

lemma kthread_create_queues:
  assumes q: "sched_queues s R B" and t: "t \<noteq> NULL" "t \<notin> threads_of R" "t \<notin> threads_of B"
  shows "\<exists>s'. kthread_create t p s = Some s' \<and> sched_queues s' R B \<and> thread_priority s' t = p \<and>
    current_thread s' = current_thread s \<and> preempt_count s' = preempt_count s"
proof -
  note d = sched_queuesD [OF q]
  obtain l where l: "intrusive_list_init link_ops t (sched_links s) = Some (t, l)"
    and fr: "\<And>f :: link_heap \<Rightarrow> bool. unobserved link_ops {t} f \<Longrightarrow> f l = f (sched_links s)"
    using t(1) lh.init_frame [of t "sched_links s"] by (simp add: intrusive_list_init_def unobserved_def)
  have nt: "t \<notin> set ((R @ B) ! i)" if "i < length (R @ B)" for i
  proof (cases "i < length R")
    case True
    then show ?thesis using t(2) d(1) by (auto simp: nth_append threads_of_def)
  next
    case False
    then have "i - NUM_PRIORITIES < NUM_PRIORITIES" "(R @ B) ! i = B ! (i - NUM_PRIORITIES)"
      using that d(1,2) by (auto simp: nth_append)
    then show ?thesis using t(3) by (auto simp: threads_of_def)
  qed
  have "rings l (runnable_queues s @ blocked_queues s) (R @ B)"
    using d(5) nt fr [OF unobserved_ring] unfolding rings_def by simp
  then have "sched_queues (s\<lparr>sched_links := l, thread_priority := (thread_priority s)(t := p),
      thread_deadline := (thread_deadline s)(t := 0),
      thread_state := (thread_state s)(t := KTHREAD_STATE_ZOMBIE)\<rparr>) R B"
    using q t(2,3) by (auto simp: sched_queues_def threads_of_def)
  then show ?thesis using l by (simp add: kthread_create_def)
qed

inductive sched_reach :: "ptr \<Rightarrow> ptr set \<Rightarrow> 'z scheduler_scheme \<Rightarrow> bool" for idle where
  reach_init: "idle \<noteq> NULL \<Longrightarrow> scheduler_init idle s0 = Some s \<Longrightarrow> sched_reach idle {idle} s"
| reach_spawn: "sched_reach idle T s \<Longrightarrow> t \<noteq> NULL \<Longrightarrow> t \<notin> T \<Longrightarrow> p < NUM_PRIORITIES \<Longrightarrow>
    kthread_create t p s = Some s1 \<Longrightarrow> add_thread t s1 = Some (e, s') \<Longrightarrow> sched_reach idle (insert t T) s'"
| reach_schedule: "sched_reach idle T s \<Longrightarrow> schedule s = Some (e, s') \<Longrightarrow> sched_reach idle T s'"
| reach_sleep: "sched_reach idle T s \<Longrightarrow> current_thread s \<noteq> idle \<Longrightarrow> preempt_count s = 0 \<Longrightarrow>
    h = blocked_queues s ! thread_priority s (current_thread s) \<Longrightarrow>
    d = NO_DEADLINE \<or> h = NULL \<or> lnext (sched_links s) h = h \<Longrightarrow>
    sleep_until d s = Some (e, s') \<Longrightarrow> sched_reach idle T s'"
| reach_wake: "sched_reach idle T s \<Longrightarrow> t \<in> T \<Longrightarrow> wake t s = Some (e, s') \<Longrightarrow> sched_reach idle T s'"
| reach_timer: "sched_reach idle T s \<Longrightarrow> handle_timer_irq s = Some s' \<Longrightarrow> sched_reach idle T s'"
| reach_disable: "sched_reach idle T s \<Longrightarrow> sched_reach idle T (preempt_disable s)"
| reach_enable: "sched_reach idle T s \<Longrightarrow> preempt_enable r s = Some s' \<Longrightarrow> sched_reach idle T s'"

definition sched_ok :: "ptr \<Rightarrow> ptr set \<Rightarrow> 'z scheduler_scheme \<Rightarrow> bool" where
  "sched_ok idle T s \<longleftrightarrow> 0 \<le> preempt_count s \<and>
     (\<exists>R B. sched_inv s R B \<and> threads_of R \<union> threads_of B = T \<and> idle \<in> threads_of R)"

lemma threads_of_split:
  "p < NUM_PRIORITIES \<Longrightarrow> threads_of Q = set (Q ! p) \<union> (\<Union>j\<in>{..<NUM_PRIORITIES} - {p}. set (Q ! j))"
  by (auto simp: threads_of_def)

lemma threads_of_update:
  assumes "p < NUM_PRIORITIES" "length Q = NUM_PRIORITIES"
  shows "threads_of (Q[p := xs]) = set xs \<union> (\<Union>j\<in>{..<NUM_PRIORITIES} - {p}. set (Q ! j))"
proof -
  have "threads_of (Q[p := xs]) = set (Q[p := xs] ! p) \<union> (\<Union>j\<in>{..<NUM_PRIORITIES} - {p}. set (Q[p := xs] ! j))"
    using assms(1) by (rule threads_of_split)
  also have "(\<Union>j\<in>{..<NUM_PRIORITIES} - {p}. set (Q[p := xs] ! j)) = (\<Union>j\<in>{..<NUM_PRIORITIES} - {p}. set (Q ! j))"
    by (rule SUP_cong) simp_all
  finally show ?thesis using assms by simp
qed

lemma threads_of_cong:
  "(\<And>p. p < NUM_PRIORITIES \<Longrightarrow> set (Q' ! p) = set (Q ! p)) \<Longrightarrow> threads_of Q' = threads_of Q"
  by (simp add: threads_of_def)

lemma sched_invI: "sched_queues s R B \<Longrightarrow> current_thread s \<in> threads_of R \<Longrightarrow> sched_inv s R B"
  using threads_of_concat [of R] sched_queuesD(1) by (auto simp: sched_inv_def)

lemma sched_invD:
  assumes "sched_inv s R B"
  shows "sched_queues s R B" "current_thread s \<in> threads_of R"
  using assms threads_of_concat [of R] sched_queuesD(1) by (auto simp: sched_inv_def)

lemma sched_okI:
  "sched_queues s R B \<Longrightarrow> current_thread s \<in> threads_of R \<Longrightarrow> threads_of R \<union> threads_of B = T \<Longrightarrow>
    idle \<in> threads_of R \<Longrightarrow> 0 \<le> preempt_count s \<Longrightarrow> sched_ok idle T s"
  using sched_invI unfolding sched_ok_def by blast

lemma sched_ok_init:
  assumes "idle \<noteq> NULL" "scheduler_init idle s0 = Some s"
  shows "sched_ok idle {idle} s"
proof -
  obtain l where l: "intrusive_list_init link_ops idle (sched_links s0) = Some (idle, l)"
    using assms(1) by (simp add: intrusive_list_init_def)
  let ?E = "replicate NUM_PRIORITIES ([] :: ptr list)"
  let ?s = "s0\<lparr>sched_links := l, thread_priority := (thread_priority s0)(idle := 0),
      thread_deadline := (thread_deadline s0)(idle := 0), thread_state := (thread_state s0)(idle := KTHREAD_STATE_ZOMBIE),
      current_thread := NULL, need_resched := False, nearest_tsc_deadline := NO_DEADLINE,
      preempt_count := 0, runnable_queues := replicate NUM_PRIORITIES NULL,
      blocked_queues := replicate NUM_PRIORITIES NULL\<rparr>"
  have "sched_queues ?s ?E ?E" by (simp add: sched_queues_def rings_def nth_append)
  then obtain s1 where s1: "add_thread idle ?s = Some (E_OK, s1)" "sched_queues s1 (?E[0 := [idle]]) ?E"
      "preempt_count s1 = 0"
    using add_thread_queues [of ?s ?E ?E idle 0] assms(1) by (auto simp: NUM_PRIORITIES_def)
  have s: "s = s1\<lparr>current_thread := idle\<rparr>"
    using assms(2) l s1(1) by (simp add: scheduler_init_def kthread_create_def)
  have "sched_queues s (?E[0 := [idle]]) ?E" using s1(2) unfolding s by (simp add: sched_queues_def)
  moreover have "threads_of (?E[0 := [idle]]) = {idle}" "threads_of ?E = {}"
    using threads_of_update [of 0 ?E "[idle]"] by (auto simp: NUM_PRIORITIES_def threads_of_def)
  ultimately show ?thesis
    by (intro sched_okI [of s "?E[0 := [idle]]" ?E]) (simp_all add: s s1(3))
qed

lemma sched_ok_spawn:
  assumes "sched_ok idle T s" "t \<noteq> NULL" "t \<notin> T" "p < NUM_PRIORITIES" "kthread_create t p s = Some s1"
    "add_thread t s1 = Some (e, s')"
  shows "sched_ok idle (insert t T) s'"
proof -
  obtain R B where i: "sched_inv s R B" "threads_of R \<union> threads_of B = T" "idle \<in> threads_of R" "0 \<le> preempt_count s"
    using assms(1) by (auto simp: sched_ok_def)
  have q1: "sched_queues s1 R B" "thread_priority s1 t = p" "current_thread s1 = current_thread s"
      "preempt_count s1 = preempt_count s"
    using kthread_create_queues [OF sched_invD(1) [OF i(1)] assms(2), of p] assms(3,5) i(2) by auto
  note len = sched_queuesD(1,2) [OF q1(1)]
  have fresh: "t \<notin> set (concat (R @ B))"
    using threads_of_concat len assms(3) i(2) by auto
  have s': "sched_queues s' (R[p := t # R ! p]) B" "current_thread s' = current_thread s" "preempt_count s' = preempt_count s"
    using add_thread_queues [OF q1(1) assms(2) fresh q1(2) assms(4)] assms(6) q1(3,4) by auto
  have "threads_of (R[p := t # R ! p]) = insert t (threads_of R)"
    using len assms(4) threads_of_split [of p R] by (simp add: threads_of_update)
  then show ?thesis
    using s' i sched_invD(2) [OF i(1)] by (intro sched_okI [of s' "R[p := t # R ! p]" B]) auto
qed

lemma sched_ok_schedule:
  assumes "sched_ok idle T s" "schedule s = Some (e, s')"
  shows "sched_ok idle T s'"
proof -
  obtain R B where i: "sched_inv s R B" "threads_of R \<union> threads_of B = T" "idle \<in> threads_of R" "0 \<le> preempt_count s"
    using assms(1) by (auto simp: sched_ok_def)
  obtain R' where "sched_inv s' R' B" "\<forall>p<NUM_PRIORITIES. set (R' ! p) = set (R ! p)" "preempt_count s' = preempt_count s"
    using schedule_total [OF i(1)] assms(2) by auto
  then show ?thesis
    using i threads_of_cong [of R' R] unfolding sched_ok_def by (intro conjI exI [of _ R'] exI [of _ B]) simp_all
qed

lemma set_sleeper_queue:
  "d = NO_DEADLINE \<or> length xs \<le> 1 \<Longrightarrow> set (sleeper_queue dl t d xs) = insert t (set xs)"
  by (auto simp: sleeper_queue_def split: list.splits)

lemma single_sleeper:
  assumes q: "sched_queues s R B" "p < NUM_PRIORITIES"
    and h: "h = blocked_queues s ! p" "h = NULL \<or> lnext (sched_links s) h = h"
  shows "length (B ! p) \<le> 1"
proof (cases "B ! p")
  case (Cons x xs)
  note r = sched_blocked [OF q]
  have "h = x" "x \<noteq> NULL" using dlist_hd [OF r] Cons h(1) in_queue_thread(1) [OF q, of x] by simp_all
  moreover have "lnext (sched_links s) x = hd (xs @ [x])"
    using dlist_next [of link_ops _ "sched_links s" "blocked_queues s ! p" "[]" x xs] r Cons h(1) \<open>h = x\<close> by simp
  moreover have "distinct (x # xs)" using lh.dlist_distinct [OF r] Cons by simp
  ultimately show ?thesis using h(2) Cons by (cases xs) auto
qed simp

lemma sched_ok_sleep:
  assumes "sched_ok idle T s" "current_thread s \<noteq> idle" "preempt_count s = 0"
    "h = blocked_queues s ! thread_priority s (current_thread s)"
    "d = NO_DEADLINE \<or> h = NULL \<or> lnext (sched_links s) h = h" "sleep_until d s = Some (e, s')"
  shows "sched_ok idle T s'"
proof -
  obtain R B where i: "sched_inv s R B" "threads_of R \<union> threads_of B = T" "idle \<in> threads_of R"
    using assms(1) by (auto simp: sched_ok_def)
  note q = sched_invD(1) [OF i(1)]
  note len = sched_queuesD(1,2) [OF q]
  obtain p where p: "p < NUM_PRIORITIES" "current_thread s \<in> set (R ! p)"
    using sched_invD(2) [OF i(1)] by (auto simp: threads_of_def)
  have pr: "thread_priority s (current_thread s) = p" using in_queue_thread(2) [OF q p(1)] p(2) by blast
  have d: "d = NO_DEADLINE \<or> length (B ! p) \<le> 1"
    using single_sleeper [OF q p(1), of h] assms(4,5) pr by blast
  obtain R' where r: "sched_inv s' R' (B[p := sleeper_queue (thread_deadline s) (current_thread s) d (B ! p)])"
      "\<forall>j<NUM_PRIORITIES. set (R' ! j) = set (R ! j) - {current_thread s}" "preempt_count s' = preempt_count s"
    using sleep_until_total [OF i(1) p(1) refl p(2) d _ i(3)] assms(2,3,6) by auto
  have tR: "threads_of R' = threads_of R - {current_thread s}" using r(2) by (auto simp: threads_of_def)
  have tB: "threads_of (B[p := sleeper_queue (thread_deadline s) (current_thread s) d (B ! p)]) =
      insert (current_thread s) (threads_of B)"
    using p len threads_of_split [of p B] set_sleeper_queue [OF d] by (simp add: threads_of_update)
  have "threads_of R' \<union> threads_of (B[p := sleeper_queue (thread_deadline s) (current_thread s) d (B ! p)]) = T"
    using i(2) sched_invD(2) [OF i(1)] unfolding tR tB by auto
  moreover have "idle \<in> threads_of R'" using i(3) assms(2) tR by simp
  ultimately show ?thesis using r(1,3) assms(3) unfolding sched_ok_def by auto
qed

lemma sched_ok_wake:
  assumes "sched_ok idle T s" "t \<in> T" "wake t s = Some (e, s')"
  shows "sched_ok idle T s'"
proof -
  obtain R B where i: "sched_inv s R B" "threads_of R \<union> threads_of B = T" "idle \<in> threads_of R" "0 \<le> preempt_count s"
    using assms(1) by (auto simp: sched_ok_def)
  note q = sched_invD(1) [OF i(1)]
  note len = sched_queuesD(1,2) [OF q]
  show ?thesis
  proof (cases "t \<in> threads_of B")
    case False
    then obtain p where "p < NUM_PRIORITIES" "t \<in> set (R ! p)" using assms(2) i(2) by (auto simp: threads_of_def)
    then have "thread_state s t \<noteq> KTHREAD_STATE_BLOCKED" "t \<noteq> NULL"
      using sched_queuesD(7) [OF q, of p t] in_queue_thread(1) [OF q, of p t] by auto
    then have "s' = s" using assms(3) by (simp add: wake_def)
    then show ?thesis using assms(1) by simp
  next
    case True
    then obtain p where p: "p < NUM_PRIORITIES" "t \<in> set (B ! p)" by (auto simp: threads_of_def)
    have s': "sched_queues s' (R[p := t # R ! p]) (B[p := remove1 t (B ! p)])"
        "current_thread s' = current_thread s" "preempt_count s' = preempt_count s"
      using wake_queues [OF q p] assms(3) by (auto simp: Let_def)
    have tR: "threads_of (R[p := t # R ! p]) = insert t (threads_of R)"
      using len p threads_of_split [of p R] by (simp add: threads_of_update)
    have "insert t (threads_of (B[p := remove1 t (B ! p)])) = threads_of B"
      using len p threads_of_split [of p B] lh.dlist_distinct [OF sched_blocked [OF q p(1)]] by (auto simp: threads_of_update)
    then have "threads_of (R[p := t # R ! p]) \<union> threads_of (B[p := remove1 t (B ! p)]) = T"
      using i(2) tR by auto
    then show ?thesis
      using s' i tR sched_invD(2) [OF i(1)]
      by (intro sched_okI [of s' "R[p := t # R ! p]" "B[p := remove1 t (B ! p)]"]) auto
  qed
qed

lemma sched_ok_timer:
  assumes "sched_ok idle T s" "handle_timer_irq s = Some s'"
  shows "sched_ok idle T s'"
proof -
  obtain R B where i: "sched_inv s R B" "threads_of R \<union> threads_of B = T" "idle \<in> threads_of R" "0 \<le> preempt_count s"
    using assms(1) by (auto simp: sched_ok_def)
  obtain s'' R' B' Rw where x: "handle_timer_irq s = Some s''" "sched_inv s'' R' B'"
      "preempt_count s'' = preempt_count s"
      "\<forall>p<NUM_PRIORITIES. expired_woken s (tsc_reads s'') (R ! p) (B ! p) (Rw ! p) (B' ! p) \<and>
        set (R' ! p) = set (Rw ! p)"
    using handle_timer_irq_total [OF i(1)] by blast
  have r: "sched_inv s' R' B'" "preempt_count s' = preempt_count s"
      "\<And>p. p < NUM_PRIORITIES \<Longrightarrow> expired_woken s (tsc_reads s') (R ! p) (B ! p) (Rw ! p) (B' ! p)"
      "\<And>p. p < NUM_PRIORITIES \<Longrightarrow> set (R' ! p) = set (Rw ! p)"
    using x assms(2) by simp_all
  have "threads_of R' \<union> threads_of B' = threads_of R \<union> threads_of B"
    using expired_woken_sets(2) [OF r(3)] r(4) unfolding threads_of_def by (simp flip: UN_Un_distrib)
  moreover have "threads_of R \<subseteq> threads_of R'"
    using expired_woken_sets(1) [OF r(3)] r(4) unfolding threads_of_def by (intro UN_mono) simp_all
  ultimately show ?thesis using r(1,2) i(2-4) unfolding sched_ok_def by auto
qed

lemma sched_ok_preempt:
  assumes "sched_ok idle T s"
  shows "sched_ok idle T (preempt_disable s)" "preempt_enable r s = Some s' \<Longrightarrow> sched_ok idle T s'"
proof -
  have count: "sched_ok idle T (s\<lparr>preempt_count := c\<rparr>)" if "0 \<le> c" for c
    using assms that by (simp add: sched_ok_def sched_inv_def sched_queues_def)
  show "sched_ok idle T (preempt_disable s)"
    using count [of "preempt_count s + 1"] assms by (simp add: preempt_disable_def sched_ok_def)
  show "sched_ok idle T s'" if "preempt_enable r s = Some s'"
    using that count [of "preempt_count s - 1"] assms sched_ok_schedule [OF count [of "preempt_count s - 1"]]
    by (auto simp: preempt_enable_def Let_def split: if_splits)
qed

lemma sched_ok_reach: "sched_reach idle T s \<Longrightarrow> sched_ok idle T s"
  by (induction rule: sched_reach.induct)
    (fact sched_ok_init, rule sched_ok_spawn, assumption+, rule sched_ok_schedule, assumption+,
      rule sched_ok_sleep, assumption+, rule sched_ok_wake, assumption+, rule sched_ok_timer, assumption+,
      rule sched_ok_preempt(1), assumption+, rule sched_ok_preempt(2), assumption+)

subsection \<open>Round robin\<close>

primrec schedule_n :: "nat \<Rightarrow> 'z scheduler_scheme \<Rightarrow> 'z scheduler_scheme option" where
  "schedule_n 0 s = Some s"
| "schedule_n (Suc n) s = do { (_, s) \<leftarrow> schedule s; schedule_n n s }"

lemma schedule_n_rotates:
  assumes "sched_queues s R B" "preempt_count s \<le> 0" "top_queue R p" "R ! p = xs @ ys"
  shows "\<exists>s'. schedule_n (length xs) s = Some s' \<and> sched_queues s' (R[p := ys @ xs]) B \<and>
    current_thread s' = last (current_thread s # xs) \<and>
    events s' = events s @ map2 Context_switch (current_thread s # xs) xs"
  using assms
proof (induction xs arbitrary: s R ys)
  case Nil
  then show ?case using list_update_id [of R p] by simp
next
  case (Cons x xs)
  let ?s = "switched p x (hd ((xs @ ys) @ [x])) s"
  note top = Cons.prems(3)
  have p: "p < length R" using sched_queuesD(1) [OF Cons.prems(1)] top by (simp add: top_queue_def)
  have s1: "schedule s = Some (E_OK, ?s)" "sched_queues ?s (R[p := (xs @ ys) @ [x]]) B"
    using schedule_queues [OF Cons.prems(1-3), of x "xs @ ys"] Cons.prems(4) by (simp_all add: sched_inv_def)
  have top1: "top_queue (R[p := (xs @ ys) @ [x]]) p"
    using top sched_queuesD(1) [OF Cons.prems(1)] by (auto simp: top_queue_def)
  obtain s' where s': "schedule_n (length xs) ?s = Some s'" "sched_queues s' (R[p := (ys @ [x]) @ xs]) B"
      "current_thread s' = last (x # xs)"
      "events s' = events ?s @ map2 Context_switch (x # xs) xs"
    using Cons.IH [OF s1(2) _ top1, of "ys @ [x]"] Cons.prems(2) p by (auto simp: switched_def)
  then show ?case
    using s1(1) by (intro exI [of _ s']) (simp add: switched_def)
qed

subsection \<open>A running system\<close>

definition demo_sched :: scheduler where
  "demo_sched = \<lparr>runnable_queues = [0x10, 0x20, 0, 0, 0, 0, 0, 0, 0, 0],
     blocked_queues = [0, 0x30, 0, 0, 0, 0, 0, 0, 0, 0], current_thread = 0x20, need_resched = False,
     nearest_tsc_deadline = 5, preempt_count = 0, sched_links = \<lparr>lnext = (\<lambda>p. p), lprev = (\<lambda>p. p)\<rparr>,
     thread_priority = (\<lambda>t. if t = 0x10 then 0 else 1),
     thread_state = (\<lambda>t. if t = 0x30 then KTHREAD_STATE_BLOCKED else KTHREAD_STATE_ACTIVE),
     thread_deadline = (\<lambda>t. if t = 0x30 then 5 else 0), tsc_counter = (\<lambda>n. of_nat (min n 100)), tsc_reads = 7,
     events = []\<rparr>"

abbreviation demo_R :: "ptr list list" where
  "demo_R \<equiv> [[0x10], [0x20], [], [], [], [], [], [], [], []]"

abbreviation demo_B :: "ptr list list" where
  "demo_B \<equiv> [[], [0x30], [], [], [], [], [], [], [], []]"

lemma rings_list_all2: "rings l hs Qs \<longleftrightarrow> distinct (concat Qs) \<and> list_all2 (ring l) hs Qs"
  by (auto simp: rings_def list_all2_conv_all_nth)

lemma all_priorities:
  "(\<forall>i<NUM_PRIORITIES. P i) \<longleftrightarrow> list_all P [0, 1, 2, 3, 4, 5, 6, 7, 8, 9]"
proof -
  have "(\<forall>i<NUM_PRIORITIES. P i) \<longleftrightarrow> list_all P [0..<NUM_PRIORITIES]" by (auto simp: list_all_iff)
  moreover have "[0..<NUM_PRIORITIES] = [0, 1, 2, 3, 4, 5, 6, 7, 8, 9]" unfolding NUM_PRIORITIES_def by code_simp
  ultimately show ?thesis by simp
qed

lemma demo_inv: "sched_inv demo_sched demo_R demo_B"
  by (simp add: sched_inv_def sched_queues_def all_priorities rings_list_all2)
    (simp add: demo_sched_def NUM_PRIORITIES_def dlist_def)

subsection \<open>Properties\<close>

text \<open>
  C9. Scheduling is strict priority with round robin inside a priority: from a state with intact
  queues and preemption enabled, as many calls of schedule as the highest non-empty queue has
  threads switch to each of its threads exactly once, in queue order, and leave all queues as they were.
\<close>

theorem schedule_round_robin:
  assumes "sched_queues s R B" "preempt_count s \<le> 0" "top_queue R p"
  shows "\<exists>s'. schedule_n (length (R ! p)) s = Some s' \<and> sched_inv s' R B \<and>
    events s' = events s @ map2 Context_switch (current_thread s # R ! p) (R ! p)"
proof -
  obtain s' where s': "schedule_n (length (R ! p)) s = Some s'" "sched_queues s' R B"
      "current_thread s' = last (current_thread s # R ! p)"
      "events s' = events s @ map2 Context_switch (current_thread s # R ! p) (R ! p)"
    using schedule_n_rotates [OF assms, of "R ! p" "[]"] by auto
  have p: "p < NUM_PRIORITIES" "R ! p \<noteq> []" using assms(3) by (simp_all add: top_queue_def)
  then have "current_thread s' \<in> set (R ! p)" using s'(3) by simp
  then have "current_thread s' \<in> threads_of R" using p(1) by (auto simp: threads_of_def)
  then show ?thesis using s' sched_invI by blast
qed

theorem schedule_round_robin_witness:
  "\<exists>s'. schedule_n (length (demo_R ! 1)) demo_sched = Some s' \<and> sched_inv s' demo_R demo_B \<and>
    events s' = events demo_sched @ map2 Context_switch (current_thread demo_sched # demo_R ! 1) (demo_R ! 1)"
  by (rule schedule_round_robin [OF sched_invD(1) [OF demo_inv]])
    (simp_all add: top_queue_def all_priorities, simp_all add: demo_sched_def NUM_PRIORITIES_def)


definition demo_boot :: scheduler where
  "demo_boot = the (scheduler_init 0x10 demo_sched)"

lemma scheduler_init_returns:
  "idle \<noteq> NULL \<Longrightarrow> \<exists>s. scheduler_init idle s0 = Some s"
  by (simp add: scheduler_init_def kthread_create_def intrusive_list_init_def add_thread_def queue_index_def
      NUM_PRIORITIES_def intrusive_list_push_back_def)




text \<open>
  wake of a blocked thread always succeeds: the thread leaves its blocked queue, becomes the
  head of the run queue of its priority, and a reschedule is requested exactly when one was pending or it
  has a higher priority than the current thread. Every other thread keeps its queue.
\<close>

theorem wake_makes_runnable:
  assumes "sched_inv s R B" "p < NUM_PRIORITIES" "t \<in> set (B ! p)"
  shows "\<exists>s'. wake t s = Some (E_OK, s') \<and>
    sched_inv s' (R[p := t # R ! p]) (B[p := remove1 t (B ! p)]) \<and>
    thread_state s' t = KTHREAD_STATE_RUNNABLE \<and> current_thread s' = current_thread s \<and>
    need_resched s' = (need_resched s \<or>
      (current_thread s \<noteq> NULL \<and> thread_priority s (current_thread s) < p))"
proof -
  note q = sched_invD(1) [OF assms(1)]
  have "current_thread s \<in> threads_of (R[p := t # R ! p])"
    using sched_invD(2) [OF assms(1)] assms(2) sched_queuesD(1) [OF q] threads_of_split [of p R]
    by (auto simp: threads_of_update)
  then show ?thesis
    using wake_queues [OF q assms(2,3)] by (auto simp: Let_def intro!: sched_invI)
qed

theorem wake_makes_runnable_witness:
  "\<exists>s'. wake 0x30 demo_sched = Some (E_OK, s') \<and>
    sched_inv s' (demo_R[1 := 0x30 # demo_R ! 1]) (demo_B[1 := remove1 0x30 (demo_B ! 1)]) \<and>
    thread_state s' 0x30 = KTHREAD_STATE_RUNNABLE \<and> current_thread s' = current_thread demo_sched \<and>
    need_resched s' = (need_resched demo_sched \<or>
      (current_thread demo_sched \<noteq> NULL \<and> thread_priority demo_sched (current_thread demo_sched) < 1))"
  by (rule wake_makes_runnable [OF demo_inv]) (simp_all add: NUM_PRIORITIES_def)

text \<open>
  C10. The timer interrupt handler returns, and for blocked queues sorted by deadline and a time stamp
  counter that does not run backwards it wakes every thread whose deadline had passed when it started, wakes no thread
  whose deadline lies at or after its last reading of the counter, and moves no thread to another priority.
\<close>

theorem timer_irq_wakes_expired:
  assumes i: "sched_inv s R B" and m: "mono (tsc_counter s)"
    and sorted: "\<forall>p<NUM_PRIORITIES. sorted (map (thread_deadline s) (B ! p))"
  shows "\<exists>s' R' B'. handle_timer_irq s = Some s' \<and> sched_inv s' R' B' \<and>
    (\<forall>p<NUM_PRIORITIES. set (R' ! p) \<union> set (B' ! p) = set (R ! p) \<union> set (B ! p) \<and>
      (\<forall>t\<in>set (B ! p). (thread_deadline s t < tsc_counter s (tsc_reads s) \<longrightarrow> t \<in> set (R' ! p)) \<and>
        (tsc_counter s (tsc_reads s') \<le> thread_deadline s t \<longrightarrow> t \<in> set (B' ! p))))"
proof -
  obtain s' R' B' Rw where x: "handle_timer_irq s = Some s'" "sched_inv s' R' B'"
      "\<forall>p<NUM_PRIORITIES. expired_woken s (tsc_reads s') (R ! p) (B ! p) (Rw ! p) (B' ! p) \<and>
        set (R' ! p) = set (Rw ! p)"
    using handle_timer_irq_total [OF i] by blast
  show ?thesis
  proof (intro exI conjI allI impI ballI)
    fix p assume p: "p < NUM_PRIORITIES"
    note ew = x(3) [rule_format, OF p]
    show "set (R' ! p) \<union> set (B' ! p) = set (R ! p) \<union> set (B ! p)" using ew expired_woken_sets(2) by metis
    fix t assume t: "t \<in> set (B ! p)"
    show "t \<in> set (R' ! p)" if "thread_deadline s t < tsc_counter s (tsc_reads s)"
      using expired_woken_due [OF conjunct1 [OF ew] m sorted [rule_format, OF p] t that] ew by simp
    show "t \<in> set (B' ! p)" if "tsc_counter s (tsc_reads s') \<le> thread_deadline s t"
      using expired_woken_not_due [OF conjunct1 [OF ew] m t that] .
  qed (use x in simp_all)
qed

theorem timer_irq_wakes_expired_witness:
  "\<exists>s' R' B'. handle_timer_irq demo_sched = Some s' \<and> sched_inv s' R' B' \<and>
    (\<forall>p<NUM_PRIORITIES. set (R' ! p) \<union> set (B' ! p) = set (demo_R ! p) \<union> set (demo_B ! p) \<and>
      (\<forall>t\<in>set (demo_B ! p).
        (thread_deadline demo_sched t < tsc_counter demo_sched (tsc_reads demo_sched) \<longrightarrow> t \<in> set (R' ! p)) \<and>
        (tsc_counter demo_sched (tsc_reads s') \<le> thread_deadline demo_sched t \<longrightarrow> t \<in> set (B' ! p))))"
proof (rule timer_irq_wakes_expired [OF demo_inv])
  show "mono (tsc_counter demo_sched)"
    by (rule monoI) (simp add: demo_sched_def of_nat64_le)
  show "\<forall>p<NUM_PRIORITIES. sorted (map (thread_deadline demo_sched) (demo_B ! p))"
    by (simp add: all_priorities)
qed

text \<open>
  A thread that sleeps without a deadline hides the timed sleepers of its priority: it is put in front of
  their blocked queue, and the timer interrupt, which stops at the first thread that is not due, wakes none of
  them, however long their deadlines have passed.
\<close>

theorem infinite_sleeper_hides_timed:
  assumes i: "sched_inv s R B" and p: "p < NUM_PRIORITIES" and t: "current_thread s = t" "t \<in> set (R ! p)"
    and pre: "preempt_count s \<le> 0" and u: "u \<in> threads_of R" "u \<noteq> t"
  shows "\<exists>s1 s2 R' B'. sleep_until NO_DEADLINE s = Some (E_OK, s1) \<and> handle_timer_irq s1 = Some s2 \<and>
    sched_inv s2 R' B' \<and> B' ! p = t # B ! p"
proof -
  let ?B = "B[p := t # B ! p]"
  obtain s1 R1 where s1: "sleep_until NO_DEADLINE s = Some (E_OK, s1)" "sched_inv s1 R1 ?B"
      "thread_deadline s1 t = NO_DEADLINE"
    using sleep_until_total [OF i p t disjI1 [OF refl] pre u] by (auto simp: sleeper_queue_def)
  obtain s2 R' B' Rw where s2: "handle_timer_irq s1 = Some s2" "sched_inv s2 R' B'"
      "expired_woken s1 (tsc_reads s2) (R1 ! p) (?B ! p) (Rw ! p) (B' ! p)"
    using handle_timer_irq_total [OF s1(2)] p by blast
  have Bp: "?B ! p = t # B ! p" using p sched_queuesD(2) [OF sched_invD(1) [OF i]] by simp
  have "\<not> thread_deadline s1 ((t # B ! p) ! 0) < tsc_counter s1 j" for j
    using s1(3) by (simp add: word_order.not_eq_extremum)
  then have "B' ! p = t # B ! p"
    using s2(3) unfolding expired_woken_def Bp by (metis drop0 gr0I)
  then show ?thesis using s1(1) s2(1,2) by blast
qed

theorem infinite_sleeper_hides_timed_witness:
  "\<exists>s1 s2 R' B'. sleep_until NO_DEADLINE demo_sched = Some (E_OK, s1) \<and> handle_timer_irq s1 = Some s2 \<and>
    sched_inv s2 R' B' \<and> B' ! 1 = 0x20 # demo_B ! 1"
  by (rule infinite_sleeper_hides_timed [OF demo_inv, of _ _ "0x10"])
    (simp_all add: threads_of_def demo_sched_def NUM_PRIORITIES_def, auto intro: bexI [of _ 0])

end
