(* ===== verification/Waitq.thy ===== *)
theory Waitq
  imports Scheduler
begin

text \<open>
  Wait queues: kernel/waitq.cpp and kernel/include/kernel/waitq.hpp.

  A \<open>waitq\<close> object is its field \<open>wq_\<close>, the head of a ring of items. An item lives on the
  stack of the waiting thread; the fields of all items are maps of the state, which extends that of
  the scheduler. Items and threads are distinct objects, so the links of items are a heap of their own.

  \<open>wait\<close> is cut at the context switch: \<open>wait_begin\<close> is everything up to it, \<open>wait_end\<close>
  is what runs when the thread is resumed. What other threads do in between to the queue is visible to the caller
  because both halves take and return \<open>wq_\<close>.
\<close>

subsection \<open>State and operations\<close>

record wait_state = scheduler +
  item_links :: link_heap
  wakeup_successful :: "ptr \<Rightarrow> bool"
  item_thread :: "ptr \<Rightarrow> ptr"

type_synonym clock = "nat \<Rightarrow> pvclock_vcpu_time_info"

definition waitq_new :: ptr where
  "waitq_new = NULL"

definition wait_begin ::
  "clock \<Rightarrow> nat \<Rightarrow> u64 \<Rightarrow> ptr \<Rightarrow> ptr \<Rightarrow> 'z wait_state_scheme \<Rightarrow> (ptr \<times> 'z wait_state_scheme) option" where
  "wait_begin clk t timeout_ms ctx wq s = do {
     thread \<leftarrow> KTHREAD_PTR (current_thread s);
     (_, l) \<leftarrow> intrusive_list_init link_ops ctx (item_links s);
     let s = s\<lparr>item_links := l\<rparr>;
     let s = s\<lparr>wakeup_successful := (wakeup_successful s)(ctx := False)\<rparr>;
     let s = s\<lparr>item_thread := (item_thread s)(ctx := thread)\<rparr>;
     (wq, l) \<leftarrow> intrusive_list_push_back link_ops wq ctx (item_links s);
     let s = s\<lparr>item_links := l\<rparr>;
     (_, s) \<leftarrow> sleep clk t timeout_ms s;
     Some (wq, s)
   }"

definition wait_end :: "ptr \<Rightarrow> 'z wait_state_scheme \<Rightarrow> bool" where
  "wait_end ctx s = wakeup_successful s ctx"

definition notify_one :: "ptr \<Rightarrow> 'z wait_state_scheme \<Rightarrow> (ptr \<times> 'z wait_state_scheme) option" where
  "notify_one wq s =
     (if wq = NULL then Some (wq, s)
      else do {
        let ctx = wq;
        let thread = item_thread s ctx;
        let (wq, l) = intrusive_list_delete link_ops wq ctx (item_links s);
        let s = s\<lparr>item_links := l\<rparr>;
        let s = s\<lparr>wakeup_successful := (wakeup_successful s)(ctx := True)\<rparr>;
        (_, s) \<leftarrow> wake thread s;
        (_, s) \<leftarrow> schedule s;
        Some (wq, s)
      })"

text \<open>
  \<open>env n\<close> is what the other threads do to the queue and the system between the switch away from the
  notifier in the \<open>n\<close>-th round and its resumption.
\<close>

partial_function (option) notify_all_from ::
  "(nat \<Rightarrow> ptr \<times> 'z wait_state_scheme \<Rightarrow> ptr \<times> 'z wait_state_scheme) \<Rightarrow> nat \<Rightarrow> ptr \<Rightarrow>
    'z wait_state_scheme \<Rightarrow> (ptr \<times> 'z wait_state_scheme) option" where
  "notify_all_from env n wq s =
     (if wq \<noteq> NULL then do {
        (wq, s) \<leftarrow> notify_one wq s;
        let (wq, s) = env n (wq, s);
        notify_all_from env (n + 1) wq s
      } else Some (wq, s))"

definition notify_all ::
  "(nat \<Rightarrow> ptr \<times> 'z wait_state_scheme \<Rightarrow> ptr \<times> 'z wait_state_scheme) \<Rightarrow> ptr \<Rightarrow>
    'z wait_state_scheme \<Rightarrow> (ptr \<times> 'z wait_state_scheme) option" where
  "notify_all env wq s = notify_all_from env 0 wq s"

definition waitq_destroy ::
  "(nat \<Rightarrow> ptr \<times> 'z wait_state_scheme \<Rightarrow> ptr \<times> 'z wait_state_scheme) \<Rightarrow> ptr \<Rightarrow>
    'z wait_state_scheme \<Rightarrow> 'z wait_state_scheme option" where
  "waitq_destroy env wq s = map_option snd (notify_all env wq s)"

definition waitq_empty :: "ptr \<Rightarrow> bool" where
  "waitq_empty wq \<longleftrightarrow> wq = NULL"

subsection \<open>The scheduler leaves the items alone\<close>

definition same_items :: "'z wait_state_scheme \<Rightarrow> 'z wait_state_scheme \<Rightarrow> bool" where
  "same_items s s' \<longleftrightarrow> item_links s' = item_links s \<and> wakeup_successful s' = wakeup_successful s \<and>
     item_thread s' = item_thread s"

lemma same_items_more:
  assumes "scheduler.more s' = scheduler.more s"
  shows "same_items s s'"
proof -
  have "item_links s' = item_links s" "wakeup_successful s' = wakeup_successful s" "item_thread s' = item_thread s"
    using assms by (cases s; cases s'; simp)+
  then show ?thesis by (simp add: same_items_def)
qed

lemma schedule_more: "schedule s = Some (e, s') \<Longrightarrow> scheduler.more s' = scheduler.more s"
  by (auto simp: schedule_def emit_def Let_def split: if_splits option.splits simp: bind_eq_Some_conv)

lemma remove_thread_more: "remove_thread t s = Some (e, s') \<Longrightarrow> scheduler.more s' = scheduler.more s"
  by (auto simp: remove_thread_def Let_def bind_eq_Some_conv case_prod_beta split: if_splits)

lemma add_thread_more: "add_thread t s = Some (e, s') \<Longrightarrow> scheduler.more s' = scheduler.more s"
  by (auto simp: add_thread_def Let_def split: if_splits prod.splits simp: bind_eq_Some_conv)

lemma wake_more: "wake t s = Some (e, s') \<Longrightarrow> scheduler.more s' = scheduler.more s"
  by (auto simp: wake_def Let_def bind_eq_Some_conv case_prod_beta split: if_splits dest!: add_thread_more)

lemma sleep_until_more: "sleep_until d s = Some (e, s') \<Longrightarrow> scheduler.more s' = scheduler.more s"
  by (auto simp: sleep_until_def Let_def bind_eq_Some_conv emit_def split: if_splits
      dest!: schedule_more remove_thread_more)

lemma sleep_more: "sleep clk t ms s = Some (e, s') \<Longrightarrow> scheduler.more s' = scheduler.more s"
  by (auto simp: sleep_def Let_def bind_eq_Some_conv split: if_splits dest!: sleep_until_more)

subsection \<open>What the operations do to the queue\<close>

definition waitq :: "ptr \<Rightarrow> 'z wait_state_scheme \<Rightarrow> ptr list \<Rightarrow> bool" where
  "waitq wq s items \<longleftrightarrow> ring (item_links s) wq items"

lemma waitq_empty_iff: "waitq wq s items \<Longrightarrow> waitq_empty wq \<longleftrightarrow> items = []"
  by (simp add: waitq_def waitq_empty_def dlist_NULL)

lemma bind_pairE:
  assumes "f \<bind> (\<lambda>(a, b). g a b) = Some y"
  obtains a b where "f = Some (a, b)" "g a b = Some y"
  using assms by (cases f) auto

lemma wait_begin_items:
  assumes q: "waitq wq s items" and c: "ctx \<noteq> NULL" "ctx \<notin> set items"
    and w: "wait_begin clk t ms ctx wq s = Some (wq', s')"
  shows "waitq wq' s' (ctx # items)" "wq' = ctx"
    "wakeup_successful s' = (wakeup_successful s)(ctx := False)"
    "item_thread s' = (item_thread s)(ctx := current_thread s)"
proof -
  obtain l where l: "intrusive_list_init link_ops ctx (item_links s) = Some (ctx, l)"
    and fr: "\<And>f :: link_heap \<Rightarrow> bool. unobserved link_ops {ctx} f \<Longrightarrow> f l = f (item_links s)"
    using c(1) lh.init_frame [of ctx "item_links s"] by (simp add: intrusive_list_init_def unobserved_def)
  have r: "ring l wq items" using q fr [OF unobserved_ring] c(2) by (simp add: waitq_def)
  obtain l' where l': "intrusive_list_push_back link_ops wq ctx l = Some (ctx, l')" "ring l' ctx (ctx # items)"
    using lh.push_back_as_head [OF r c(1)] c(2) by blast
  have c0: "current_thread s \<noteq> NULL" using w by (auto simp: wait_begin_def KTHREAD_PTR_def)
  have "do {
      (_, s) \<leftarrow> sleep clk t ms (s\<lparr>wakeup_successful := (wakeup_successful s)(ctx := False),
        item_thread := (item_thread s)(ctx := current_thread s), item_links := l'\<rparr>);
      Some (ctx, s) } = Some (wq', s')"
    using w l l'(1) c0 by (simp add: wait_begin_def KTHREAD_PTR_def)
  then obtain e s1 where s1: "sleep clk t ms (s\<lparr>wakeup_successful := (wakeup_successful s)(ctx := False),
      item_thread := (item_thread s)(ctx := current_thread s), item_links := l'\<rparr>) = Some (e, s1)"
      "Some (ctx, s1) = Some (wq', s')"
    by (rule bind_pairE)
  have "same_items (s\<lparr>wakeup_successful := (wakeup_successful s)(ctx := False),
      item_thread := (item_thread s)(ctx := current_thread s), item_links := l'\<rparr>) s1"
    using same_items_more [OF sleep_more [OF s1(1)]] .
  then show "waitq wq' s' (ctx # items)" "wq' = ctx"
    "wakeup_successful s' = (wakeup_successful s)(ctx := False)"
    "item_thread s' = (item_thread s)(ctx := current_thread s)"
    using l'(2) s1(2) by (simp_all add: waitq_def same_items_def)
qed

lemma notify_one_items:
  assumes q: "waitq wq s (ctx # items)" and n: "notify_one wq s = Some (wq', s')"
  shows "waitq wq' s' items" "wakeup_successful s' = (wakeup_successful s)(ctx := True)"
    "item_thread s' = item_thread s"
proof -
  have r: "ring (item_links s) wq (ctx # items)" using q by (simp add: waitq_def)
  have h: "wq = ctx" using dlist_hd [OF r] by simp
  have nz: "wq \<noteq> NULL" using dlist_NULL [OF r] by simp
  obtain h' l where del: "intrusive_list_delete link_ops wq ctx (item_links s) = (h', l)" by fastforce
  have r': "ring l h' items" using lh.delete_correct [OF r _ del] by simp
  let ?s = "s\<lparr>item_links := l, wakeup_successful := (wakeup_successful s)(ctx := True)\<rparr>"
  obtain e1 s1 e2 where s1: "wake (item_thread s ctx) ?s = Some (e1, s1)" "schedule s1 = Some (e2, s')" "wq' = h'"
    using n nz del h by (auto simp: notify_one_def Let_def bind_eq_Some_conv)
  have "same_items ?s s'"
    using same_items_more [of s' ?s] schedule_more [OF s1(2)] wake_more [OF s1(1)] by simp
  then show "waitq wq' s' items" "wakeup_successful s' = (wakeup_successful s)(ctx := True)"
    "item_thread s' = item_thread s"
    using r' s1(3) by (simp_all add: waitq_def same_items_def)
qed

lemma notify_one_wakes:
  assumes q: "waitq wq s (ctx # items)" and i: "sched_inv s R B"
    and t: "p < NUM_PRIORITIES" "item_thread s ctx \<in> set (B ! p)"
  shows "\<exists>wq' s' R'. notify_one wq s = Some (wq', s') \<and> waitq wq' s' items \<and> wait_end ctx s' \<and>
    sched_inv s' R' (B[p := remove1 (item_thread s ctx) (B ! p)]) \<and> item_thread s ctx \<in> set (R' ! p)"
proof -
  have r: "ring (item_links s) wq (ctx # items)" using q by (simp add: waitq_def)
  have h: "wq = ctx" using dlist_hd [OF r] by simp
  have nz: "wq \<noteq> NULL" using dlist_NULL [OF r] by simp
  obtain h' l where del: "intrusive_list_delete link_ops wq ctx (item_links s) = (h', l)" by fastforce
  let ?t = "item_thread s ctx"
  let ?s = "s\<lparr>item_links := l, wakeup_successful := (wakeup_successful s)(ctx := True)\<rparr>"
  let ?R = "R[p := ?t # R ! p]" and ?B = "B[p := remove1 ?t (B ! p)]"
  have i1: "sched_queues ?s R B" "current_thread ?s \<in> threads_of R"
    using sched_invD [OF i] by (simp_all add: sched_queues_def)
  obtain s1 where s1: "wake ?t ?s = Some (E_OK, s1)" "sched_queues s1 ?R ?B" "current_thread s1 = current_thread s"
    using wake_queues [OF i1(1) t] by (auto simp: Let_def)
  have len: "length R = NUM_PRIORITIES" using sched_queuesD(1) [OF i1(1)] .
  have "current_thread s1 \<in> threads_of ?R"
    using i1(2) s1(3) t(1) len threads_of_split [of p R] by (auto simp: threads_of_update)
  then have i2: "sched_inv s1 ?R ?B" using s1(2) sched_invI by blast
  obtain s' R' where s': "schedule s1 = Some (E_OK, s')" "sched_inv s' R' ?B"
      "\<forall>p<NUM_PRIORITIES. set (R' ! p) = set (?R ! p)"
    using schedule_total [OF i2] by blast
  have n: "notify_one wq s = Some (h', s')" using nz h del s1(1) s'(1) by (simp add: notify_one_def)
  have "?t \<in> set (R' ! p)" using s'(3) t(1) len by simp
  then show ?thesis
    using n notify_one_items [OF q n] s'(2) by (auto simp: wait_end_def)
qed

lemma notify_one_stale:
  assumes q: "waitq wq s (ctx # items)" and i: "sched_inv s R B"
    and t: "item_thread s ctx \<noteq> NULL" "thread_state s (item_thread s ctx) \<noteq> KTHREAD_STATE_BLOCKED"
  shows "\<exists>wq' s' R'. notify_one wq s = Some (wq', s') \<and> waitq wq' s' items \<and> sched_inv s' R' B"
proof -
  have r: "ring (item_links s) wq (ctx # items)" using q by (simp add: waitq_def)
  have h: "wq = ctx" using dlist_hd [OF r] by simp
  have nz: "wq \<noteq> NULL" using dlist_NULL [OF r] by simp
  obtain h' l where del: "intrusive_list_delete link_ops wq ctx (item_links s) = (h', l)" by fastforce
  let ?s = "s\<lparr>item_links := l, wakeup_successful := (wakeup_successful s)(ctx := True)\<rparr>"
  have i1: "sched_inv ?s R B" using i by (simp add: sched_inv_def sched_queues_def)
  obtain s' R' where s': "schedule ?s = Some (E_OK, s')" "sched_inv s' R' B"
    using schedule_total [OF i1] by blast
  have n: "notify_one wq s = Some (h', s')" using nz h del t s'(1) by (simp add: notify_one_def wake_def)
  then show ?thesis using notify_one_items [OF q n] s'(2) by blast
qed

subsection \<open>Waking everybody\<close>

definition quiet ::
  "(nat \<Rightarrow> ptr \<times> 'z wait_state_scheme \<Rightarrow> ptr \<times> 'z wait_state_scheme) \<Rightarrow> bool" where
  "quiet env \<longleftrightarrow> (\<forall>n wq s items R B wq' s'. waitq wq s items \<longrightarrow> sched_inv s R B \<longrightarrow> env n (wq, s) = (wq', s') \<longrightarrow>
     waitq wq' s' items \<and> item_thread s' = item_thread s \<and> wakeup_successful s' = wakeup_successful s \<and>
     (\<exists>R' B'. sched_inv s' R' B' \<and> (\<forall>i\<in>set items. item_thread s i \<in> threads_of B \<longrightarrow> item_thread s i \<in> threads_of B')))"

lemma quietD:
  assumes "quiet env" "waitq wq s items" "sched_inv s R B" "env n (wq, s) = (wq', s')"
  shows "waitq wq' s' items \<and> item_thread s' = item_thread s \<and> wakeup_successful s' = wakeup_successful s \<and>
     (\<exists>R' B'. sched_inv s' R' B' \<and> (\<forall>i\<in>set items. item_thread s i \<in> threads_of B \<longrightarrow> item_thread s i \<in> threads_of B'))"
  using assms unfolding quiet_def by blast

lemma notify_all_from_wakes:
  assumes "quiet env" "waitq wq s items" "sched_inv s R B"
    and "inj_on (item_thread s) (set items)" "distinct items" "\<And>i. i \<in> set items \<Longrightarrow> item_thread s i \<in> threads_of B"
  shows "\<exists>s'. notify_all_from env n wq s = Some (NULL, s') \<and>
    (\<forall>i. wakeup_successful s' i = (i \<in> set items \<or> wakeup_successful s i))"
  using assms(2-)
proof (induction items arbitrary: n wq s R B)
  case Nil
  then show ?case by (simp add: waitq_def notify_all_from.simps)
next
  case (Cons c items)
  have wq0: "wq \<noteq> NULL" using Cons.prems(1) dlist_NULL [of link_ops _ "item_links s" wq "c # items"] by (auto simp: waitq_def)
  obtain p where p: "p < NUM_PRIORITIES" "item_thread s c \<in> set (B ! p)"
    using Cons.prems(5) [of c] by (auto simp: threads_of_def)
  obtain wq1 s1 R1 where n1: "notify_one wq s = Some (wq1, s1)" "waitq wq1 s1 items"
      "sched_inv s1 R1 (B[p := remove1 (item_thread s c) (B ! p)])"
    using notify_one_wakes [OF Cons.prems(1,2) p] by blast
  note fl = notify_one_items(2,3) [OF Cons.prems(1) n1(1)]
  obtain wq2 s2 where e: "env n (wq1, s1) = (wq2, s2)" by fastforce
  obtain R2 B2 where q2: "waitq wq2 s2 items" "item_thread s2 = item_thread s" "wakeup_successful s2 = wakeup_successful s1"
      "sched_inv s2 R2 B2"
      "\<forall>i\<in>set items. item_thread s i \<in> threads_of (B[p := remove1 (item_thread s c) (B ! p)]) \<longrightarrow>
        item_thread s i \<in> threads_of B2"
    using quietD [OF assms(1) n1(2,3) e] unfolding fl(2) by blast
  have "item_thread s2 i \<in> threads_of B2" if i: "i \<in> set items" for i
  proof -
    have "item_thread s i \<noteq> item_thread s c"
      using Cons.prems(3,4) i by (auto simp: inj_on_def)
    moreover have "length B = NUM_PRIORITIES" using sched_queuesD(2) [OF sched_invD(1) [OF Cons.prems(2)]] .
    ultimately have "item_thread s i \<in> threads_of (B[p := remove1 (item_thread s c) (B ! p)])"
      using Cons.prems(5) [of i] i p(1) threads_of_split [of p B]
        lh.dlist_distinct [OF sched_blocked [OF sched_invD(1) [OF Cons.prems(2)] p(1)]] by (auto simp: threads_of_update)
    then show ?thesis using q2(2,5) i by simp
  qed
  then obtain s' where s': "notify_all_from env (n + 1) wq2 s2 = Some (NULL, s')"
      "\<forall>i. wakeup_successful s' i = (i \<in> set items \<or> wakeup_successful s2 i)"
    using Cons.IH [OF q2(1,4), of "n + 1"] Cons.prems(3,4) q2(2) by (auto simp: inj_on_def)
  have "notify_all_from env n wq s = Some (NULL, s')"
    using wq0 n1(1) e s'(1) by (simp add: notify_all_from.simps [of env n wq s])
  then show ?case using s'(2) q2(3) fl(1) by auto
qed

subsection \<open>Properties\<close>

text \<open>
  notify_all terminates and wakes every waiter: with all waiters blocked, and other threads that run in
  between leaving the queue alone, it returns with an empty queue and every item marked as notified.
\<close>

theorem notify_all_wakes:
  assumes "quiet env" "waitq wq s items" "sched_inv s R B" "distinct items"
    and "inj_on (item_thread s) (set items)" "\<forall>i\<in>set items. item_thread s i \<in> threads_of B"
  shows "\<exists>s'. notify_all env wq s = Some (NULL, s') \<and> (\<forall>i\<in>set items. wait_end i s')"
  using notify_all_from_wakes [OF assms(1-3,5,4), of 0] assms(6) by (auto simp: notify_all_def wait_end_def)

definition demo_wait :: wait_state where
  "demo_wait = scheduler.extend demo_sched
     \<lparr>item_links = \<lparr>lnext = (\<lambda>p. p), lprev = (\<lambda>p. p)\<rparr>, wakeup_successful = (\<lambda>_. False),
      item_thread = (\<lambda>_. 0x30)\<rparr>"

lemma demo_wait_inv: "sched_inv demo_wait demo_R demo_B"
  using demo_inv by (simp add: demo_wait_def sched_inv_def sched_queues_def scheduler.defs)

lemma demo_waitq: "waitq 0x100 demo_wait [0x100]" "item_thread demo_wait i = 0x30"
  by (simp_all add: waitq_def demo_wait_def scheduler.defs dlist_def)

theorem notify_all_wakes_witness:
  "\<exists>s'. notify_all (\<lambda>_ x. x) 0x100 demo_wait = Some (NULL, s') \<and> wait_end 0x100 s'"
proof -
  have "quiet (\<lambda>_ x. x)" by (auto simp: quiet_def)
  moreover have "\<forall>i\<in>set [0x100]. item_thread demo_wait i \<in> threads_of demo_B"
    by (auto simp: demo_waitq(2) threads_of_def NUM_PRIORITIES_def intro!: bexI [of _ 1])
  ultimately show ?thesis using notify_all_wakes [OF _ demo_waitq(1) demo_wait_inv] by auto
qed

text \<open>
  A wait that times out leaves its item in the queue: the timer has made its thread runnable, so the next
  notify_one picks the stale item, wakes nobody, and the notification is lost for the threads that still wait.
\<close>

theorem stale_waiter_swallows_notification:
  assumes "waitq wq s (ctx # items)" "sched_inv s R B"
    and "item_thread s ctx \<noteq> NULL" "thread_state s (item_thread s ctx) \<noteq> KTHREAD_STATE_BLOCKED"
  shows "\<exists>wq' s' R'. notify_one wq s = Some (wq', s') \<and> waitq wq' s' items \<and> sched_inv s' R' B \<and>
    (\<forall>i\<in>set items. wait_end i s' = wait_end i s)"
proof -
  obtain wq' s' R' where n: "notify_one wq s = Some (wq', s')" "waitq wq' s' items" "sched_inv s' R' B"
    using notify_one_stale [OF assms] by blast
  have "ctx \<notin> set items" using lh.dlist_distinct assms(1) unfolding waitq_def by fastforce
  then show ?thesis
    using n notify_one_items(2) [OF assms(1) n(1)] by (auto simp: wait_end_def)
qed

definition demo_stale :: wait_state where
  "demo_stale = demo_wait\<lparr>item_links := two_nodes, item_thread := (\<lambda>i. if i = 0x10 then 0x20 else 0x30)\<rparr>"

theorem stale_waiter_swallows_notification_witness:
  "\<exists>wq' s' R'. notify_one 0x10 demo_stale = Some (wq', s') \<and> waitq wq' s' [0x20] \<and> sched_inv s' R' demo_B \<and>
    \<not> wait_end 0x20 s'"
proof -
  have "waitq 0x10 demo_stale [0x10, 0x20]" using ring_two_nodes by (simp add: waitq_def demo_stale_def)
  moreover have "sched_inv demo_stale demo_R demo_B"
    using demo_wait_inv by (simp add: demo_stale_def sched_inv_def sched_queues_def)
  moreover have "item_thread demo_stale 0x10 \<noteq> NULL" "\<not> wait_end 0x20 demo_stale"
      "thread_state demo_stale (item_thread demo_stale 0x10) \<noteq> KTHREAD_STATE_BLOCKED"
    by (simp_all add: demo_stale_def demo_wait_def scheduler.defs demo_sched_def wait_end_def)
  ultimately show ?thesis using stale_waiter_swallows_notification [of "0x10" demo_stale "0x10" "[0x20]"] by auto
qed

end
