(* ===== verification/Semaphore.thy ===== *)
theory Semaphore
  imports Waitq
begin

text \<open>
  Counting semaphores: kernel/semaphore.cpp and kernel/include/kernel/semaphore.hpp.

  \<open>sem_take\<close> either completes (\<open>Take_done\<close> with the result) or ends with the calling thread
  switched away (\<open>Take_waits\<close>); in the second case the call returns \<open>wait_end\<close> of its item
  when the thread runs again. The count never exceeds the maximum, an \<open>int\<close>, so it does not overflow.
\<close>

subsection \<open>State and operations\<close>

record semaphore =
  waiting_queue :: ptr
  sem_count :: int
  sem_max_count :: int

datatype take_result = Take_done bool | Take_waits

definition semaphore_new :: "int \<Rightarrow> int \<Rightarrow> semaphore" where
  "semaphore_new max_count initial_count =
     \<lparr>waiting_queue = waitq_new, sem_count = initial_count, sem_max_count = max_count\<rparr>"

definition semaphore_destroy ::
  "(nat \<Rightarrow> ptr \<times> 'z wait_state_scheme \<Rightarrow> ptr \<times> 'z wait_state_scheme) \<Rightarrow> semaphore \<Rightarrow>
    'z wait_state_scheme \<Rightarrow> 'z wait_state_scheme option" where
  "semaphore_destroy env sem s = map_option snd (notify_all env (waiting_queue sem) s)"

definition sem_take ::
  "clock \<Rightarrow> nat \<Rightarrow> u64 \<Rightarrow> ptr \<Rightarrow> semaphore \<Rightarrow> 'z wait_state_scheme \<Rightarrow>
    (take_result \<times> semaphore \<times> 'z wait_state_scheme) option" where
  "sem_take clk t timeout_ms ctx sem s =
     (if 0 = sem_count sem then
        if timeout_ms > 0 then do {
          (wq, s) \<leftarrow> wait_begin clk t timeout_ms ctx (waiting_queue sem) s;
          Some (Take_waits, sem\<lparr>waiting_queue := wq\<rparr>, s)
        } else Some (Take_done False, sem, s)
      else Some (Take_done True, sem\<lparr>sem_count := sem_count sem - 1\<rparr>, s))"

definition sem_give :: "semaphore \<Rightarrow> 'z wait_state_scheme \<Rightarrow> (semaphore \<times> 'z wait_state_scheme) option" where
  "sem_give sem s =
     (if sem_count sem = sem_max_count sem then Some (sem, s)
      else if 0 = sem_count sem \<and> \<not> waitq_empty (waiting_queue sem) then do {
        (wq, s) \<leftarrow> notify_one (waiting_queue sem) s;
        Some (sem\<lparr>waiting_queue := wq\<rparr>, s)
      } else Some (sem\<lparr>sem_count := sem_count sem + 1\<rparr>, s))"

subsection \<open>Runs of a semaphore\<close>

text \<open>
  \<open>sem_reach max init sem s items given granted\<close>: the semaphore and the system after some sequence of
  calls, with \<open>items\<close> in the wait queue, \<open>given\<close> calls of give that found the semaphore below
  its maximum, and \<open>granted\<close> takes that were granted: at once, or through a notification of their item.
  In between the rest of the system runs and does not touch the items.
\<close>

inductive sem_reach ::
  "int \<Rightarrow> int \<Rightarrow> semaphore \<Rightarrow> 'z wait_state_scheme \<Rightarrow> ptr list \<Rightarrow> int \<Rightarrow> int \<Rightarrow> bool" for mx ini where
  sr_new: "0 \<le> ini \<Longrightarrow> ini \<le> mx \<Longrightarrow> sem_reach mx ini (semaphore_new mx ini) s [] 0 0"
| sr_take: "sem_reach mx ini sem s items g t \<Longrightarrow> ctx \<noteq> NULL \<Longrightarrow> ctx \<notin> set items \<Longrightarrow>
    sem_take clk n ms ctx sem s = Some (r, sem', s') \<Longrightarrow>
    sem_reach mx ini sem' s' (if r = Take_waits then ctx # items else items) g
      (if r = Take_done True then t + 1 else t)"
| sr_give: "sem_reach mx ini sem s items g t \<Longrightarrow> sem_give sem s = Some (sem', s') \<Longrightarrow>
    sem_reach mx ini sem' s' (if sem_count sem = 0 \<and> sem_count sem < mx then tl items else items)
      (if sem_count sem < mx then g + 1 else g)
      (if sem_count sem = 0 \<and> sem_count sem < mx \<and> items \<noteq> [] then t + 1 else t)"
| sr_other: "sem_reach mx ini sem s items g t \<Longrightarrow> same_items s s' \<Longrightarrow> sem_reach mx ini sem s' items g t"

definition sem_ok ::
  "int \<Rightarrow> int \<Rightarrow> semaphore \<Rightarrow> 'z wait_state_scheme \<Rightarrow> ptr list \<Rightarrow> int \<Rightarrow> int \<Rightarrow> bool" where
  "sem_ok mx ini sem s items g t \<longleftrightarrow> sem_max_count sem = mx \<and> 0 \<le> sem_count sem \<and> sem_count sem \<le> mx \<and>
     waitq (waiting_queue sem) s items \<and> (items \<noteq> [] \<longrightarrow> sem_count sem = 0) \<and>
     sem_count sem = ini + g - t"

lemma sem_ok_take:
  assumes "sem_ok mx ini sem s items g t" "ctx \<noteq> NULL" "ctx \<notin> set items"
    "sem_take clk n ms ctx sem s = Some (r, sem', s')"
  shows "sem_ok mx ini sem' s' (if r = Take_waits then ctx # items else items) g
    (if r = Take_done True then t + 1 else t)"
proof (cases "sem_count sem = 0 \<and> ms > 0")
  case True
  then obtain wq where w: "wait_begin clk n ms ctx (waiting_queue sem) s = Some (wq, s')"
      "r = Take_waits" "sem' = sem\<lparr>waiting_queue := wq\<rparr>"
    using assms(4) by (auto simp: sem_take_def elim!: bind_pairE)
  then show ?thesis
    using wait_begin_items(1) [OF _ assms(2,3) w(1)] assms(1) True by (auto simp: sem_ok_def)
next
  case False
  then show ?thesis using assms(1,4) by (auto simp: sem_take_def sem_ok_def split: if_splits)
qed

lemma sem_ok_give:
  assumes "sem_ok mx ini sem s items g t" "sem_give sem s = Some (sem', s')"
  shows "sem_ok mx ini sem' s' (if sem_count sem = 0 \<and> sem_count sem < mx then tl items else items)
      (if sem_count sem < mx then g + 1 else g)
      (if sem_count sem = 0 \<and> sem_count sem < mx \<and> items \<noteq> [] then t + 1 else t)"
proof (cases "sem_count sem = 0 \<and> sem_count sem < mx \<and> items \<noteq> []")
  case True
  have q: "waitq (waiting_queue sem) s (hd items # tl items)" using assms(1) True by (simp add: sem_ok_def)
  have "\<not> waitq_empty (waiting_queue sem)" using waitq_empty_iff [OF q] by simp
  then obtain wq where w: "notify_one (waiting_queue sem) s = Some (wq, s')" "sem' = sem\<lparr>waiting_queue := wq\<rparr>"
    using assms True by (auto simp: sem_give_def sem_ok_def elim!: bind_pairE split: if_splits)
  then show ?thesis using notify_one_items(1) [OF q w(1)] assms(1) True by (auto simp: sem_ok_def)
next
  case False
  then show ?thesis
    using assms waitq_empty_iff [of "waiting_queue sem" s items]
    by (auto simp: sem_give_def sem_ok_def split: if_splits)
qed

lemma sem_reach_ok: "sem_reach mx ini sem s items g t \<Longrightarrow> sem_ok mx ini sem s items g t"
proof (induction rule: sem_reach.induct)
  case (sr_new s)
  then show ?case by (simp add: sem_ok_def semaphore_new_def waitq_new_def waitq_def)
next
  case (sr_take sem s items g t ctx clk n ms r sem' s')
  then show ?case using sem_ok_take by blast
next
  case (sr_give sem s items g t sem' s')
  then show ?case using sem_ok_give by blast
next
  case (sr_other sem s items g t s')
  then show ?case by (auto simp: sem_ok_def same_items_def waitq_def)
qed

subsection \<open>Properties\<close>

text \<open>
  C23. However takes, gives and the rest of the system interleave, the count of a semaphore stays between zero
  and its maximum, threads wait only while it is zero, and it is the initial count plus the
  effective gives minus the granted takes: no token is duplicated.
\<close>

theorem semaphore_counts:
  assumes "sem_reach mx ini sem s items g t"
  shows "0 \<le> sem_count sem \<and> sem_count sem \<le> mx \<and> sem_count sem = ini + g - t \<and>
    (\<not> waitq_empty (waiting_queue sem) \<longrightarrow> sem_count sem = 0)"
  using sem_reach_ok [OF assms] waitq_empty_iff by (auto simp: sem_ok_def)

theorem semaphore_counts_witness:
  "sem_reach 2 0 (\<lparr>waiting_queue = NULL, sem_count = 1, sem_max_count = 2\<rparr>) demo_wait [] 1 0 \<and>
    sem_count \<lparr>waiting_queue = NULL, sem_count = 1, sem_max_count = 2\<rparr> = 0 + 1 - 0"
proof -
  have "sem_reach 2 0 (semaphore_new 2 0) demo_wait [] 0 0" by (rule sr_new) simp_all
  moreover have "sem_give (semaphore_new 2 0) demo_wait =
      Some (\<lparr>waiting_queue = NULL, sem_count = 1, sem_max_count = 2\<rparr>, demo_wait)"
    by (simp add: sem_give_def semaphore_new_def waitq_new_def waitq_empty_def)
  ultimately have r: "sem_reach 2 0 (\<lparr>waiting_queue = NULL, sem_count = 1, sem_max_count = 2\<rparr>) demo_wait [] 1 0"
    using sr_give by (fastforce simp: semaphore_new_def)
  then show ?thesis using semaphore_counts [OF r] by simp
qed

text \<open>
  give to a waiter is a hand-over: with a thread waiting and the count at zero, give wakes the thread that
  called take last, marks its take as successful and leaves the count at zero, so that no other thread can
  take the token in between.
\<close>

theorem sem_give_hands_over:
  assumes q: "waitq (waiting_queue sem) s (ctx # items)" and c: "sem_count sem = 0" "0 < sem_max_count sem"
    and i: "sched_inv s R B" and t: "p < NUM_PRIORITIES" "item_thread s ctx \<in> set (B ! p)"
  shows "\<exists>sem' s' R'. sem_give sem s = Some (sem', s') \<and> sem_count sem' = 0 \<and> waitq (waiting_queue sem') s' items \<and>
    wait_end ctx s' \<and> sched_inv s' R' (B[p := remove1 (item_thread s ctx) (B ! p)]) \<and>
    item_thread s ctx \<in> set (R' ! p)"
proof -
  have "\<not> waitq_empty (waiting_queue sem)" using waitq_empty_iff [OF q] by simp
  then show ?thesis
    using notify_one_wakes [OF q i t] c by (auto simp: sem_give_def) 
qed

theorem sem_give_hands_over_witness:
  "\<exists>sem' s' R'. sem_give \<lparr>waiting_queue = 0x100, sem_count = 0, sem_max_count = 1\<rparr> demo_wait = Some (sem', s') \<and>
    sem_count sem' = 0 \<and> waitq (waiting_queue sem') s' [] \<and> wait_end 0x100 s' \<and>
    sched_inv s' R' (demo_B[1 := remove1 (item_thread demo_wait 0x100) (demo_B ! 1)]) \<and>
    item_thread demo_wait 0x100 \<in> set (R' ! 1)"
  by (rule sem_give_hands_over [OF _ _ _ demo_wait_inv])
    (simp_all add: demo_waitq NUM_PRIORITIES_def)

end
