(* ===== verification/Mutex.thy ===== *)
theory Mutex
  imports Waitq
begin

text \<open>
  The mutex: kernel/mutex.cpp and kernel/include/kernel/mutex.hpp.

  \<open>lock\<close> has three parts, between which other threads can run: \<open>mutex_lock_try\<close> under disabled
  interrupts, \<open>mutex_lock_wait\<close> after they have been restored, up to the context switch, and
  \<open>mutex_lock_end\<close> when the thread is resumed.
\<close>

subsection \<open>State and operations\<close>

record mutex =
  mutex_waiting_queue :: ptr
  owner :: ptr

definition mutex_new :: mutex where
  "mutex_new = \<lparr>mutex_waiting_queue = waitq_new, owner = NULL\<rparr>"

definition mutex_destroy ::
  "(nat \<Rightarrow> ptr \<times> 'z wait_state_scheme \<Rightarrow> ptr \<times> 'z wait_state_scheme) \<Rightarrow> mutex \<Rightarrow>
    'z wait_state_scheme \<Rightarrow> 'z wait_state_scheme option" where
  "mutex_destroy env m s = map_option snd (notify_all env (mutex_waiting_queue m) s)"

definition mutex_lock_try :: "mutex \<Rightarrow> 'z wait_state_scheme \<Rightarrow> bool \<times> mutex" where
  "mutex_lock_try m s =
     (if owner m = NULL then (True, m\<lparr>owner := current_thread s\<rparr>) else (False, m))"

definition mutex_lock_wait ::
  "clock \<Rightarrow> nat \<Rightarrow> u64 \<Rightarrow> ptr \<Rightarrow> mutex \<Rightarrow> 'z wait_state_scheme \<Rightarrow> (bool \<times> mutex \<times> 'z wait_state_scheme) option" where
  "mutex_lock_wait clk t timeout_ms ctx m s =
     (if timeout_ms > 0 then do {
        (wq, s) \<leftarrow> wait_begin clk t timeout_ms ctx (mutex_waiting_queue m) s;
        Some (True, m\<lparr>mutex_waiting_queue := wq\<rparr>, s)
      } else Some (False, m, s))"

definition mutex_lock_end :: "ptr \<Rightarrow> mutex \<Rightarrow> 'z wait_state_scheme \<Rightarrow> bool \<times> mutex" where
  "mutex_lock_end ctx m s =
     (if wait_end ctx s then (True, m\<lparr>owner := current_thread s\<rparr>) else (False, m))"

definition mutex_unlock :: "mutex \<Rightarrow> 'z wait_state_scheme \<Rightarrow> (mutex \<times> 'z wait_state_scheme) option" where
  "mutex_unlock m s =
     (if current_thread s = owner m then
        if \<not> waitq_empty (mutex_waiting_queue m) then do {
          (wq, s) \<leftarrow> notify_one (mutex_waiting_queue m) s;
          Some (m\<lparr>mutex_waiting_queue := wq\<rparr>, s)
        } else Some (m\<lparr>owner := NULL\<rparr>, s)
      else Some (m, s))"

subsection \<open>Runs of a mutex\<close>

text \<open>
  \<open>mutex_reach m s items H pend\<close>: \<open>items\<close> wait in the queue, \<open>H\<close> is the set of threads whose
  last lock succeeded and who have not unlocked since, \<open>pend\<close> are the items that were notified and whose
  threads have not been resumed yet. A thread calls unlock only while it is in \<open>H\<close>.
\<close>

inductive mutex_reach :: "mutex \<Rightarrow> 'z wait_state_scheme \<Rightarrow> ptr list \<Rightarrow> ptr set \<Rightarrow> ptr list \<Rightarrow> bool" where
  mr_new: "mutex_reach mutex_new s [] {} []"
| mr_try: "mutex_reach m s items H pend \<Longrightarrow> current_thread s \<noteq> NULL \<Longrightarrow> mutex_lock_try m s = (r, m') \<Longrightarrow>
    mutex_reach m' s items (if r then insert (current_thread s) H else H) pend"
| mr_wait: "mutex_reach m s items H pend \<Longrightarrow> ctx \<noteq> NULL \<Longrightarrow> ctx \<notin> set items \<Longrightarrow> ctx \<notin> set pend \<Longrightarrow>
    mutex_lock_wait clk t ms ctx m s = Some (r, m', s') \<Longrightarrow>
    mutex_reach m' s' (if r then ctx # items else items) H pend"
| mr_end: "mutex_reach m s items H pend \<Longrightarrow> current_thread s \<noteq> NULL \<Longrightarrow> ctx \<in> set items \<union> set pend \<Longrightarrow>
    mutex_lock_end ctx m s = (r, m') \<Longrightarrow>
    mutex_reach m' s items (if r then insert (current_thread s) H else H) (remove1 ctx pend)"
| mr_unlock: "mutex_reach m s items H pend \<Longrightarrow> current_thread s \<in> H \<Longrightarrow> mutex_unlock m s = Some (m', s') \<Longrightarrow>
    mutex_reach m' s' (tl items) (H - {current_thread s}) (if items = [] then pend else hd items # pend)"
| mr_other: "mutex_reach m s items H pend \<Longrightarrow> same_items s s' \<Longrightarrow> mutex_reach m s' items H pend"

definition mutex_ok :: "mutex \<Rightarrow> 'z wait_state_scheme \<Rightarrow> ptr list \<Rightarrow> ptr set \<Rightarrow> ptr list \<Rightarrow> bool" where
  "mutex_ok m s items H pend \<longleftrightarrow> waitq (mutex_waiting_queue m) s items \<and> (\<forall>i\<in>set items. \<not> wait_end i s) \<and>
     (\<forall>i\<in>set pend. wait_end i s) \<and>
     (H = {} \<and> pend = [] \<and> owner m = NULL \<or> owner m \<noteq> NULL \<and> H = {owner m} \<and> pend = [] \<or>
      (\<exists>c. H = {} \<and> pend = [c] \<and> owner m \<noteq> NULL))"

lemma mutex_ok_wait:
  assumes "mutex_ok m s items H pend" "ctx \<noteq> NULL" "ctx \<notin> set items" "ctx \<notin> set pend"
    "mutex_lock_wait clk t ms ctx m s = Some (r, m', s')"
  shows "mutex_ok m' s' (if r then ctx # items else items) H pend"
proof (cases "ms > 0")
  case True
  then obtain wq where w: "wait_begin clk t ms ctx (mutex_waiting_queue m) s = Some (wq, s')" "r"
      "m' = m\<lparr>mutex_waiting_queue := wq\<rparr>"
    using assms(5) by (auto simp: mutex_lock_wait_def elim!: bind_pairE)
  have q: "waitq (mutex_waiting_queue m) s items" using assms(1) by (simp add: mutex_ok_def)
  note n = wait_begin_items [OF q assms(2,3) w(1)]
  have "wait_end i s' = (i \<noteq> ctx \<and> wait_end i s)" for i using n(3) by (simp add: wait_end_def)
  then show ?thesis using n(1) assms(1,3,4) w(2,3) unfolding mutex_ok_def by auto
next
  case False
  then show ?thesis using assms(1,5) by (simp add: mutex_lock_wait_def)
qed

lemma mutex_ok_unlock:
  assumes "mutex_ok m s items H pend" "current_thread s \<in> H" "mutex_unlock m s = Some (m', s')"
  shows "mutex_ok m' s' (tl items) (H - {current_thread s}) (if items = [] then pend else hd items # pend)"
proof -
  have q: "waitq (mutex_waiting_queue m) s items" using assms(1) by (simp add: mutex_ok_def)
  have H: "H = {owner m}" "pend = []" "owner m = current_thread s" "owner m \<noteq> NULL"
    using assms(1,2) by (auto simp: mutex_ok_def)
  show ?thesis
  proof (cases items)
    case Nil
    then show ?thesis using assms(1,3) H waitq_empty_iff [OF q] by (auto simp: mutex_unlock_def mutex_ok_def)
  next
    case (Cons c rest)
    then obtain wq where w: "notify_one (mutex_waiting_queue m) s = Some (wq, s')" "m' = m\<lparr>mutex_waiting_queue := wq\<rparr>"
      using assms(3) H waitq_empty_iff [OF q] by (auto simp: mutex_unlock_def elim!: bind_pairE)
    note n = notify_one_items [OF q [unfolded Cons] w(1)]
    have "c \<notin> set rest" using lh.dlist_distinct q Cons unfolding waitq_def by fastforce
    then show ?thesis
      using n assms(1) H w(2) Cons unfolding mutex_ok_def by (auto simp: wait_end_def)
  qed
qed

lemma mutex_reach_ok: "mutex_reach m s items H pend \<Longrightarrow> mutex_ok m s items H pend"
proof (induction rule: mutex_reach.induct)
  case (mr_new s)
  then show ?case by (simp add: mutex_ok_def mutex_new_def waitq_new_def waitq_def)
next
  case (mr_try m s items H pend r m')
  then show ?case by (auto simp: mutex_ok_def mutex_lock_try_def split: if_splits)
next
  case (mr_wait m s items H pend ctx clk t ms r m' s')
  then show ?case using mutex_ok_wait by blast
next
  case (mr_end m s items H pend ctx r m')
  then show ?case by (auto simp: mutex_ok_def mutex_lock_end_def remove1_idem split: if_splits)
next
  case (mr_unlock m s items H pend m' s')
  then show ?case using mutex_ok_unlock by blast
next
  case (mr_other m s items H pend s')
  then show ?case by (auto simp: mutex_ok_def same_items_def waitq_def wait_end_def)
qed

lemma wait_begin_returns:
  assumes i: "sched_inv s R B" and p: "p < NUM_PRIORITIES" "current_thread s \<in> set (R ! p)"
    and pre: "preempt_count s \<le> 0" and u: "u \<in> threads_of R" "u \<noteq> current_thread s" and c: "ctx \<noteq> NULL"
  shows "\<exists>wq' s'. wait_begin clk t (- 1) ctx wq s = Some (wq', s')"
proof -
  have cur: "current_thread s \<noteq> NULL" using in_queue_thread(1) [OF sched_invD(1) [OF i] p(1)] p(2) by blast
  obtain l where l: "intrusive_list_init link_ops ctx (item_links s) = Some (ctx, l)"
    using c by (simp add: intrusive_list_init_def)
  obtain wq' l' where l': "intrusive_list_push_back link_ops wq ctx l = Some (wq', l')"
    using c
    by (cases "wq = NULL") (simp_all add: intrusive_list_push_back_def intrusive_list_init_def intrusive_list_get_tail_def)
  let ?s = "s\<lparr>wakeup_successful := (wakeup_successful s)(ctx := False),
      item_thread := (item_thread s)(ctx := current_thread s), item_links := l'\<rparr>"
  have i': "sched_inv ?s R B" using i by (simp add: sched_inv_def sched_queues_def)
  obtain s' where "sleep_until NO_DEADLINE ?s = Some (E_OK, s')"
    using sleep_until_total [OF i' p(1) refl _ disjI1 [OF refl] _ u(1)] p(2) pre u(2) by auto
  then show ?thesis using l l' cur by (simp add: wait_begin_def KTHREAD_PTR_def sleep_def)
qed

subsection \<open>Properties\<close>

text \<open>
  C22. Mutual exclusion: however lock attempts, waits, hand-overs and the rest of the system interleave, at
  most one thread holds the mutex, and while one does it is the recorded owner.
\<close>

theorem mutex_exclusion:
  assumes "mutex_reach m s items H pend"
  shows "\<forall>t u. t \<in> H \<and> u \<in> H \<longrightarrow> t = u \<and> owner m = t"
  using mutex_reach_ok [OF assms] by (auto simp: mutex_ok_def)

theorem mutex_exclusion_witness:
  "mutex_reach (mutex_new\<lparr>owner := 0x20\<rparr>) demo_wait [] {0x20} [] \<and>
    owner (mutex_new\<lparr>owner := 0x20\<rparr>) = 0x20"
proof -
  have "current_thread demo_wait = 0x20" by (simp add: demo_wait_def scheduler.defs demo_sched_def)
  then have r: "mutex_reach (mutex_new\<lparr>owner := 0x20\<rparr>) demo_wait [] {0x20} []"
    using mr_try [OF mr_new, of demo_wait True "mutex_new\<lparr>owner := 0x20\<rparr>"] by (simp add: mutex_lock_try_def mutex_new_def)
  then show ?thesis using mutex_exclusion [OF r] by blast
qed

text \<open>
  C40. A lost wakeup: interrupts are restored between the check of the owner and the wait. When the owner
  unlocks in that window, it finds nobody waiting and frees the mutex; the locking thread then waits in
  the queue of a mutex that nobody owns, so that no unlock will ever notify it.
\<close>

theorem mutex_lost_wakeup:
  assumes "owner m = u" "u \<noteq> NULL" "mutex_waiting_queue m = NULL"
    and "mutex_lock_try m s = (False, m1)"
    and "current_thread s1 = u" "mutex_unlock m1 s1 = Some (m2, s2)"
    and "ctx \<noteq> NULL" "mutex_lock_wait clk t (- 1) ctx m2 s3 = Some (True, m3, s4)"
  shows "owner m3 = NULL \<and> waitq (mutex_waiting_queue m3) s4 [ctx] \<and> \<not> wait_end ctx s4"
proof -
  have m2: "owner m2 = NULL" "mutex_waiting_queue m2 = NULL"
    using assms(1-6) by (auto simp: mutex_lock_try_def mutex_unlock_def waitq_empty_def split: if_splits)
  obtain wq where w: "wait_begin clk t (- 1) ctx NULL s3 = Some (wq, s4)" "m3 = m2\<lparr>mutex_waiting_queue := wq\<rparr>"
    using assms(8) m2 by (auto simp: mutex_lock_wait_def elim!: bind_pairE split: if_splits)
  have q: "waitq NULL s3 []" by (simp add: waitq_def)
  show ?thesis
    using wait_begin_items [OF q assms(7) _ w(1)] w(2) m2 by (simp add: wait_end_def)
qed

theorem mutex_lost_wakeup_witness:
  "\<exists>m3 s4. mutex_lock_wait (\<lambda>_. undefined) 0 (- 1) 0x100 mutex_new demo_wait = Some (True, m3, s4) \<and>
    owner m3 = NULL \<and> waitq (mutex_waiting_queue m3) s4 [0x100] \<and> \<not> wait_end 0x100 s4"
proof -
  let ?m = "\<lparr>mutex_waiting_queue = NULL, owner = 0x10\<rparr>"
  have cur: "current_thread demo_wait = 0x20" "preempt_count demo_wait = 0"
    by (simp_all add: demo_wait_def scheduler.defs demo_sched_def)
  have "0x10 \<in> threads_of demo_R" by (auto simp: threads_of_def NUM_PRIORITIES_def intro: bexI [of _ 0])
  then have "\<exists>wq' s'. wait_begin (\<lambda>_. undefined) 0 (- 1) 0x100 NULL demo_wait = Some (wq', s')"
    by (intro wait_begin_returns [OF demo_wait_inv, of 1 "0x10"]) (simp_all add: cur NUM_PRIORITIES_def)
  moreover have "NULL < NO_DEADLINE" by code_simp
  ultimately obtain m3 s4 where w: "mutex_lock_wait (\<lambda>_. undefined) 0 (- 1) 0x100 mutex_new demo_wait = Some (True, m3, s4)"
    by (auto simp: mutex_lock_wait_def mutex_new_def waitq_new_def cong: if_cong)
  have u: "mutex_unlock ?m (demo_wait\<lparr>current_thread := 0x10\<rparr>) = Some (mutex_new, demo_wait\<lparr>current_thread := 0x10\<rparr>)"
    by (simp add: mutex_unlock_def waitq_empty_def mutex_new_def waitq_new_def)
  show ?thesis
    using mutex_lost_wakeup [of ?m "0x10" demo_wait ?m, OF _ _ _ _ _ u _ w] w by (simp add: mutex_lock_try_def)
qed

end
