(* ===== verification/Msgq.thy ===== *)
theory Msgq
  imports Semaphore
begin

text \<open>
  Message queues: kernel/msgq.cpp and kernel/include/kernel/msgq.hpp.

  The storage is the byte array the constructor allocates, a ring of \<open>size_\<close> slots of \<open>msg_size_\<close>
  bytes. \<open>msgq_read\<close> is cut where its semaphore may switch threads; \<open>msgq_read_end\<close> continues it.
  Sizes are those of queues that fit an \<open>int\<close>, the type the semaphore counts in.
\<close>

subsection \<open>State and operations\<close>

record msgq =
  storage :: "u8 list"
  read_p :: nat
  write_p :: nat
  msgq_size :: nat
  msg_size :: nat
  sem :: semaphore

datatype read_result = Read_done "u8 list option" | Read_waits

definition msgq_new :: "nat \<Rightarrow> nat \<Rightarrow> msgq" where
  "msgq_new sz msz = \<lparr>storage = replicate (sz * msz) 0, read_p = 0, write_p = 0, msgq_size = sz,
     msg_size = msz, sem = semaphore_new (int sz) 0\<rparr>"

definition msgq_take_elem :: "msgq \<Rightarrow> (u8 list \<times> msgq) option" where
  "msgq_take_elem q =
     (let elem = take (msg_size q) (drop (read_p q * msg_size q) (storage q))
      in if msgq_size q = 0 then None
         else Some (elem, q\<lparr>read_p := (read_p q + 1) mod msgq_size q\<rparr>))"

definition msgq_read ::
  "clock \<Rightarrow> nat \<Rightarrow> u64 \<Rightarrow> ptr \<Rightarrow> msgq \<Rightarrow> 'z wait_state_scheme \<Rightarrow>
    (read_result \<times> msgq \<times> 'z wait_state_scheme) option" where
  "msgq_read clk t timeout_ms ctx q s = do {
     (r, sm, s) \<leftarrow> sem_take clk t timeout_ms ctx (sem q) s;
     let q = q\<lparr>sem := sm\<rparr>;
     case r of
       Take_waits \<Rightarrow> Some (Read_waits, q, s)
     | Take_done False \<Rightarrow> Some (Read_done None, q, s)
     | Take_done True \<Rightarrow> do {
         (elem, q) \<leftarrow> msgq_take_elem q;
         Some (Read_done (Some elem), q, s)
       }
   }"

definition msgq_read_end :: "ptr \<Rightarrow> msgq \<Rightarrow> 'z wait_state_scheme \<Rightarrow> (u8 list option \<times> msgq) option" where
  "msgq_read_end ctx q s =
     (if \<not> wait_end ctx s then Some (None, q)
      else do {
        (elem, q) \<leftarrow> msgq_take_elem q;
        Some (Some elem, q)
      })"

definition msgq_write :: "u8 list \<Rightarrow> msgq \<Rightarrow> 'z wait_state_scheme \<Rightarrow> (bool \<times> msgq \<times> 'z wait_state_scheme) option" where
  "msgq_write msg q s =
     (if write_p q = read_p q \<and> sem_count (sem q) \<noteq> 0 then Some (False, q, s)
      else do {
        let off = write_p q * msg_size q;
        let q = q\<lparr>storage := take off (storage q) @ take (msg_size q) msg @ drop (off + msg_size q) (storage q)\<rparr>;
        _ \<leftarrow> (if msgq_size q = 0 then None else Some ());
        let q = q\<lparr>write_p := (write_p q + 1) mod msgq_size q\<rparr>;
        (sm, s) \<leftarrow> sem_give (sem q) s;
        Some (True, q\<lparr>sem := sm\<rparr>, s)
      })"

definition msgq_full :: "msgq \<Rightarrow> bool" where
  "msgq_full q \<longleftrightarrow> sem_count (sem q) = int (msgq_size q)"

subsection \<open>The queue it implements\<close>

definition slot :: "nat \<Rightarrow> u8 list \<Rightarrow> nat \<Rightarrow> u8 list" where
  "slot msz st i = take msz (drop (i * msz) st)"

definition msgq_rep :: "msgq \<Rightarrow> u8 list list \<Rightarrow> bool" where
  "msgq_rep q msgs \<longleftrightarrow> 0 < msgq_size q \<and> length (storage q) = msgq_size q * msg_size q \<and>
     read_p q < msgq_size q \<and> length msgs \<le> msgq_size q \<and>
     write_p q = (read_p q + length msgs) mod msgq_size q \<and>
     sem_count (sem q) = int (length msgs) \<and> sem_max_count (sem q) = int (msgq_size q) \<and>
     waiting_queue (sem q) = NULL \<and>
     (\<forall>i<length msgs. slot (msg_size q) (storage q) ((read_p q + i) mod msgq_size q) = msgs ! i)"

lemma slot_write_same:
  assumes "i < n" "length st = n * msz" "length msg = msz"
  shows "slot msz (take (i * msz) st @ msg @ drop (i * msz + msz) st) i = msg"
proof -
  have "i * msz + msz \<le> length st" using assms(1,2) by (metis Suc_leI add.commute mult_Suc mult_le_mono1)
  then show ?thesis using assms(3) by (simp add: slot_def)
qed

lemma slot_write_other:
  assumes "i < n" "j < n" "i \<noteq> j" "length st = n * msz" "length msg = msz"
  shows "slot msz (take (i * msz) st @ msg @ drop (i * msz + msz) st) j = slot msz st j"
proof -
  have i: "i * msz + msz \<le> length st" using assms(1,4) by (metis Suc_leI add.commute mult_Suc mult_le_mono1)
  show ?thesis
  proof (cases "j < i")
    case True
    then have "j * msz + msz \<le> i * msz" by (metis Suc_leI add.commute mult_Suc mult_le_mono1)
    then have "msz \<le> i * msz - j * msz" "j * msz \<le> i * msz" by linarith+
    then show ?thesis using i by (simp add: slot_def drop_take min_absorb1)
  next
    case False
    then have "i * msz + msz \<le> j * msz" using assms(3) by (metis Suc_leI add.commute linorder_neqE_nat mult_Suc mult_le_mono1)
    then have "i * msz - j * msz = 0" "length (take (i * msz) st) \<le> j * msz" using i False assms(3) by simp_all
    then show ?thesis using i assms(5) \<open>i * msz + msz \<le> j * msz\<close> by (simp add: slot_def)
  qed
qed

lemma mod_add_neq:
  fixes i k n :: nat
  assumes "i < k" "k < n"
  shows "(r + i) mod n \<noteq> (r + k) mod n"
proof
  assume "(r + i) mod n = (r + k) mod n"
  then have "n dvd (r + k) - (r + i)" using assms mod_eq_dvd_iff_nat [of "r + i" "r + k" n] by simp
  then show False using assms by (auto dest!: dvd_imp_le)
qed

lemma msgq_write_rep:
  assumes rep: "msgq_rep q msgs" and m: "length msg = msg_size q" and room: "length msgs < msgq_size q"
  shows "\<exists>q'. msgq_write msg q s = Some (True, q', s) \<and> msgq_rep q' (msgs @ [msg])"
proof -
  have wp: "write_p q = (read_p q + length msgs) mod msgq_size q" "read_p q < msgq_size q" "0 < msgq_size q"
    "length (storage q) = msgq_size q * msg_size q"
    using rep by (simp_all add: msgq_rep_def)
  have w: "write_p q < msgq_size q" using wp by simp
  have nf: "\<not> (write_p q = read_p q \<and> sem_count (sem q) \<noteq> 0)"
  proof
    assume a: "write_p q = read_p q \<and> sem_count (sem q) \<noteq> 0"
    then have "0 < length msgs" using rep by (simp add: msgq_rep_def)
    then show False using mod_add_neq [OF _ room, of 0 "read_p q"] a wp by simp
  qed
  let ?st = "take (write_p q * msg_size q) (storage q) @ msg @ drop (write_p q * msg_size q + msg_size q) (storage q)"
  let ?q = "q\<lparr>storage := ?st, write_p := (write_p q + 1) mod msgq_size q,
      sem := (sem q)\<lparr>sem_count := sem_count (sem q) + 1\<rparr>\<rparr>"
  have g: "sem_give (sem q) s = Some ((sem q)\<lparr>sem_count := sem_count (sem q) + 1\<rparr>, s)"
    using rep room by (simp add: msgq_rep_def sem_give_def waitq_empty_def)
  have "msgq_write msg q s = Some (True, ?q, s)"
    using nf g wp(3) m by (simp add: msgq_write_def Let_def)
  moreover have "msgq_rep ?q (msgs @ [msg])"
  proof -
    have le: "write_p q * msg_size q + msg_size q \<le> length (storage q)"
      using w wp(4) by (metis Suc_leI add.commute mult_Suc mult_le_mono1)
    have "slot (msg_size q) ?st ((read_p q + i) mod msgq_size q) = (msgs @ [msg]) ! i" if i: "i < Suc (length msgs)" for i
    proof (cases "i = length msgs")
      case True
      then show ?thesis using slot_write_same [OF w wp(4) m] wp(1) by simp
    next
      case False
      then have il: "i < length msgs" using i by simp
      then have "(read_p q + i) mod msgq_size q \<noteq> write_p q" using mod_add_neq [OF il room] wp(1) by simp
      then have "slot (msg_size q) ?st ((read_p q + i) mod msgq_size q) =
          slot (msg_size q) (storage q) ((read_p q + i) mod msgq_size q)"
        using slot_write_other [OF w _ _ wp(4) m] wp(3) by simp
      then show ?thesis using rep il by (simp add: msgq_rep_def nth_append)
    qed
    moreover have "(write_p q + 1) mod msgq_size q = (read_p q + Suc (length msgs)) mod msgq_size q"
      using wp(1) by (simp add: mod_Suc_eq)
    ultimately show ?thesis using rep room m le wp by (simp add: msgq_rep_def)
  qed
  ultimately show ?thesis by blast
qed

lemma msgq_read_rep:
  assumes rep: "msgq_rep q (m # msgs)"
  shows "\<exists>q'. msgq_read clk t ms ctx q s = Some (Read_done (Some m), q', s) \<and> msgq_rep q' msgs"
proof -
  let ?q = "q\<lparr>sem := (sem q)\<lparr>sem_count := sem_count (sem q) - 1\<rparr>, read_p := (read_p q + 1) mod msgq_size q\<rparr>"
  have p: "0 < msgq_size q" "sem_count (sem q) = int (Suc (length msgs))" "read_p q < msgq_size q"
    using rep by (simp_all add: msgq_rep_def)
  have "slot (msg_size q) (storage q) (read_p q) = m"
    using rep p(3) by (auto simp: msgq_rep_def dest!: spec [of _ 0])
  then have "msgq_read clk t ms ctx q s = Some (Read_done (Some m), ?q, s)"
    using p by (simp add: msgq_read_def sem_take_def msgq_take_elem_def slot_def)
  moreover have "msgq_rep ?q msgs"
  proof -
    have "slot (msg_size q) (storage q) ((read_p q + Suc i) mod msgq_size q) = msgs ! i" if "i < length msgs" for i
      using rep that by (auto simp: msgq_rep_def dest!: spec [of _ "Suc i"])
    then show ?thesis using rep p by (simp add: msgq_rep_def mod_simps)
  qed
  ultimately show ?thesis by blast
qed

subsection \<open>Properties\<close>

text \<open>
  C25. While nobody waits, a message queue is a bounded first-in first-out queue: a write appends the message
  and succeeds exactly when fewer than size messages are stored, a read returns the oldest one, and a
  read of an empty queue with timeout zero fails and changes nothing.
\<close>

theorem msgq_fifo:
  assumes "msgq_rep q msgs" "length msg = msg_size q"
  shows "(length msgs < msgq_size q \<longrightarrow> (\<exists>q'. msgq_write msg q s = Some (True, q', s) \<and> msgq_rep q' (msgs @ [msg]))) \<and>
    (length msgs = msgq_size q \<longrightarrow> msgq_full q \<and> msgq_write msg q s = Some (False, q, s)) \<and>
    (msgs = [] \<longrightarrow> msgq_read clk t 0 ctx q s = Some (Read_done None, q, s)) \<and>
    (\<forall>m ms. msgs = m # ms \<longrightarrow>
      (\<exists>q'. msgq_read clk t timeout ctx q s = Some (Read_done (Some m), q', s) \<and> msgq_rep q' ms))"
proof (intro conjI allI impI)
  show "\<exists>q'. msgq_write msg q s = Some (True, q', s) \<and> msgq_rep q' (msgs @ [msg])" if "length msgs < msgq_size q"
    using msgq_write_rep [OF assms that] .
  show "msgq_full q" "msgq_write msg q s = Some (False, q, s)" if "length msgs = msgq_size q"
    using assms that by (auto simp: msgq_full_def msgq_write_def msgq_rep_def)
  show "msgq_read clk t 0 ctx q s = Some (Read_done None, q, s)" if "msgs = []"
    using assms that by (simp add: msgq_read_def sem_take_def msgq_rep_def)
  show "\<exists>q'. msgq_read clk t timeout ctx q s = Some (Read_done (Some m), q', s) \<and> msgq_rep q' ms" if "msgs = m # ms" for m ms
    using msgq_read_rep assms(1) that by blast
qed

theorem msgq_fifo_witness:
  "msgq_rep (msgq_new 2 1) [] \<and>
    (\<exists>q'. msgq_write [7] (msgq_new 2 1) demo_wait = Some (True, q', demo_wait) \<and> msgq_rep q' [[7]])"
proof -
  have r: "msgq_rep (msgq_new 2 1) []" by (simp add: msgq_rep_def msgq_new_def semaphore_new_def waitq_new_def)
  then show ?thesis
    using msgq_fifo [OF r, of "[7]" demo_wait] by (simp add: msgq_new_def)
qed

text \<open>
  A message can be overwritten before it is read: on a queue of size one with a reader waiting, a first write
  hands its token to the reader, so the count stays zero and a second write, made before the reader
  runs, is accepted and replaces the first message.
\<close>

theorem msgq_overwrites_unread:
  assumes q: "msgq_size q = 1" "read_p q = 0" "write_p q = 0" "length (storage q) = msg_size q"
    and sm: "sem_count (sem q) = 0" "sem_max_count (sem q) = 1" "waitq (waiting_queue (sem q)) s [ctx]"
    and w: "sched_inv s R B" "p < NUM_PRIORITIES" "item_thread s ctx \<in> set (B ! p)"
    and ab: "length a = msg_size q" "length b = msg_size q"
  shows "\<exists>q1 s1 q2 s2 q3. msgq_write a q s = Some (True, q1, s1) \<and> msgq_write b q1 s1 = Some (True, q2, s2) \<and>
    msgq_read_end ctx q2 s2 = Some (Some b, q3)"
proof -
  have "\<not> waitq_empty (waiting_queue (sem q))" using waitq_empty_iff [OF sm(3)] by simp
  moreover obtain wq' s1 where n: "notify_one (waiting_queue (sem q)) s = Some (wq', s1)" "waitq wq' s1 []" "wait_end ctx s1"
    using notify_one_wakes [OF sm(3) w] by blast
  ultimately have g: "sem_give (sem q) s = Some ((sem q)\<lparr>waiting_queue := wq'\<rparr>, s1)"
    using sm by (simp add: sem_give_def)
  have "wq' = NULL" using n(2) by (simp add: waitq_def)
  then have g2: "sem_give ((sem q)\<lparr>waiting_queue := wq'\<rparr>) s1 = Some ((sem q)\<lparr>waiting_queue := wq', sem_count := 1\<rparr>, s1)"
    using sm by (simp add: sem_give_def waitq_empty_def)
  let ?q1 = "q\<lparr>storage := a, write_p := 0, sem := (sem q)\<lparr>waiting_queue := wq'\<rparr>\<rparr>"
  let ?q2 = "q\<lparr>storage := b, write_p := 0, sem := (sem q)\<lparr>waiting_queue := wq', sem_count := 1\<rparr>\<rparr>"
  have "msgq_write a q s = Some (True, ?q1, s1)" using q sm g ab by (simp add: msgq_write_def)
  moreover have "msgq_write b ?q1 s1 = Some (True, ?q2, s1)" using q sm g2 ab by (simp add: msgq_write_def)
  moreover have "msgq_read_end ctx ?q2 s1 = Some (Some b, ?q2\<lparr>read_p := 0\<rparr>)"
    using q ab n(3) by (simp add: msgq_read_end_def msgq_take_elem_def)
  ultimately show ?thesis by blast
qed

theorem msgq_overwrites_unread_witness:
  "\<exists>q1 s1 q2 s2 q3. msgq_write [1] ((msgq_new 1 1)\<lparr>sem := \<lparr>waiting_queue = 0x100, sem_count = 0, sem_max_count = 1\<rparr>\<rparr>)
      demo_wait = Some (True, q1, s1) \<and>
    msgq_write [2] q1 s1 = Some (True, q2, s2) \<and> msgq_read_end 0x100 q2 s2 = Some (Some [2], q3)"
  by (rule msgq_overwrites_unread [OF _ _ _ _ _ _ _ demo_wait_inv, of _ _ 1])
    (simp_all add: msgq_new_def demo_waitq NUM_PRIORITIES_def)

end
