(* ===== verification/Timer_Service.thy ===== *)
theory Timer_Service
  imports Mutex
begin

text \<open>
  The timer service: kernel/timer_service.cpp and kernel/include/kernel/timer_service.hpp.

  The fields of the task descriptors are maps of the state, which extends that of the wait queues;
  their list nodes are objects of their own kind with their own links. \<open>TASK_PTR\<close> is the
  identity because \<open>list_node\<close> is the first field of a descriptor. Callbacks are recorded, with their
  arguments, in the order they are called. A contended mutex makes an operation end as \<open>None\<close> of the
  inner option: the calling thread goes to wait.
\<close>

subsection \<open>State and operations\<close>

record timer_state = wait_state +
  task_links :: link_heap
  p_cb :: "ptr \<Rightarrow> ptr"
  p_ctx :: "ptr \<Rightarrow> ptr"
  deadline_tsc :: "ptr \<Rightarrow> u64"
  callbacks :: "(ptr \<times> ptr \<times> ptr) list"

record timer_service =
  ts_mutex :: mutex
  pending_tasks :: ptr
  task_pool :: ptr
  task_pool_ptr :: ptr
  shared_ctx :: ptr
  service_thread :: ptr

definition TASK_POOL_SIZE :: nat where
  "TASK_POOL_SIZE = 32"

text \<open>\<open>task_node i\<close> is the list node of the i-th descriptor of the pool; a descriptor has 40 bytes.\<close>

definition task_node :: "ptr \<Rightarrow> nat \<Rightarrow> ptr" where
  "task_node base i = base + of_nat (i * 40)"

primrec task_pool_fill :: "ptr \<Rightarrow> nat \<Rightarrow> ptr \<Rightarrow> 'z timer_state_scheme \<Rightarrow> (ptr \<times> 'z timer_state_scheme) option" where
  "task_pool_fill base 0 pool s = Some (pool, s)"
| "task_pool_fill base (Suc n) pool s = do {
     (pool, s) \<leftarrow> task_pool_fill base n pool s;
     (_, l) \<leftarrow> intrusive_list_init link_ops (task_node base n) (task_links s);
     (pool, l) \<leftarrow> intrusive_list_push_back link_ops pool (task_node base n) l;
     Some (pool, s\<lparr>task_links := l\<rparr>)
   }"

definition timer_service_new ::
  "ptr \<Rightarrow> ptr \<Rightarrow> ptr \<Rightarrow> 'z timer_state_scheme \<Rightarrow> (timer_service \<times> 'z timer_state_scheme) option" where
  "timer_service_new thread ctx base s = do {
     (pool, s) \<leftarrow> task_pool_fill base TASK_POOL_SIZE NULL s;
     Some (\<lparr>ts_mutex = mutex_new, pending_tasks = NULL, task_pool = pool, task_pool_ptr = base,
       shared_ctx = ctx, service_thread = thread\<rparr>, s)
   }"

definition add_task ::
  "clock \<Rightarrow> nat \<Rightarrow> ptr \<Rightarrow> ptr \<Rightarrow> u64 \<Rightarrow> timer_service \<Rightarrow> 'z timer_state_scheme \<Rightarrow>
    (ptr \<times> timer_service \<times> 'z timer_state_scheme) option option" where
  "add_task clk t cb ctx timeout_ms ts s =
     (if cb = NULL \<or> task_pool ts = NULL then Some (Some (NULL, ts, s))
      else let (locked, m) = mutex_lock_try (ts_mutex ts) s in
      if \<not> locked then Some None
      else do {
        let task = task_pool ts;
        let (pool, l) = intrusive_list_delete link_ops (task_pool ts) task (task_links s);
        let ts = ts\<lparr>ts_mutex := m, task_pool := pool\<rparr>;
        let s = s\<lparr>task_links := l, p_cb := (p_cb s)(task := cb), p_ctx := (p_ctx s)(task := ctx)\<rparr>;
        let (now, s) = arch_tsc s;
        ticks \<leftarrow> ns_to_tsc clk t (timeout_ms * 1000 * 1000);
        let s = s\<lparr>deadline_tsc := (deadline_tsc s)(task := now + ticks)\<rparr>;
        (pending, l) \<leftarrow> intrusive_list_insert_sorted link_ops (pending_tasks ts) task
          (\<lambda>a b. deadline_tsc s a > deadline_tsc s b) (task_links s);
        let ts = ts\<lparr>pending_tasks := pending\<rparr>;
        let s = s\<lparr>task_links := l\<rparr>;
        let wakeup_service_thread = (task = pending_tasks ts);
        (m, s) \<leftarrow> mutex_unlock (ts_mutex ts) s;
        let ts = ts\<lparr>ts_mutex := m\<rparr>;
        s \<leftarrow> (if wakeup_service_thread then map_option snd (wake (service_thread ts) s) else Some s);
        Some (Some (task, ts, s))
      })"

definition remove_task ::
  "ptr \<Rightarrow> timer_service \<Rightarrow> 'z timer_state_scheme \<Rightarrow> (timer_service \<times> 'z timer_state_scheme) option option" where
  "remove_task p_task ts s =
     (if p_task = NULL then Some (Some (ts, s))
      else let (locked, m) = mutex_lock_try (ts_mutex ts) s in
      if \<not> locked then Some None
      else do {
        let (pending, l) = intrusive_list_delete link_ops (pending_tasks ts) p_task (task_links s);
        (pool, l) \<leftarrow> intrusive_list_push_back link_ops (task_pool ts) p_task l;
        let ts = ts\<lparr>pending_tasks := pending, task_pool := pool\<rparr>;
        let s = s\<lparr>task_links := l\<rparr>;
        (m, s) \<leftarrow> mutex_unlock m s;
        Some (Some (ts\<lparr>ts_mutex := m\<rparr>, s))
      })"

text \<open>
  One pass of the inner loop of \<open>run\<close>, up to the deadline the thread then sleeps until. The \<open>memset\<close>
  clears the pointer \<open>task\<close> and not the descriptor, so that the node pushed into the pool is that of
  a NULL descriptor.
\<close>

partial_function (option) run_pass ::
  "timer_service \<Rightarrow> 'z timer_state_scheme \<Rightarrow> (u64 \<times> timer_service \<times> 'z timer_state_scheme) option option" where
  "run_pass ts s =
     (let (locked, m) = mutex_lock_try (ts_mutex ts) s in
      if \<not> locked then Some None
      else if pending_tasks ts = NULL then do {
        (m, s) \<leftarrow> mutex_unlock m s;
        Some (Some (NO_DEADLINE, ts\<lparr>ts_mutex := m\<rparr>, s))
      } else let (now, s) = arch_tsc s in
      if deadline_tsc s (pending_tasks ts) > now then do {
        let next_tsc_deadline = deadline_tsc s (pending_tasks ts);
        (m, s) \<leftarrow> mutex_unlock m s;
        Some (Some (next_tsc_deadline, ts\<lparr>ts_mutex := m\<rparr>, s))
      } else do {
        let task = pending_tasks ts;
        let (pending, l) = intrusive_list_delete link_ops (pending_tasks ts) (pending_tasks ts) (task_links s);
        let ts = ts\<lparr>pending_tasks := pending\<rparr>;
        let s = s\<lparr>task_links := l\<rparr>;
        (m, s) \<leftarrow> mutex_unlock m s;
        let s = s\<lparr>callbacks := callbacks s @ [(p_cb s task, p_ctx s task, shared_ctx ts)]\<rparr>;
        let task = NULL;
        let (locked, m) = mutex_lock_try m s;
        if \<not> locked then Some None
        else do {
          (pool, l) \<leftarrow> intrusive_list_push_back link_ops (task_pool ts) task (task_links s);
          let ts = ts\<lparr>task_pool := pool\<rparr>;
          let s = s\<lparr>task_links := l\<rparr>;
          (m, s) \<leftarrow> mutex_unlock m s;
          run_pass (ts\<lparr>ts_mutex := m\<rparr>) s
        }
      })"

primrec task_pool_unlink :: "ptr \<Rightarrow> nat \<Rightarrow> 'z timer_state_scheme \<Rightarrow> 'z timer_state_scheme" where
  "task_pool_unlink base 0 s = s"
| "task_pool_unlink base (Suc n) s =
     (let s = task_pool_unlink base n s
      in s\<lparr>task_links := intrusive_list_unlink_node link_ops (task_node base n) (task_links s)\<rparr>)"

definition timer_service_destroy :: "timer_service \<Rightarrow> 'z timer_state_scheme \<Rightarrow> 'z timer_state_scheme option" where
  "timer_service_destroy ts s = do {
     s \<leftarrow> kthread_destroy (service_thread ts) s;
     Some (task_pool_unlink (task_pool_ptr ts) TASK_POOL_SIZE s)
   }"

subsection \<open>The pool of descriptors\<close>

lemma task_node_eq_iff:
  assumes "i < TASK_POOL_SIZE" "j < TASK_POOL_SIZE"
  shows "task_node base i = task_node base j \<longleftrightarrow> i = j"
  using assms by (simp del: of_nat_mult add: task_node_def TASK_POOL_SIZE_def word_of_nat_eq_iff take_bit_nat_eq_self)

lemma task_pool_fill_ring:
  assumes "n \<le> TASK_POOL_SIZE" "\<forall>i<n. task_node base i \<noteq> NULL"
  shows "\<exists>pool s'. task_pool_fill base n NULL s = Some (pool, s') \<and>
    ring (task_links s') pool (rev (map (task_node base) [0..<n])) \<and> wait_state.truncate s' = wait_state.truncate s"
  using assms
proof (induction n)
  case (Suc n)
  let ?xs = "rev (map (task_node base) [0..<n])"
  obtain pool s1 where IH: "task_pool_fill base n NULL s = Some (pool, s1)" "ring (task_links s1) pool ?xs"
      "wait_state.truncate s1 = wait_state.truncate s"
    using Suc by auto
  have nn: "task_node base n \<noteq> NULL" "task_node base n \<notin> set ?xs"
    using Suc.prems by (auto simp: task_node_eq_iff)
  obtain l1 where l1: "intrusive_list_init link_ops (task_node base n) (task_links s1) = Some (task_node base n, l1)"
    using nn by (simp add: intrusive_list_init_def)
  have "ring l1 pool ?xs"
    using lh.init_frame [OF l1 unobserved_ring [of "{task_node base n}" ?xs pool]] IH(2) nn by simp
  then obtain l2 where "intrusive_list_push_back link_ops pool (task_node base n) l1 = Some (task_node base n, l2)"
      "ring l2 (task_node base n) (task_node base n # ?xs)"
    using lh.push_back_as_head [of l1 pool ?xs "task_node base n"] nn by blast
  then show ?case using IH l1 by (simp add: wait_state.defs)
qed simp

subsection \<open>Properties\<close>

text \<open>
  The constructor returns with a pool that holds each of the 32 descriptors once, no task pending
  and the mutex free.
\<close>

theorem timer_service_new_pool:
  assumes "\<forall>i<TASK_POOL_SIZE. task_node base i \<noteq> NULL"
  shows "\<exists>ts s'. timer_service_new thread ctx base s = Some (ts, s') \<and>
    ring (task_links s') (task_pool ts) (rev (map (task_node base) [0..<TASK_POOL_SIZE])) \<and>
    pending_tasks ts = NULL \<and> owner (ts_mutex ts) = NULL"
  using task_pool_fill_ring [OF order_refl assms, of s] by (auto simp: timer_service_new_def mutex_new_def)

definition demo_timer :: timer_state where
  "demo_timer = wait_state.extend demo_wait
     \<lparr>task_links = \<lparr>lnext = (\<lambda>p. p), lprev = (\<lambda>p. p)\<rparr>, p_cb = (\<lambda>_. 0x500), p_ctx = (\<lambda>_. NULL),
      deadline_tsc = (\<lambda>_. 0), callbacks = []\<rparr>"

definition demo_service :: timer_service where
  "demo_service = \<lparr>ts_mutex = mutex_new, pending_tasks = 0x1000, task_pool = 0x1028, task_pool_ptr = 0x1000,
     shared_ctx = NULL, service_thread = 0x10\<rparr>"

theorem timer_service_new_pool_witness:
  "\<exists>ts s'. timer_service_new 0x10 0 0x1000 demo_timer = Some (ts, s') \<and>
    ring (task_links s') (task_pool ts) (rev (map (task_node 0x1000) [0..<TASK_POOL_SIZE])) \<and>
    pending_tasks ts = NULL \<and> owner (ts_mutex ts) = NULL"
proof (rule timer_service_new_pool)
  have "\<forall>i\<in>set [0..<TASK_POOL_SIZE]. task_node 0x1000 i \<noteq> NULL"
    unfolding TASK_POOL_SIZE_def by (simp add: upt_conv_Cons task_node_def)
  then show "\<forall>i<TASK_POOL_SIZE. task_node 0x1000 i \<noteq> NULL" by auto
qed

text \<open>
  The service thread never gets past its first expired task: run clears its pointer to the
  descriptor where it means to clear the descriptor, and appending the NULL node to the pool fails the assertion of
  the list, which spins. The mutex is free and nobody waits for it.
\<close>

theorem timer_service_stops_at_first_task:
  assumes "owner (ts_mutex ts) = NULL" "waitq_empty (mutex_waiting_queue (ts_mutex ts))"
    and "pending_tasks ts \<noteq> NULL" "deadline_tsc s (pending_tasks ts) \<le> tsc_counter s (tsc_reads s)"
  shows "run_pass ts s = None"
  using assms
  by (subst run_pass.simps)
    (simp add: mutex_lock_try_def mutex_unlock_def intrusive_list_push_back_def kASSERT_def case_prod_beta Let_def)

theorem timer_service_stops_at_first_task_witness:
  "run_pass demo_service demo_timer = None"
  by (rule timer_service_stops_at_first_task)
    (simp_all add: demo_service_def demo_timer_def mutex_new_def waitq_empty_def waitq_new_def wait_state.defs)

end
