(* ===== verification/Sockbuf.thy ===== *)
theory Sockbuf
  imports Waitq
begin

text \<open>
  Socket buffers: net/include/net/sockbuf.hpp, and the state the network layers share.

  A sockbuf object is a value of the record \<open>sockbuf\<close>: its fields are the pointers of the class into the
  byte memory of the state. A handler gets the object and returns it changed. Its list node matters only for
  the receive list of a TCP socket and is modelled there. A member that a constructor leaves uninitialised
  has the value of the object \<open>junk\<close>. The payload a constructor copies is given as the bytes its pointer points
  to, or \<open>None\<close> for the null pointer.

  The allocator and the link below IP are outside of these layers: \<open>alloc_result n\<close> is what the n-th call
  of \<open>otrix::alloc\<close> returns, \<open>link_result n\<close> what the n-th \<open>linkif::write\<close> returns; what is freed and the
  frames given to the link are recorded in order.
\<close>

subsection \<open>State\<close>

type_synonym mac_t = "u8 list"
type_synonym ipv4_t = u32

datatype free_event =
    Free ptr
  | Free_func (free_func_called: ptr) ptr u64 ptr

record link_frame =
  frame_data :: "u8 list"
  frame_dest :: mac_t
  frame_type :: u16

record net_state = wait_state +
  mem :: memory
  alloc_result :: "nat \<Rightarrow> ptr"
  alloc_calls :: nat
  freed :: "free_event list"
  link_mac :: mac_t
  link_headers_size :: u64
  link_result :: "nat \<Rightarrow> kerror_t"
  sent :: "link_frame list"

definition otrix_alloc :: "u64 \<Rightarrow> 'z net_state_scheme \<Rightarrow> ptr \<times> 'z net_state_scheme" where
  "otrix_alloc sz s = (alloc_result s (alloc_calls s), s\<lparr>alloc_calls := alloc_calls s + 1\<rparr>)"

subsection \<open>Socket buffers\<close>

datatype sockbuf_header_t = hdr_virtio | hdr_ethernet | hdr_ip | hdr_icmp | hdr_udp | hdr_tcp

record sockbuf =
  start :: ptr
  buffer_size :: u64
  headers :: "sockbuf_header_t \<Rightarrow> ptr"
  payload :: ptr
  head :: ptr
  payload_size :: u64
  free_func :: ptr
  free_func_ctx :: ptr

definition sockbuf_new ::
  "sockbuf \<Rightarrow> u64 \<Rightarrow> u8 list option \<Rightarrow> u64 \<Rightarrow> 'z net_state_scheme \<Rightarrow> sockbuf \<times> 'z net_state_scheme" where
  "sockbuf_new junk headers_size src sz s =
     (let b = junk\<lparr>buffer_size := headers_size + sz, payload_size := sz, free_func := NULL\<rparr>;
          (start, s) = otrix_alloc (headers_size + sz) s;
          b = b\<lparr>start := start\<rparr>
      in if start \<noteq> NULL then
           let b = b\<lparr>head := start + headers_size\<rparr>;
               b = b\<lparr>payload := head b\<rparr>;
               s = (case src of Some bs \<Rightarrow> s\<lparr>mem := write_bytes (payload b) (take (unat sz) bs) (mem s)\<rparr> | None \<Rightarrow> s)
           in (b\<lparr>headers := (\<lambda>_. NULL)\<rparr>, s)
         else (b, s))"

definition sockbuf_zero_copy :: "ptr \<Rightarrow> u64 \<Rightarrow> ptr \<Rightarrow> ptr \<Rightarrow> sockbuf" where
  "sockbuf_zero_copy data data_size ff ffctx =
     \<lparr>start = data, buffer_size = data_size, headers = (\<lambda>_. NULL), payload = data, head = data,
      payload_size = data_size, free_func = ff, free_func_ctx = ffctx\<rparr>"

text \<open>The move constructor: the new object and what is left of the old one.\<close>

definition sockbuf_move :: "sockbuf \<Rightarrow> sockbuf \<times> sockbuf" where
  "sockbuf_move other =
     (other, other\<lparr>start := NULL, headers := (\<lambda>_. NULL), buffer_size := 0, payload := NULL, head := NULL,
        payload_size := 0, free_func := NULL, free_func_ctx := NULL\<rparr>)"

definition sockbuf_delete :: "sockbuf \<Rightarrow> 'z net_state_scheme \<Rightarrow> 'z net_state_scheme" where
  "sockbuf_delete b s =
     (if free_func b \<noteq> NULL then
        s\<lparr>freed := freed s @ [Free_func (free_func b) (start b) (buffer_size b) (free_func_ctx b)]\<rparr>
      else if start b \<noteq> NULL then s\<lparr>freed := freed s @ [Free (start b)]\<rparr>
      else s)"

definition sockbuf_data :: "sockbuf \<Rightarrow> ptr" where
  "sockbuf_data b = (if start b = NULL then start b else head b)"

definition sockbuf_size :: "sockbuf \<Rightarrow> u64" where
  "sockbuf_size b = (payload b - head b) + payload_size b"

definition add_header :: "u64 \<Rightarrow> sockbuf_header_t \<Rightarrow> sockbuf \<Rightarrow> ptr \<times> sockbuf" where
  "add_header header_size type b =
     (if head b - start b < header_size then (NULL, b)
      else if headers b type \<noteq> NULL then (headers b type, b)
      else let b = b\<lparr>head := head b - header_size\<rparr>;
               b = b\<lparr>headers := (headers b)(type := head b)\<rparr>
           in (head b, b))"

definition add_parsed_header :: "u64 \<Rightarrow> sockbuf_header_t \<Rightarrow> sockbuf \<Rightarrow> sockbuf" where
  "add_parsed_header header_size type b =
     (if headers b type \<noteq> NULL then b
      else if header_size > payload_size b then b
      else b\<lparr>headers := (headers b)(type := head b), head := head b + header_size,
             payload_size := payload_size b - header_size, payload := payload b + header_size\<rparr>)"

definition set_payload_size :: "u64 \<Rightarrow> sockbuf \<Rightarrow> sockbuf" where
  "set_payload_size new_size b = b\<lparr>payload_size := new_size\<rparr>"

subsection \<open>Writing a frame to the link\<close>

definition link_write ::
  "sockbuf \<Rightarrow> mac_t \<Rightarrow> u16 \<Rightarrow> 'z net_state_scheme \<Rightarrow> kerror_t \<times> 'z net_state_scheme" where
  "link_write b dest type s =
     (link_result s (length (sent s)),
      s\<lparr>sent := sent s @ [\<lparr>frame_data = read_bytes (mem s) (sockbuf_data b) (unat (sockbuf_size b)),
           frame_dest = dest, frame_type = type\<rparr>]\<rparr>)"

subsection \<open>Well-formed buffers\<close>

text \<open>
  \<open>skb_ok\<close>: the pointers of the object lie inside its buffer, in the order start, head, payload, end, and
  every header that is set lies between start and payload.
\<close>

definition skb_ok :: "sockbuf \<Rightarrow> bool" where
  "skb_ok b \<longleftrightarrow> start b \<noteq> NULL \<and> unat (start b) + unat (buffer_size b) < 2 ^ 64 \<and>
     start b \<le> head b \<and> head b \<le> payload b \<and>
     unat (payload b) + unat (payload_size b) \<le> unat (start b) + unat (buffer_size b) \<and>
     (\<forall>t. headers b t = NULL \<or> start b \<le> headers b t \<and> headers b t \<le> payload b)"

lemma sockbuf_new_alloc:
  assumes "alloc_result s (alloc_calls s) = a" "a \<noteq> NULL"
  shows "sockbuf_new junk hs src sz s =
    (\<lparr>start = a, buffer_size = hs + sz, headers = (\<lambda>_. NULL), payload = a + hs, head = a + hs, payload_size = sz,
       free_func = NULL, free_func_ctx = free_func_ctx junk\<rparr>,
     s\<lparr>alloc_calls := alloc_calls s + 1, mem := (case src of
        Some bs \<Rightarrow> write_bytes (a + hs) (take (unat sz) bs) (mem s) | None \<Rightarrow> mem s)\<rparr>)"
  using assms by (cases src) (simp_all add: sockbuf_new_def otrix_alloc_def Let_def)

lemma sockbuf_new_ok:
  assumes "alloc_result s (alloc_calls s) \<noteq> NULL"
    and "unat (alloc_result s (alloc_calls s)) + unat hs + unat sz < 2 ^ 64"
  shows "skb_ok (fst (sockbuf_new junk hs src sz s))"
  using assms by (simp add: sockbuf_new_alloc skb_ok_def word_le_nat_alt unat_word_ariths)

lemma zero_copy_ok:
  "data \<noteq> NULL \<Longrightarrow> unat data + unat sz < 2 ^ 64 \<Longrightarrow> skb_ok (sockbuf_zero_copy data sz ff c)"
  by (simp add: sockbuf_zero_copy_def skb_ok_def)

lemma add_header_ok:
  assumes "skb_ok b"
  shows "skb_ok (snd (add_header n t b))"
proof (cases "head b - start b < n \<or> headers b t \<noteq> NULL")
  case False
  then have "unat (start b) + unat n \<le> unat (head b)" 
    using assms by (auto simp: skb_ok_def word_less_nat_alt word_le_nat_alt unat_sub_if')
  moreover from this have "unat (head b - n) = unat (head b) - unat n" by (simp add: unat_sub_if')
  ultimately show ?thesis using False assms
    by (auto simp: add_header_def skb_ok_def word_le_nat_alt Let_def)
qed (use assms in \<open>auto simp: add_header_def\<close>)

lemma add_parsed_header_ok:
  assumes "skb_ok b"
  shows "skb_ok (add_parsed_header n t b)"
proof (cases "n > payload_size b \<or> headers b t \<noteq> NULL")
  case False
  then have n: "unat n \<le> unat (payload_size b)" by (simp add: word_less_nat_alt)
  have s: "unat (start b) \<le> unat (head b)" "unat (head b) \<le> unat (payload b)"
      "unat (payload b) + unat (payload_size b) \<le> unat (start b) + unat (buffer_size b)"
      "unat (start b) + unat (buffer_size b) < 2 ^ 64"
    using assms by (auto simp: skb_ok_def word_le_nat_alt)
  have "unat (head b + n) = unat (head b) + unat n" "unat (payload b + n) = unat (payload b) + unat n"
      "unat (payload_size b - n) = unat (payload_size b) - unat n"
    using n s by (simp_all add: unat_word_ariths unat_sub_if')
  moreover have "headers b u = NULL \<or> unat (start b) \<le> unat (headers b u) \<and> unat (headers b u) \<le> unat (payload b)" for u
    using assms by (auto simp: skb_ok_def word_le_nat_alt)
  moreover have "start b \<noteq> NULL" using assms by (simp add: skb_ok_def)
  moreover have "add_parsed_header n t b = b\<lparr>headers := (headers b)(t := head b), head := head b + n,
      payload_size := payload_size b - n, payload := payload b + n\<rparr>"
    using False by (simp add: add_parsed_header_def)
  ultimately show ?thesis using n s by (auto simp: skb_ok_def word_le_nat_alt intro: le_trans trans_le_add1)
qed (use assms in \<open>auto simp: add_parsed_header_def\<close>)

subsection \<open>Properties\<close>



end
