(* ===== verification/Arp.thy ===== *)
theory Arp
  imports Sockbuf
begin

text \<open>
  Address resolution: net/arp.cpp and net/include/net/arp.hpp, with \<open>make_ipv4\<close> of net/include/net/ipv4.hpp.

  The table is the array \<open>table_\<close>, a list of four pairs; packets are read from and written to the byte memory
  at the offsets of \<open>arp_header_ipv4\<close>. Subscribing to the link happens in the constructor and is modelled with
  the link.
\<close>

subsection \<open>Definitions\<close>

definition make_ipv4 :: "u8 \<Rightarrow> u8 \<Rightarrow> u8 \<Rightarrow> u8 \<Rightarrow> ipv4_t" where
  "make_ipv4 a b c d = push_bit 24 (ucast a) OR push_bit 16 (ucast b) OR push_bit 8 (ucast c) OR ucast d"

definition ETHERTYPE_ARP :: u16 where "ETHERTYPE_ARP = 0x806"
definition ETHERTYPE_IPV4 :: u16 where "ETHERTYPE_IPV4 = 0x800"
definition ARP_REQUEST :: u16 where "ARP_REQUEST = 1"
definition ARP_REPLY :: u16 where "ARP_REPLY = 2"

record arp =
  arp_table :: "(ipv4_t \<times> mac_t) list"
  arp_mac :: mac_t
  arp_ip_addr :: ipv4_t

definition TABLE_SIZE :: nat where "TABLE_SIZE = 4"

definition arp_new :: "ipv4_t \<Rightarrow> 'z net_state_scheme \<Rightarrow> arp" where
  "arp_new ip_addr s = \<lparr>arp_table = replicate TABLE_SIZE (0, replicate 6 0), arp_mac = link_mac s, arp_ip_addr = ip_addr\<rparr>"

text \<open>The fields of an \<open>arp_header_ipv4\<close>, in memory order.\<close>

record arp_header_ipv4 =
  hardware_type :: u16
  protocol_type :: u16
  hln :: u8
  pln :: u8
  operation :: u16
  sender_mac :: mac_t
  sender_ip :: u32
  target_mac :: mac_t
  target_ip :: u32

definition ARP_HEADER_SIZE :: u64 where "ARP_HEADER_SIZE = 28"

definition arp_header_bytes :: "arp_header_ipv4 \<Rightarrow> u8 list" where
  "arp_header_bytes h = le_bytes 2 (hardware_type h) @ le_bytes 2 (protocol_type h) @ [hln h, pln h] @
     le_bytes 2 (operation h) @ sender_mac h @ le_bytes 4 (sender_ip h) @ target_mac h @ le_bytes 4 (target_ip h)"

definition arp_header_at :: "memory \<Rightarrow> ptr \<Rightarrow> arp_header_ipv4" where
  "arp_header_at m p = \<lparr>hardware_type = load16 m p, protocol_type = load16 m (p + 2), hln = m (p + 4), pln = m (p + 5),
     operation = load16 m (p + 6), sender_mac = read_bytes m (p + 8) 6, sender_ip = load32 m (p + 14),
     target_mac = read_bytes m (p + 18) 6, target_ip = load32 m (p + 24)\<rparr>"

text \<open>
  \<open>entry.second == mac\<close> compares two arrays, that is their addresses: the i-th entry's is at
  offset 4 of the i-th 12-byte pair of the table.
\<close>

definition arp_get_ip :: "ptr \<Rightarrow> ptr \<Rightarrow> arp \<Rightarrow> ipv4_t option" where
  "arp_get_ip table_ptr mac_ptr a =
     map_option (\<lambda>i. fst (arp_table a ! i))
       (find (\<lambda>i. table_ptr + of_nat (12 * i) + 4 = mac_ptr) [0..<length (arp_table a)])"

definition arp_get_mac :: "ipv4_t \<Rightarrow> arp \<Rightarrow> mac_t option" where
  "arp_get_mac addr a = map_option snd (find (\<lambda>entry. fst entry = addr) (arp_table a))"

definition arp_resolve :: "ipv4_t \<Rightarrow> u64 \<Rightarrow> arp \<Rightarrow> mac_t option" where
  "arp_resolve addr timeout_ms a = (case arp_get_mac addr a of Some m \<Rightarrow> Some m | None \<Rightarrow> None)"

definition arp_send ::
  "sockbuf \<Rightarrow> u16 \<Rightarrow> ipv4_t \<Rightarrow> mac_t \<Rightarrow> ipv4_t \<Rightarrow> 'z net_state_scheme \<Rightarrow> kerror_t \<times> 'z net_state_scheme" where
  "arp_send junk op addr tmac tip s =
     (let p = \<lparr>hardware_type = bswap16 1, protocol_type = bswap16 ETHERTYPE_IPV4, hln = 6, pln = 4,
            operation = bswap16 op, sender_mac = link_mac s, sender_ip = bswap32 addr, target_mac = tmac,
            target_ip = bswap32 tip\<rparr>;
          (packet, s) = sockbuf_new junk (link_headers_size s) (Some (arp_header_bytes p)) ARP_HEADER_SIZE s
      in link_write packet (target_mac p) ETHERTYPE_ARP s)"

definition arp_send_reply ::
  "sockbuf \<Rightarrow> ipv4_t \<Rightarrow> mac_t \<Rightarrow> ipv4_t \<Rightarrow> 'z net_state_scheme \<Rightarrow> kerror_t \<times> 'z net_state_scheme" where
  "arp_send_reply junk addr tmac tip s = arp_send junk ARP_REPLY addr tmac tip s"

definition arp_send_request :: "sockbuf \<Rightarrow> ipv4_t \<Rightarrow> arp \<Rightarrow> 'z net_state_scheme \<Rightarrow> kerror_t \<times> 'z net_state_scheme" where
  "arp_send_request junk tip a s = arp_send junk ARP_REQUEST (arp_ip_addr a) (replicate 6 0xff) tip s"

definition arp_send_request_to ::
  "sockbuf \<Rightarrow> ipv4_t \<Rightarrow> mac_t \<Rightarrow> ipv4_t \<Rightarrow> 'z net_state_scheme \<Rightarrow> kerror_t \<times> 'z net_state_scheme" where
  "arp_send_request_to junk addr tmac tip s = arp_send junk ARP_REQUEST addr tmac tip s"

definition arp_announce :: "sockbuf \<Rightarrow> arp \<Rightarrow> 'z net_state_scheme \<Rightarrow> kerror_t \<times> 'z net_state_scheme" where
  "arp_announce junk a s = arp_send_reply junk (arp_ip_addr a) (replicate 6 0xff) (make_ipv4 255 255 255 255) s"

text \<open>The loop over the table in \<open>process_packet\<close>: the table and whether an empty entry was found.\<close>

fun arp_fill :: "ipv4_t \<Rightarrow> mac_t \<Rightarrow> (ipv4_t \<times> mac_t) list \<Rightarrow> bool \<times> (ipv4_t \<times> mac_t) list" where
  "arp_fill ip mac [] = (False, [])"
| "arp_fill ip mac (entry # table) =
     (if 0 = fst entry then (True, (ip, mac) # table)
      else let (found, table) = arp_fill ip mac table in (found, entry # table))"

definition arp_process_packet :: "sockbuf \<Rightarrow> sockbuf \<Rightarrow> arp \<Rightarrow> 'z net_state_scheme \<Rightarrow> arp \<times> 'z net_state_scheme" where
  "arp_process_packet junk data a s =
     (if payload_size data < ARP_HEADER_SIZE then (a, s)
      else
        let p = payload data;
            h = arp_header_at (mem s) p;
            s = (if operation h = bswap16 ARP_REQUEST \<and> bswap32 (target_ip h) = arp_ip_addr a
                 then snd (arp_send_reply junk (arp_ip_addr a) (sender_mac h) (sender_ip h) s) else s);
            h = arp_header_at (mem s) p;
            (empty_found, table) = arp_fill (bswap32 (sender_ip h)) (sender_mac h) (arp_table a);
            table = (if \<not> empty_found then table[0 := (bswap32 (sender_ip h), sender_mac h)] else table)
        in (a\<lparr>arp_table := table\<rparr>, s))"

subsection \<open>Lemmas\<close>

lemma arp_header_at_frame:
  "separate a (length bs) p 28 \<Longrightarrow> arp_header_at (write_bytes a bs m) p = arp_header_at m p"
  using read_write_separate_at [of a bs p 28 0 2 m]
  by (simp add: arp_header_at_def load16_def load32_def read_write_separate_at write_bytes_separate_at)

lemma arp_fill_length [simp]: "length (snd (arp_fill ip mac t)) = length t"
  by (induction t) (auto simp: case_prod_beta Let_def)

lemma arp_fill_found: "fst (arp_fill ip mac t) \<longleftrightarrow> 0 \<in> fst ` set t"
  by (induction t) (auto simp: case_prod_beta Let_def)

lemma arp_fill_full: "0 \<notin> fst ` set t \<Longrightarrow> snd (arp_fill ip mac t) = t"
  by (induction t) (auto simp: case_prod_beta Let_def)

lemma arp_fill_find:
  "0 \<in> fst ` set t \<Longrightarrow> ip \<notin> fst ` set t \<Longrightarrow>
    find (\<lambda>e. fst e = ip) (snd (arp_fill ip mac t)) = Some (ip, mac)"
  by (induction t) (auto simp: case_prod_beta Let_def)

lemma arp_fill_find_other:
  "ip2 \<noteq> ip \<Longrightarrow> ip2 \<noteq> 0 \<Longrightarrow> find (\<lambda>e. fst e = ip2) (snd (arp_fill ip mac t)) = find (\<lambda>e. fst e = ip2) t"
  by (induction t) (auto simp: case_prod_beta Let_def)

lemma arp_fill_known:
  "ip \<noteq> 0 \<Longrightarrow> find (\<lambda>e. fst e = ip) t = Some e \<Longrightarrow> (\<forall>i j. i < j \<and> j < length t \<and> fst (t ! i) = 0 \<longrightarrow> fst (t ! j) = 0) \<Longrightarrow>
    find (\<lambda>e. fst e = ip) (snd (arp_fill ip mac t)) = Some e"
proof (induction t)
  case (Cons x t)
  show ?case
  proof (cases "fst x = 0")
    case True
    have "fst y = 0" if "y \<in> set t" for y
    proof -
      obtain j where "j < length t" "t ! j = y" using \<open>y \<in> set t\<close> unfolding in_set_conv_nth by blast
      then show ?thesis using Cons.prems(3) [rule_format, of 0 "Suc j"] True by simp
    qed
    then have "find (\<lambda>e. fst e = ip) t = None" using Cons.prems(1) by (auto simp: find_None_iff)
    then show ?thesis using Cons.prems True by simp
  next
    case False
    have "\<forall>i j. i < j \<and> j < length t \<and> fst (t ! i) = 0 \<longrightarrow> fst (t ! j) = 0"
      using Cons.prems(3) by (metis Suc_less_eq length_Cons nth_Cons_Suc)
    then show ?thesis using Cons False by (auto simp: case_prod_beta Let_def)
  qed
qed simp

text \<open>The state after a packet was processed; a reply is written to a buffer apart from the packet.\<close>

definition arp_buffer_apart :: "sockbuf \<Rightarrow> 'z net_state_scheme \<Rightarrow> bool" where
  "arp_buffer_apart data s \<longleftrightarrow> alloc_result s (alloc_calls s) \<noteq> NULL \<and> length (link_mac s) = 6 \<and>
     separate (alloc_result s (alloc_calls s) + link_headers_size s) 28 (payload data) 28"

lemma arp_send_state:
  assumes "arp_buffer_apart data s" "length tmac = 6"
  shows "snd (arp_send junk op addr tmac tip s) =
    s\<lparr>alloc_calls := alloc_calls s + 1,
      mem := write_bytes (alloc_result s (alloc_calls s) + link_headers_size s) (arp_header_bytes
        \<lparr>hardware_type = bswap16 1, protocol_type = bswap16 ETHERTYPE_IPV4, hln = 6, pln = 4, operation = bswap16 op,
         sender_mac = link_mac s, sender_ip = bswap32 addr, target_mac = tmac, target_ip = bswap32 tip\<rparr>) (mem s),
      sent := sent s @ [\<lparr>frame_data = arp_header_bytes
        \<lparr>hardware_type = bswap16 1, protocol_type = bswap16 ETHERTYPE_IPV4, hln = 6, pln = 4, operation = bswap16 op,
         sender_mac = link_mac s, sender_ip = bswap32 addr, target_mac = tmac, target_ip = bswap32 tip\<rparr>,
        frame_dest = tmac, frame_type = ETHERTYPE_ARP\<rparr>]\<rparr>"
  using assms
  by (simp add: arp_buffer_apart_def arp_send_def sockbuf_new_alloc link_write_def Let_def sockbuf_data_def sockbuf_size_def
    ARP_HEADER_SIZE_def arp_header_bytes_def read_write_same)

lemma arp_process_packet_table:
  assumes "ARP_HEADER_SIZE \<le> payload_size data" "arp_buffer_apart data s" "h = arp_header_at (mem s) (payload data)"
  shows "arp_table (fst (arp_process_packet junk data a s)) =
    (let (found, t) = arp_fill (bswap32 (sender_ip h)) (sender_mac h) (arp_table a)
     in if found then t else t[0 := (bswap32 (sender_ip h), sender_mac h)])"
proof -
  have "length (sender_mac h) = 6" using assms(3) by (simp add: arp_header_at_def)
  moreover have "length (arp_header_bytes \<lparr>hardware_type = bswap16 1, protocol_type = bswap16 ETHERTYPE_IPV4, hln = 6,
      pln = 4, operation = bswap16 ARP_REPLY, sender_mac = link_mac s, sender_ip = bswap32 (arp_ip_addr a),
      target_mac = sender_mac h, target_ip = bswap32 (sender_ip h)\<rparr>) = 28"
    using assms(2) calculation by (simp add: arp_header_bytes_def arp_buffer_apart_def)
  ultimately have "arp_header_at (mem (snd (arp_send_reply junk (arp_ip_addr a) (sender_mac h) (sender_ip h) s))) (payload data) = h"
    using assms by (simp add: arp_send_reply_def arp_send_state [OF assms(2)] arp_header_at_frame arp_buffer_apart_def)
  then show ?thesis
    using assms(1,3) by (auto simp: arp_process_packet_def Let_def case_prod_beta)
qed

text \<open>A reply carries the address of the sender with its bytes reversed: it is swapped a second time.\<close>

lemma arp_reply_target_reversed:
  assumes "ARP_HEADER_SIZE \<le> payload_size data" "arp_buffer_apart data s" "h = arp_header_at (mem s) (payload data)"
    and "operation h = bswap16 ARP_REQUEST" "bswap32 (target_ip h) = arp_ip_addr a"
  shows "\<exists>f. sent (snd (arp_process_packet junk data a s)) = sent s @ [f] \<and> frame_dest f = sender_mac h \<and>
    drop 24 (frame_data f) = rev (le_bytes 4 (sender_ip h))"
proof -
  have l: "length (sender_mac h) = 6" "length (link_mac s) = 6"
    using assms(2,3) by (simp_all add: arp_header_at_def arp_buffer_apart_def)
  have "le_bytes 4 (bswap32 (sender_ip h)) = rev (le_bytes 4 (sender_ip h))"
    using le_bytes_le_word [where 'a = 32, of "rev (le_bytes 4 (sender_ip h))"] by (simp add: bswap32_def)
  then show ?thesis
    using assms l by (simp add: arp_process_packet_def Let_def case_prod_beta arp_send_reply_def arp_send_state [OF assms(2)]
      arp_header_bytes_def)
qed

subsection \<open>Properties\<close>

text \<open>
  C31. A packet of an unknown sender is learned: afterwards its address resolves to its hardware address, and while there
  was an empty entry every other address resolves as before. The table keeps its size.
\<close>

theorem arp_learns:
  assumes "ARP_HEADER_SIZE \<le> payload_size data" "arp_buffer_apart data s" "h = arp_header_at (mem s) (payload data)"
    and "ip = bswap32 (sender_ip h)" "ip \<noteq> 0" "arp_get_mac ip a = None" "arp_table a \<noteq> []"
  shows "arp_resolve ip timeout (fst (arp_process_packet junk data a s)) = Some (sender_mac h) \<and>
    length (arp_table (fst (arp_process_packet junk data a s))) = length (arp_table a) \<and>
    (0 \<in> fst ` set (arp_table a) \<longrightarrow> (\<forall>ip2. ip2 \<noteq> ip \<and> ip2 \<noteq> 0 \<longrightarrow>
      arp_resolve ip2 timeout (fst (arp_process_packet junk data a s)) = arp_resolve ip2 timeout a))"
proof -
  have n: "ip \<notin> fst ` set (arp_table a)"
    using assms(6) by (auto simp: arp_get_mac_def find_None_iff)
  let ?t = "arp_table (fst (arp_process_packet junk data a s))"
  show ?thesis
  proof (cases "0 \<in> fst ` set (arp_table a)")
    case True
    then have "?t = snd (arp_fill ip (sender_mac h) (arp_table a))"
      using arp_process_packet_table [OF assms(1-3), of junk a] assms(4)
      by (simp only: case_prod_beta Let_def arp_fill_found if_True)
    then show ?thesis
      using arp_fill_find [OF True n] arp_fill_find_other [of _ ip] by (simp add: arp_resolve_def arp_get_mac_def)
  next
    case False
    then have "?t = (arp_table a)[0 := (ip, sender_mac h)]"
      using arp_process_packet_table [OF assms(1-3), of junk a] assms(4) arp_fill_full [OF False]
      by (simp only: case_prod_beta Let_def arp_fill_found if_False)
    then show ?thesis
      using False assms(7) by (cases "arp_table a") (auto simp: arp_resolve_def arp_get_mac_def)
  qed
qed

definition demo_net :: net_state where
  "demo_net = wait_state.extend demo_wait
     \<lparr>mem = write_bytes 0x2000 (arp_header_bytes \<lparr>hardware_type = bswap16 1, protocol_type = bswap16 ETHERTYPE_IPV4,
        hln = 6, pln = 4, operation = bswap16 ARP_REPLY, sender_mac = [1, 2, 3, 4, 5, 6], sender_ip = 0x0100000a,
        target_mac = replicate 6 0xff, target_ip = 0x0200000a\<rparr>) (\<lambda>_. 0),
      alloc_result = (\<lambda>n. 0x10000 + of_nat n * 0x1000), alloc_calls = 0, freed = [], link_mac = [8, 0, 0x27, 1, 2, 3],
      link_headers_size = 24, link_result = (\<lambda>_. E_OK), sent = []\<rparr>"

definition demo_arp_packet :: sockbuf where
  "demo_arp_packet = sockbuf_zero_copy 0x2000 28 0 0"

lemma demo_arp_packet_ok:
  "ARP_HEADER_SIZE \<le> payload_size demo_arp_packet" "arp_buffer_apart demo_arp_packet demo_net"
  by (simp_all add: ARP_HEADER_SIZE_def demo_arp_packet_def sockbuf_zero_copy_def arp_buffer_apart_def demo_net_def
    wait_state.defs separate_def)

lemma demo_arp_sender:
  "bswap32 (sender_ip (arp_header_at (mem demo_net) (payload demo_arp_packet))) = 0x0a000001"
  "sender_mac (arp_header_at (mem demo_net) (payload demo_arp_packet)) = [1, 2, 3, 4, 5, 6]"
  by code_simp+

theorem arp_learns_witness:
  "arp_resolve 0x0a000001 0 (fst (arp_process_packet demo_arp_packet demo_arp_packet (arp_new 0x0a000002 demo_net) demo_net))
    = Some [1, 2, 3, 4, 5, 6]"
proof -
  have "arp_get_mac 0x0a000001 (arp_new 0x0a000002 demo_net) = None" "arp_table (arp_new 0x0a000002 demo_net) \<noteq> []"
    by code_simp+
  then show ?thesis
    using arp_learns [OF demo_arp_packet_ok refl, unfolded demo_arp_sender, OF refl, of "arp_new 0x0a000002 demo_net" 0 demo_arp_packet]
    by simp
qed

text \<open>
  A known address is not refreshed: while entries are filled from the front and one is empty, a packet that
  announces a new hardware address for an address in the table leaves it resolving to the old one.
\<close>

theorem arp_keeps_stale_address:
  assumes "ARP_HEADER_SIZE \<le> payload_size data" "arp_buffer_apart data s" "h = arp_header_at (mem s) (payload data)"
    and "bswap32 (sender_ip h) \<noteq> 0" "arp_get_mac (bswap32 (sender_ip h)) a = Some old" "0 \<in> fst ` set (arp_table a)"
    and "\<forall>i j. i < j \<and> j < length (arp_table a) \<and> fst (arp_table a ! i) = 0 \<longrightarrow> fst (arp_table a ! j) = 0"
  shows "arp_resolve (bswap32 (sender_ip h)) timeout (fst (arp_process_packet junk data a s)) = Some old"
proof -
  obtain e where e: "find (\<lambda>e. fst e = bswap32 (sender_ip h)) (arp_table a) = Some e" "snd e = old"
    using assms(5) by (auto simp: arp_get_mac_def)
  have "arp_table (fst (arp_process_packet junk data a s)) = snd (arp_fill (bswap32 (sender_ip h)) (sender_mac h) (arp_table a))"
    using arp_process_packet_table [OF assms(1-3), of junk a] assms(6)
    by (simp add: case_prod_beta Let_def arp_fill_found)
  then show ?thesis
    using arp_fill_known [OF assms(4) e(1) assms(7)] e(2) by (simp add: arp_resolve_def arp_get_mac_def)
qed

theorem arp_keeps_stale_address_witness:
  "arp_resolve 0x0a000001 0 (fst (arp_process_packet demo_arp_packet demo_arp_packet
      ((arp_new 0x0a000002 demo_net)\<lparr>arp_table := [(0x0a000001, [9, 9, 9, 9, 9, 9]), (0, []), (0, []), (0, [])]\<rparr>) demo_net))
    = Some [9, 9, 9, 9, 9, 9]"
proof (rule arp_keeps_stale_address [OF demo_arp_packet_ok refl, unfolded demo_arp_sender])
  show "\<forall>i j. i < j \<and> j < length (arp_table ((arp_new 0x0a000002 demo_net)\<lparr>arp_table :=
      [(0x0a000001, [9, 9, 9, 9, 9, 9]), (0, []), (0, []), (0, [])]\<rparr>)) \<and>
      fst (arp_table ((arp_new 0x0a000002 demo_net)\<lparr>arp_table := [(0x0a000001, [9, 9, 9, 9, 9, 9]), (0, []), (0, []), (0, [])]\<rparr>) ! i) = 0 \<longrightarrow>
      fst (arp_table ((arp_new 0x0a000002 demo_net)\<lparr>arp_table := [(0x0a000001, [9, 9, 9, 9, 9, 9]), (0, []), (0, []), (0, [])]\<rparr>) ! j) = 0"
    by (auto simp: nth_Cons split: nat.splits)
qed (simp_all add: arp_get_mac_def)

end
