(* ===== verification/Ipv4.thy ===== *)
theory Ipv4
  imports Arp
begin

text \<open>
  The network layer: net/ipv4.cpp and net/include/net/ipv4.hpp.

  The header is written field by field, in the order of the source, into the byte memory. A handler of
  \<open>rx_handlers_\<close> is a pair of a function pointer and its context; \<open>call\<close> is what calling a function
  pointer does, \<open>None\<close> when it does not return.
\<close>

subsection \<open>The checksum\<close>

text \<open>The words the loop of \<open>ip_checksum\<close> adds up: 16-bit little-endian words, and a last odd byte.\<close>

fun csum_words :: "u8 list \<Rightarrow> u32 \<Rightarrow> u32" where
  "csum_words [] csum = csum"
| "csum_words [a] csum = csum + ucast a"
| "csum_words (a # b # bs) csum = csum_words bs (csum + ucast (le_word [a, b] :: u16))"

definition ip_checksum_bytes :: "u8 list \<Rightarrow> u32 \<Rightarrow> u16" where
  "ip_checksum_bytes bs initial_sum =
     (let csum = csum_words bs initial_sum
      in ucast (NOT ((csum AND 0xffff) + drop_bit 16 (csum AND 0xffff0000))))"

definition ip_checksum :: "memory \<Rightarrow> ptr \<Rightarrow> u64 \<Rightarrow> u32 \<Rightarrow> u16" where
  "ip_checksum m p_data data_size initial_sum = ip_checksum_bytes (read_bytes m p_data (unat data_size)) initial_sum"

subsection \<open>The layer\<close>

type_synonym ipproto_t = u8

definition ipproto_unknown :: ipproto_t where "ipproto_unknown = 0"
definition ipproto_icmp :: ipproto_t where "ipproto_icmp = 1"
definition ipproto_tcp :: ipproto_t where "ipproto_tcp = 6"

record ipv4 =
  ip_arp :: arp
  ip_addr :: ipv4_t
  ip_gateway :: ipv4_t
  ip_rx_handlers :: "(ipproto_t \<times> ptr \<times> ptr) list"

definition MAX_RX_HANDLERS :: nat where "MAX_RX_HANDLERS = 3"

definition ipv4_new :: "arp \<Rightarrow> ipv4_t \<Rightarrow> ipv4_t \<Rightarrow> ipv4" where
  "ipv4_new a addr gateway = \<lparr>ip_arp = a, ip_addr = addr, ip_gateway = gateway,
     ip_rx_handlers = replicate MAX_RX_HANDLERS (ipproto_unknown, NULL, NULL)\<rparr>"

definition IP_HDR_SIZE :: u64 where "IP_HDR_SIZE = 20"
definition VERSION_IHL_IPV4 :: u8 where "VERSION_IHL_IPV4 = push_bit 4 4 OR 5"

definition ipv4_write ::
  "sockbuf \<Rightarrow> ipv4_t \<Rightarrow> ipproto_t \<Rightarrow> u64 \<Rightarrow> ipv4 \<Rightarrow> 'z net_state_scheme \<Rightarrow> kerror_t \<times> sockbuf \<times> 'z net_state_scheme" where
  "ipv4_write data dest proto timeout_ms ip s =
     (case arp_resolve (ip_gateway ip) timeout_ms (ip_arp ip) of
        None \<Rightarrow> (E_UNREACHABLE, data, s)
      | Some destination \<Rightarrow>
        let (hdr, data) = add_header IP_HDR_SIZE hdr_ip data;
            m = mem s;
            m = store8 hdr VERSION_IHL_IPV4 m;
            m = store8 (hdr + 1) 0 m;
            m = store16 (hdr + 2) (bswap16 (ucast (sockbuf_size data))) m;
            m = store16 (hdr + 4) 0 m;
            m = store16 (hdr + 6) 0 m;
            m = store8 (hdr + 8) 64 m;
            m = store8 (hdr + 9) proto m;
            m = store16 (hdr + 10) 0 m;
            m = store32 (hdr + 12) (bswap32 (ip_addr ip)) m;
            m = store32 (hdr + 16) (bswap32 dest) m;
            csum_computed = ip_checksum m hdr IP_HDR_SIZE 0;
            m = store16 (hdr + 10) csum_computed m;
            (e, s) = link_write data destination ETHERTYPE_IPV4 (s\<lparr>mem := m\<rparr>)
        in (e, data, s))"

definition ipv4_headers_size :: "'z net_state_scheme \<Rightarrow> u64" where
  "ipv4_headers_size s = IP_HDR_SIZE + link_headers_size s"

fun subscribe_loop :: "ipproto_t \<Rightarrow> ptr \<Rightarrow> ptr \<Rightarrow> (ipproto_t \<times> ptr \<times> ptr) list \<Rightarrow> kerror_t \<times> (ipproto_t \<times> ptr \<times> ptr) list" where
  "subscribe_loop type handler ctx [] = (E_NOMEM, [])"
| "subscribe_loop type handler ctx (h # hs) =
     (if ipproto_unknown = fst h then (E_OK, (type, handler, ctx) # hs)
      else let (e, hs) = subscribe_loop type handler ctx hs in (e, h # hs))"

definition ipv4_subscribe_to_rx :: "ipproto_t \<Rightarrow> ptr \<Rightarrow> ptr \<Rightarrow> ipv4 \<Rightarrow> kerror_t \<times> ipv4" where
  "ipv4_subscribe_to_rx type handler ctx ip =
     (let (e, hs) = subscribe_loop type handler ctx (ip_rx_handlers ip) in (e, ip\<lparr>ip_rx_handlers := hs\<rparr>))"

type_synonym 'w handler_call = "ptr \<Rightarrow> sockbuf \<Rightarrow> ptr \<Rightarrow> 'w \<Rightarrow> (sockbuf \<times> 'w) option"

fun rx_dispatch :: "'z net_state_scheme handler_call \<Rightarrow> ptr \<Rightarrow> (ipproto_t \<times> ptr \<times> ptr) list \<Rightarrow> sockbuf \<Rightarrow> 'z net_state_scheme \<Rightarrow>
    (sockbuf \<times> 'z net_state_scheme) option" where
  "rx_dispatch call p_hdr [] data s = Some (data, s)"
| "rx_dispatch call p_hdr ((type, handler, ctx) # hs) data s = do {
     (data, s) \<leftarrow> (if type = mem s (p_hdr + 9) then call handler data ctx s else Some (data, s));
     rx_dispatch call p_hdr hs data s
   }"

definition ipv4_process_packet ::
  "'z net_state_scheme handler_call \<Rightarrow> sockbuf \<Rightarrow> ipv4 \<Rightarrow> 'z net_state_scheme \<Rightarrow> (sockbuf \<times> 'z net_state_scheme) option" where
  "ipv4_process_packet call data ip s =
     (if payload_size data < IP_HDR_SIZE then Some (data, s)
      else
        let data = add_parsed_header IP_HDR_SIZE hdr_ip data;
            p_hdr = headers data hdr_ip;
            csum_computed = ip_checksum (mem s) p_hdr IP_HDR_SIZE 0
        in if csum_computed \<noteq> 0 then Some (data, s)
           else if mem s p_hdr \<noteq> VERSION_IHL_IPV4 then Some (data, s)
           else let broadcast = make_ipv4 255 255 255 255;
                    daddr = load32 (mem s) (p_hdr + 16)
           in if daddr \<noteq> bswap32 (ip_addr ip) \<and> daddr \<noteq> bswap32 broadcast then Some (data, s)
              else
                let len = ucast (bswap16 (load16 (mem s) (p_hdr + 2))) - IP_HDR_SIZE;
                    data = set_payload_size len data
                in rx_dispatch call p_hdr (ip_rx_handlers ip) data s)"

subsection \<open>The checksum as a sum\<close>

fun word_sum :: "u8 list \<Rightarrow> nat" where
  "word_sum [] = 0"
| "word_sum [a] = unat a"
| "word_sum (a # b # bs) = unat a + 256 * unat b + word_sum bs"

definition fold16 :: "nat \<Rightarrow> nat" where
  "fold16 n = n mod 65536 + n div 65536"

lemma fold16_split: "r < 65536 \<Longrightarrow> fold16 (65536 * q + r) = r + q"
  by (simp add: fold16_def)

lemma unat_byte: "unat (a :: u8) < 256"
  using unat_less [of a] by simp

lemma unat_le_word2: "unat (le_word [a, b] :: u16) = unat a + 256 * unat b"
proof -
  have "(le_word [a, b] :: u16) = ucast a + push_bit 8 (ucast b)"
    by (subst disjunctive_add) (auto simp: bit_simps dest: bit_imp_le_length)
  moreover have u: "unat (ucast x :: u16) = unat x" for x :: u8
    using unat_byte [of x] by (simp add: unsigned_ucast_eq take_bit_nat_eq_self)
  moreover have "unat (push_bit 8 (ucast b :: u16)) = 256 * unat b"
    using unat_byte [of b] u [of b] by (simp add: push_bit_eq_mult unat_word_ariths)
  ultimately show ?thesis
    using unat_byte [of a] unat_byte [of b] by (simp add: unat_word_ariths)
qed

lemma unat_csum_words: "unat (csum_words bs c) = (unat c + word_sum bs) mod 2 ^ 32"
proof (induction bs c rule: csum_words.induct)
  case (1 c)
  then show ?case using unat_less [of c] by simp
next
  case (2 a c)
  have "unat (ucast a :: u32) = unat a" using unat_byte [of a] by (simp add: unsigned_ucast_eq take_bit_nat_eq_self)
  then show ?case by (simp add: unat_word_ariths)
next
  case (3 a b bs c)
  have "unat (ucast (le_word [a, b] :: u16) :: u32) = unat a + 256 * unat b"
    using unat_le_word2 [of a b] unat_byte [of a] unat_byte [of b]
    by (simp add: unsigned_ucast_eq take_bit_nat_eq_self del: le_word.simps)
  then show ?case using 3 by (simp add: unat_word_ariths mod_simps add.assoc del: le_word.simps)
qed

lemma word_sum_le: "word_sum bs \<le> 65535 * ((length bs + 1) div 2)"
proof (induction bs rule: word_sum.induct)
  case (2 a)
  then show ?case using unat_byte [of a] by simp
next
  case (3 a b bs)
  then show ?case using unat_byte [of a] unat_byte [of b] by simp
qed simp

lemma word_sum_append: "even (length xs) \<Longrightarrow> word_sum (xs @ ys) = word_sum xs + word_sum ys"
  by (induction xs rule: word_sum.induct) auto

lemma ip_checksum_bytes_eq:
  assumes "unat i + word_sum bs < 2 ^ 32"
  shows "ip_checksum_bytes bs i = NOT (of_nat (fold16 (unat i + word_sum bs)))"
proof -
  define c where "c = csum_words bs i"
  have u: "unat c = unat i + word_sum bs" using assms by (simp add: c_def unat_csum_words)
  have lo: "unat (c AND 0xffff) = unat c mod 65536"
  proof -
    have "c AND 0xffff = take_bit 16 c" by (simp add: take_bit_eq_mask mask_eq_exp_minus_1)
    then have "unat (c AND 0xffff) = take_bit 16 (unat c)" by (simp only: unsigned_take_bit_eq)
    then show ?thesis by (simp only: take_bit_eq_mod) simp
  qed
  have "drop_bit 16 (c AND 0xffff0000) = drop_bit 16 c"
  proof -
    have m: "(0xffff0000 :: u32) = push_bit 16 (mask 16)" by (simp add: mask_eq_exp_minus_1 push_bit_eq_mult)
    show ?thesis unfolding m by (rule bit_word_eqI) (auto simp: bit_simps dest: bit_imp_le_length)
  qed
  then have hi: "unat (drop_bit 16 (c AND 0xffff0000)) = unat c div 65536"
    by (simp add: drop_bit_eq_div unat_div)
  have "(c AND 0xffff) + drop_bit 16 (c AND 0xffff0000) = of_nat (fold16 (unat c))"
  proof -
    have "(c AND 0xffff) + drop_bit 16 (c AND 0xffff0000) =
        of_nat (unat (c AND 0xffff)) + of_nat (unat (drop_bit 16 (c AND 0xffff0000)))" by simp
    then show ?thesis unfolding lo hi by (simp add: fold16_def)
  qed
  moreover have "(ucast (NOT w) :: u16) = NOT (ucast w)" for w :: u32
    by (rule bit_word_eqI) (auto simp: bit_simps)
  moreover have "(ucast (of_nat k :: u32) :: u16) = of_nat k" for k
    by (simp add: unsigned_of_nat word_of_nat_eq_iff)
  ultimately show ?thesis by (simp only: ip_checksum_bytes_def c_def [symmetric] Let_def u)
qed

text \<open>
  The reference is RFC 1071: carries out of the low 16 bits are added back until none is left. One fold is
  enough exactly when it does not produce a carry itself.
\<close>

function ones_fold :: "nat \<Rightarrow> nat" where
  "ones_fold n = (if n < 65536 then n else ones_fold (fold16 n))"
  by auto
termination
proof (relation "measure id")
  fix n :: nat assume "\<not> n < 65536"
  then have "1 \<le> n div 65536" "n = 65536 * (n div 65536) + n mod 65536" by simp_all
  then have "fold16 n < n" unfolding fold16_def by linarith
  then show "(fold16 n, n) \<in> measure id" by simp
qed simp

declare ones_fold.simps [simp del]

definition rfc1071 :: "u8 list \<Rightarrow> u16" where
  "rfc1071 bs = NOT (of_nat (ones_fold (word_sum bs)))"

lemma of_nat16_eq: "m < 65536 \<Longrightarrow> n < 65536 \<Longrightarrow> (of_nat m :: u16) = of_nat n \<longleftrightarrow> m = n"
  by (simp add: word_of_nat_eq_iff take_bit_nat_eq_self)

lemma fold16_twice:
  assumes "n < 2 ^ 32" "65536 \<le> fold16 n"
  shows "fold16 (fold16 n) = fold16 n - 65535" "fold16 n < 131071" "fold16 (fold16 n) < 65536"
proof -
  have "n div 65536 \<le> 65535" using assms(1) by simp
  then show b: "fold16 n < 131071" using assms by (auto simp: fold16_def)
  have "fold16 n div 65536 = 1" "fold16 n mod 65536 = fold16 n - 65536" using b assms(2) by (auto simp: mod_if)
  then show "fold16 (fold16 n) = fold16 n - 65535" using assms(2) by (simp add: fold16_def [of "fold16 n"])
  then show "fold16 (fold16 n) < 65536" using b by simp
qed

lemma rfc1071_one_fold:
  assumes "word_sum bs < 2 ^ 32"
  shows "ip_checksum_bytes bs 0 = rfc1071 bs \<longleftrightarrow> fold16 (word_sum bs) < 65536"
proof -
  let ?n = "word_sum bs"
  have n: "ip_checksum_bytes bs 0 = NOT (of_nat (fold16 ?n))" using ip_checksum_bytes_eq [of 0 bs] assms by simp
  show ?thesis
  proof (cases "fold16 ?n < 65536")
    case True
    then have "ones_fold ?n = fold16 ?n"
      using ones_fold.simps [of ?n] ones_fold.simps [of "fold16 ?n"] by (cases "?n < 65536") (simp_all add: fold16_def)
    then show ?thesis using True n by (simp add: rfc1071_def)
  next
    case False
    note f = fold16_twice [OF assms, unfolded not_less [symmetric], OF False]
    have "\<not> ?n < 65536" using False by (auto simp: fold16_def)
    then have "ones_fold ?n = fold16 ?n - 65535"
      using False f ones_fold.simps [of ?n] ones_fold.simps [of "fold16 ?n"] ones_fold.simps [of "fold16 (fold16 ?n)"]
      by simp
    moreover have "(of_nat (fold16 ?n) :: u16) = of_nat (fold16 ?n - 65536)"
      using False by (simp add: of_nat_diff)
    moreover have "(of_nat (fold16 ?n - 65536) :: u16) \<noteq> of_nat (fold16 ?n - 65535)"
      using False f(2) by (subst of_nat16_eq) auto
    ultimately show ?thesis using False n by (simp add: rfc1071_def bit.compl_eq_compl_iff)
  qed
qed

lemma unat_not16: "unat (NOT (w :: u16)) = 65535 - unat w"
proof -
  have "NOT w = 65535 - w" using not_eq_complement [of w] by simp
  moreover have "unat w \<le> 65535" using unat_less [of w] by simp
  ultimately show ?thesis using unat_sub_if' [of "65535" w] by simp
qed

lemma fold16_complement:
  assumes "n < 2 ^ 32"
  shows "fold16 (n + (65535 - fold16 n mod 65536)) = (if fold16 n < 65536 then 65535 else 65536)"
proof -
  define h l where "h = n div 65536" and "l = n mod 65536"
  have n: "n = 65536 * h + l" "l < 65536" "h < 65536" "fold16 n = l + h"
    using assms by (simp_all add: h_def l_def fold16_def)
  show ?thesis
  proof (cases "l + h < 65536")
    case True
    then have "n + (65535 - fold16 n mod 65536) = 65536 * h + (65535 - h)" using n by simp
    moreover have "fold16 (65536 * h + (65535 - h)) = 65535" using n(3) by (subst fold16_split) auto
    ultimately show ?thesis using True n(4) by simp
  next
    case False
    then have "fold16 n mod 65536 = l + h - 65536" using n by (simp add: mod_if)
    then have "n + (65535 - fold16 n mod 65536) = 65536 * (h + 1) + (65535 - h)" using n False by simp
    moreover have "fold16 (65536 * (h + 1) + (65535 - h)) = 65536" using n(3) by (subst fold16_split) auto
    ultimately show ?thesis using False n(4) by simp
  qed
qed

lemma checksum_verifies:
  assumes "even (length xs)" "word_sum (xs @ [0, 0] @ ys) + 65535 < 2 ^ 32"
    and "c = ip_checksum_bytes (xs @ [0, 0] @ ys) 0"
  shows "ip_checksum_bytes (xs @ le_bytes 2 c @ ys) 0 = 0 \<longleftrightarrow> fold16 (word_sum (xs @ [0, 0] @ ys)) < 65536"
proof -
  let ?n = "word_sum (xs @ [0, 0] @ ys)"
  have c: "c = NOT (of_nat (fold16 ?n))" using ip_checksum_bytes_eq [of 0 "xs @ [0, 0] @ ys"] assms by simp
  have "le_bytes 2 c = [ucast c, ucast (drop_bit 8 c)]" by (simp add: numeral_2_eq_2)
  moreover have "unat c = word_sum (le_bytes 2 c)"
    using le_word_le_bytes [where 'a = 16, of 2 c] unat_le_word2 [of "ucast c" "ucast (drop_bit 8 c)"] calculation by simp
  ultimately have n': "word_sum (xs @ le_bytes 2 c @ ys) = ?n + unat c"
    using assms(1) by (simp add: word_sum_append)
  have "unat c < 65536" using unat_less [of c] by simp
  then have v: "ip_checksum_bytes (xs @ le_bytes 2 c @ ys) 0 = NOT (of_nat (fold16 (?n + unat c)))"
    using assms(2) n' by (simp add: ip_checksum_bytes_eq)
  have uc: "unat c = 65535 - fold16 ?n mod 65536"
    unfolding c by (simp add: unat_not16 unat_of_nat)
  have "fold16 (?n + unat c) = (if fold16 ?n < 65536 then 65535 else 65536)"
    unfolding uc using fold16_complement assms(2) by simp
  then show ?thesis using v by simp
qed

subsection \<open>The header in memory\<close>

definition ip_header_bytes :: "u16 \<Rightarrow> ipproto_t \<Rightarrow> u16 \<Rightarrow> ipv4_t \<Rightarrow> ipv4_t \<Rightarrow> u8 list" where
  "ip_header_bytes len proto csum saddr daddr =
     [VERSION_IHL_IPV4, 0] @ le_bytes 2 (bswap16 len) @ [0, 0, 0, 0, 64, proto] @ le_bytes 2 csum @
     le_bytes 4 (bswap32 saddr) @ le_bytes 4 (bswap32 daddr)"

lemma length_ip_header_bytes [simp]: "length (ip_header_bytes len proto csum saddr daddr) = 20"
  by (simp add: ip_header_bytes_def)

lemma le_bytes2: "le_bytes 2 w = [ucast w, ucast (drop_bit 8 w)]"
  by (simp add: numeral_2_eq_2)

lemma write_append_at:
  "k = of_nat (length xs) \<Longrightarrow> length xs + length ys < 2 ^ 64 \<Longrightarrow>
    write_bytes (a + k) ys (write_bytes a xs m) = write_bytes a (xs @ ys) m"
  using write_write_append [of xs ys a m] by simp

lemma read_bytes_within:
  "i + k \<le> n \<Longrightarrow> read_bytes m (a + of_nat i) k = take k (drop i (read_bytes m a n))"
  by (simp add: drop_read_bytes take_read_bytes)

lemma read_bytes_nth: "i < n \<Longrightarrow> m (a + of_nat i) = read_bytes m a n ! i"
  by (simp add: read_bytes_def)

definition ip_csum :: "u16 \<Rightarrow> ipproto_t \<Rightarrow> ipv4_t \<Rightarrow> ipv4_t \<Rightarrow> u16" where
  "ip_csum len proto saddr daddr = ip_checksum_bytes (ip_header_bytes len proto 0 saddr daddr) 0"

text \<open>One fold of the sum of the header gives no carry: the condition under which the checksum is right.\<close>

definition one_fold :: "u16 \<Rightarrow> ipproto_t \<Rightarrow> ipv4_t \<Rightarrow> ipv4_t \<Rightarrow> bool" where
  "one_fold len proto saddr daddr \<longleftrightarrow> fold16 (word_sum (ip_header_bytes len proto 0 saddr daddr)) < 65536"

lemma ip_header_verifies:
  "ip_checksum_bytes (ip_header_bytes len proto (ip_csum len proto saddr daddr) saddr daddr) 0 = 0 \<longleftrightarrow>
    one_fold len proto saddr daddr"
proof -
  let ?xs = "[VERSION_IHL_IPV4, 0] @ le_bytes 2 (bswap16 len) @ [0, 0, 0, 0, 64, proto]"
  let ?ys = "le_bytes 4 (bswap32 saddr) @ le_bytes 4 (bswap32 daddr)"
  have e: "ip_header_bytes len proto c saddr daddr = ?xs @ le_bytes 2 c @ ?ys" for c
    by (simp add: ip_header_bytes_def)
  have z: "le_bytes 2 (0 :: u16) = [0, 0]" by (simp add: le_bytes2)
  have "word_sum (ip_header_bytes len proto 0 saddr daddr) + 65535 < 2 ^ 32"
    using word_sum_le [of "ip_header_bytes len proto 0 saddr daddr"] by simp
  then show ?thesis
    unfolding one_fold_def ip_csum_def e z by (intro checksum_verifies) simp_all
qed

lemma ipv4_write_state:
  assumes "arp_resolve (ip_gateway ip) t (ip_arp ip) = Some d" "add_header IP_HDR_SIZE hdr_ip data = (hdr, data')"
  shows "ipv4_write data dest proto t ip s =
    (let m = write_bytes hdr (ip_header_bytes (ucast (sockbuf_size data')) proto
           (ip_csum (ucast (sockbuf_size data')) proto (ip_addr ip) dest) (ip_addr ip) dest) (mem s);
         (e, s) = link_write data' d ETHERTYPE_IPV4 (s\<lparr>mem := m\<rparr>)
     in (e, data', s))"
proof -
  let ?H = "\<lambda>c. ip_header_bytes (ucast (sockbuf_size data')) proto c (ip_addr ip) dest"
  have m: "store32 (hdr + 16) (bswap32 dest) (store32 (hdr + 12) (bswap32 (ip_addr ip)) (store16 (hdr + 10) 0
      (store8 (hdr + 9) proto (store8 (hdr + 8) 64 (store16 (hdr + 6) 0 (store16 (hdr + 4) 0
      (store16 (hdr + 2) (bswap16 (ucast (sockbuf_size data'))) (store8 (hdr + 1) 0 (store8 hdr VERSION_IHL_IPV4 (mem s)))))))))) =
      write_bytes hdr (?H 0) (mem s)"
    by (simp add: store8_def store16_def store32_def write_append_at ip_header_bytes_def le_bytes2)
  have r: "read_bytes (write_bytes hdr (?H 0) (mem s)) hdr 20 = ?H 0" by (rule read_write_same) simp_all
  have w: "store16 (hdr + 10) c (write_bytes hdr (?H 0) (mem s)) = write_bytes hdr (?H c) (mem s)" for c
    using write_write_within [of 10 "le_bytes 2 c" "?H 0" hdr "mem s"] by (simp add: store16_def ip_header_bytes_def)
  show ?thesis
    using assms by (simp add: ipv4_write_def Let_def m ip_checksum_def IP_HDR_SIZE_def r w ip_csum_def case_prod_beta)
qed

lemma add_header_room:
  assumes "skb_ok b" "headers b t = NULL" "n \<le> head b - start b"
  shows "add_header n t b = (head b - n, b\<lparr>head := head b - n, headers := (headers b)(t := head b - n)\<rparr>)"
  using assms(2,3) [unfolded not_less [symmetric]] by (simp add: add_header_def Let_def)

lemma separate_after: "0 < k \<Longrightarrow> k + n < 2 ^ 64 \<Longrightarrow> separate a k (a + of_nat k) n"
proof -
  assume h: "0 < k" "k + n < 2 ^ 64"
  have "unat (a - (a + of_nat k)) = (if k = 0 then 0 else 2 ^ 64 - k)"
    using h unat_minus_offset [of k a a] by simp
  then show ?thesis using h by (auto simp: separate_def unat_of_nat64)
qed

text \<open>What is sent: one frame with the header in front of the data, to the hardware address of the gateway.\<close>

lemma ipv4_write_frame:
  assumes "arp_resolve (ip_gateway ip) t (ip_arp ip) = Some d" "skb_ok data" "headers data hdr_ip = NULL"
    and "IP_HDR_SIZE \<le> head data - start data" "unat (sockbuf_size data) + 20 < 65536"
    and len: "len = ucast (sockbuf_size data + 20)"
  shows "sent (snd (snd (ipv4_write data dest proto t ip s))) = sent s @
    [\<lparr>frame_data = ip_header_bytes len proto (ip_csum len proto (ip_addr ip) dest) (ip_addr ip) dest @
        read_bytes (mem s) (sockbuf_data data) (unat (sockbuf_size data)),
      frame_dest = d, frame_type = ETHERTYPE_IPV4\<rparr>]"
proof -
  let ?h = "head data - 20" and ?n = "unat (sockbuf_size data)"
  let ?H = "ip_header_bytes len proto (ip_csum len proto (ip_addr ip) dest) (ip_addr ip) dest"
  let ?b = "data\<lparr>head := ?h, headers := (headers data)(hdr_ip := ?h)\<rparr>"
  have ah: "add_header IP_HDR_SIZE hdr_ip data = (?h, ?b)"
    using add_header_room [OF assms(2,3,4)] by (simp add: IP_HDR_SIZE_def)
  have st: "start data \<noteq> NULL" using assms(2) by (simp add: skb_ok_def)
  have sz: "sockbuf_size ?b = sockbuf_size data + 20" by (simp add: sockbuf_size_def)
  then have un: "unat (sockbuf_size ?b) = 20 + ?n" using assms(5) by (simp add: unat_word_ariths)
  let ?m = "write_bytes ?h ?H (mem s)"
  have "read_bytes ?m ?h (20 + ?n) = read_bytes ?m ?h 20 @ read_bytes ?m (?h + of_nat 20) ?n"
    by (rule read_bytes_add)
  moreover have "read_bytes ?m ?h 20 = ?H" by (rule read_write_same) simp_all
  moreover have "read_bytes ?m (?h + of_nat 20) ?n = read_bytes (mem s) (?h + of_nat 20) ?n"
    using separate_after [of 20 ?n ?h] assms(5) by (intro read_write_separate) simp
  moreover have "sockbuf_data data = head data" "sockbuf_data ?b = ?h" using st by (simp_all add: sockbuf_data_def)
  ultimately have "read_bytes ?m (sockbuf_data ?b) (unat (sockbuf_size ?b)) = ?H @ read_bytes (mem s) (sockbuf_data data) ?n"
    by (simp add: un)
  then show ?thesis
    using sz by (simp add: ipv4_write_state [OF assms(1) ah] Let_def case_prod_beta link_write_def len)
qed

text \<open>What is accepted: a buffer that begins with such a header.\<close>

lemma ipv4_process_accepts:
  assumes b: "payload b = q" "head b = q" "headers b hdr_ip = NULL" "20 \<le> payload_size b"
    and H: "read_bytes (mem r) q 20 = ip_header_bytes len proto (ip_csum len proto saddr daddr) saddr daddr"
    and f: "one_fold len proto saddr daddr" and d: "daddr = ip_addr ip \<or> daddr = make_ipv4 255 255 255 255"
  shows "ipv4_process_packet call b ip r = rx_dispatch call q (ip_rx_handlers ip)
    (b\<lparr>headers := (headers b)(hdr_ip := q), head := q + 20, payload := q + 20, payload_size := ucast len - 20\<rparr>) r"
proof -
  have l: "load16 (mem r) (q + 2) = bswap16 len" "load32 (mem r) (q + 16) = bswap32 daddr"
    using read_bytes_within [of 2 2 20 "mem r" q] read_bytes_within [of 16 4 20 "mem r" q]
    by (simp_all add: load16_def load32_def H ip_header_bytes_def le_word_le_bytes)
  have v: "mem r q = VERSION_IHL_IPV4" using read_bytes_nth [of 0 20 "mem r" q] by (simp add: H ip_header_bytes_def)
  have c: "ip_checksum (mem r) q IP_HDR_SIZE 0 = 0"
    using H f by (simp add: ip_checksum_def IP_HDR_SIZE_def ip_header_verifies)
  have z: "\<not> payload_size b < 20" using b(4) by (simp only: not_less)
  have nd: "\<not> (bswap32 daddr \<noteq> bswap32 (ip_addr ip) \<and> bswap32 daddr \<noteq> bswap32 (make_ipv4 255 255 255 255))"
    using d by auto
  have p: "add_parsed_header IP_HDR_SIZE hdr_ip b =
      b\<lparr>headers := (headers b)(hdr_ip := q), head := q + 20, payload_size := payload_size b - 20, payload := q + 20\<rparr>"
    using b z by (simp add: add_parsed_header_def IP_HDR_SIZE_def)
  show ?thesis
    using b(1,2) l v c nd z unfolding ipv4_process_packet_def p Let_def
    by (simp add: set_payload_size_def IP_HDR_SIZE_def) blast
qed

lemma rx_dispatch_null:
  assumes "(type, NULL, c) \<in> set hs" "\<And>d c w. call NULL d c w = None"
    and "\<And>h d c w d' w'. call h d c w = Some (d', w') \<Longrightarrow> mem w' (p + 9) = mem w (p + 9)" "mem s (p + 9) = type"
  shows "rx_dispatch call p hs data s = None"
  using assms(1,4)
proof (induction hs arbitrary: data s)
  case (Cons x hs)
  obtain t h c' where x: "x = (t, h, c')" by (cases x)
  show ?case
  proof (cases "h = NULL \<and> t = type")
    case True
    then show ?thesis using Cons.prems assms(2) by (simp add: x)
  next
    case False
    then have i: "(type, NULL, c) \<in> set hs" using Cons.prems(1) x by auto
    show ?thesis
    proof (cases "t = type")
      case True
      then show ?thesis using Cons i assms(3) by (cases "call h data c' s") (auto simp: x)
    next
      case False
      then show ?thesis using Cons i by (simp add: x)
    qed
  qed
qed simp

subsection \<open>Properties\<close>


definition demo_ip :: ipv4 where
  "demo_ip = ipv4_new ((arp_new 0x14000002 demo_net)\<lparr>arp_table := [(0x14000001, [1, 2, 3, 4, 5, 6])]\<rparr>) 0x14000002 0x14000001"

definition demo_ip2 :: ipv4 where
  "demo_ip2 = ipv4_new (arp_new 0x14000003 demo_net) 0x14000003 0x14000001"

text \<open>A buffer of two payload bytes with room for the header, and the packet another host receives.\<close>

definition demo_skb :: sockbuf where
  "demo_skb = \<lparr>start = 0x3000, buffer_size = 66, headers = (\<lambda>_. NULL), payload = 0x3040, head = 0x3040, payload_size = 2,
     free_func = 0, free_func_ctx = 0\<rparr>"

definition demo_sender :: net_state where
  "demo_sender = demo_net\<lparr>mem := write_bytes 0x3040 [7, 9] (mem demo_net)\<rparr>"

definition demo_frame :: "u8 list" where
  "demo_frame = ip_header_bytes 22 1 (ip_csum 22 1 0x14000002 0x14000003) 0x14000002 0x14000003 @ [7, 9]"

definition demo_receiver :: net_state where
  "demo_receiver = demo_net\<lparr>mem := write_bytes 0x5000 demo_frame (mem demo_net)\<rparr>"

lemma demo_headers:
  "ip_header_bytes 22 1 0 0x14000002 0x14000003 = [0x45, 0, 0, 22, 0, 0, 0, 0, 64, 1, 0, 0, 20, 0, 0, 2, 20, 0, 0, 3]"
  "ip_header_bytes 20 0 0 0x14000003 0x14000002 = [0x45, 0, 0, 20, 0, 0, 0, 0, 64, 0, 0, 0, 20, 0, 0, 3, 20, 0, 0, 2]"
  "ip_header_bytes 20 1 0 0x14000002 0x33f433f4 = [0x45, 0, 0, 20, 0, 0, 0, 0, 64, 1, 0, 0, 20, 0, 0, 2, 0x33, 0xf4, 0x33, 0xf4]"
  by code_simp+

lemma demo_one_fold: "one_fold 22 1 0x14000002 0x14000003" "one_fold 20 0 0x14000003 0x14000002"
  by (simp_all add: one_fold_def demo_headers fold16_def)


text \<open>
  C17. The checksum agrees with RFC 1071 exactly for the data whose sum gives no carry when it is folded once; for the
  rest it is not the Internet checksum.
\<close>

theorem ip_checksum_rfc1071:
  assumes "unat n \<le> 131072"
  shows "ip_checksum m p n 0 = rfc1071 (read_bytes m p (unat n)) \<longleftrightarrow>
    fold16 (word_sum (read_bytes m p (unat n))) < 65536"
proof -
  have "(unat n + 1) div 2 \<le> 65536" using assms by simp
  then have "word_sum (read_bytes m p (unat n)) < 2 ^ 32"
    using word_sum_le [of "read_bytes m p (unat n)"] by simp
  then show ?thesis by (simp add: ip_checksum_def rfc1071_one_fold)
qed

theorem ip_checksum_rfc1071_witness:
  "ip_checksum (write_bytes 0 [0xff, 0xff, 2, 0] (\<lambda>_. 0)) 0 4 0 = rfc1071 [0xff, 0xff, 2, 0] \<and>
    ip_checksum (write_bytes 0 [0xff, 0xff, 0xff, 0xff, 2, 0] (\<lambda>_. 0)) 0 6 0 = rfc1071 [0xff, 0xff, 0xff, 0xff, 2, 0]"
proof -
  have "fold16 (word_sum [0xff, 0xff, 2, 0]) < 65536" "fold16 (word_sum [0xff, 0xff, 0xff, 0xff, 2, 0]) < 65536"
    by (simp_all add: fold16_def)
  moreover have "read_bytes (write_bytes 0 [0xff, 0xff, 2, 0] (\<lambda>_. 0)) 0 4 = [0xff, 0xff, 2, 0]"
      "read_bytes (write_bytes 0 [0xff, 0xff, 0xff, 0xff, 2, 0] (\<lambda>_. 0)) 0 6 = [0xff, 0xff, 0xff, 0xff, 2, 0]"
    by (simp_all add: read_write_same)
  ultimately show ?thesis
    using ip_checksum_rfc1071 [of 4 "write_bytes 0 [0xff, 0xff, 2, 0] (\<lambda>_. 0)" 0]
      ip_checksum_rfc1071 [of 6 "write_bytes 0 [0xff, 0xff, 0xff, 0xff, 2, 0] (\<lambda>_. 0)" 0] by simp
qed

text \<open>A header for which the carry is lost: its checksum differs from that of RFC 1071, and it does not verify.\<close>

lemma ip_checksum_loses_carry:
  "ip_checksum_bytes (ip_header_bytes 20 1 0 0x14000002 0x33f433f4) 0 \<noteq> rfc1071 (ip_header_bytes 20 1 0 0x14000002 0x33f433f4)"
  using rfc1071_one_fold [of "ip_header_bytes 20 1 0 0x14000002 0x33f433f4"] by (simp add: demo_headers fold16_def)

text \<open>
  A packet of protocol 0 makes the kernel call the null pointer: a free entry of the handler table has protocol 0 and
  is not told apart from a subscribed one. Calling the null pointer does not return; the other handlers leave the
  protocol field of the packet alone.
\<close>

theorem ipv4_protocol_zero_calls_null:
  assumes rcv: "payload b = q" "head b = q" "headers b hdr_ip = NULL" "20 \<le> payload_size b"
    and "read_bytes (mem r) q 20 = ip_header_bytes len ipproto_unknown (ip_csum len ipproto_unknown saddr daddr) saddr daddr"
    and "one_fold len ipproto_unknown saddr daddr" "daddr = ip_addr ip \<or> daddr = make_ipv4 255 255 255 255"
    and "(ipproto_unknown, NULL, NULL) \<in> set (ip_rx_handlers ip)" "\<And>d c w. call NULL d c w = None"
    and "\<And>h d c w d' w'. call h d c w = Some (d', w') \<Longrightarrow> mem w' (q + 9) = mem w (q + 9)"
  shows "ipv4_process_packet call b ip r = None"
proof -
  have "mem r (q + 9) = ipproto_unknown"
    using read_bytes_nth [of 9 20 "mem r" q] assms(5) by (simp add: ip_header_bytes_def nth_append le_bytes2)
  then show ?thesis
    using ipv4_process_accepts [OF assms(1-7), of call] rx_dispatch_null [OF assms(8), of call q r] assms(9,10) by simp
qed

definition demo_probe :: net_state where
  "demo_probe = demo_net\<lparr>mem := write_bytes 0x5000
     (ip_header_bytes 20 ipproto_unknown (ip_csum 20 ipproto_unknown 0x14000003 0x14000002) 0x14000003 0x14000002) (mem demo_net)\<rparr>"

theorem ipv4_protocol_zero_calls_null_witness:
  "ipv4_process_packet (\<lambda>h d c w. if h = NULL then None else Some (d, w)) (sockbuf_zero_copy 0x5000 60 0 0) demo_ip demo_probe = None"
proof (rule ipv4_protocol_zero_calls_null)
  show "read_bytes (mem demo_probe) 0x5000 20 =
      ip_header_bytes 20 ipproto_unknown (ip_csum 20 ipproto_unknown 0x14000003 0x14000002) 0x14000003 0x14000002"
    by (simp add: demo_probe_def read_write_same)
  show "one_fold 20 ipproto_unknown 0x14000003 0x14000002" using demo_one_fold(2) by (simp add: ipproto_unknown_def)
  show "0x14000002 = ip_addr demo_ip \<or> 0x14000002 = make_ipv4 255 255 255 255" by (simp add: demo_ip_def ipv4_new_def)
  show "(ipproto_unknown, NULL, NULL) \<in> set (ip_rx_handlers demo_ip)" by (simp add: demo_ip_def ipv4_new_def MAX_RX_HANDLERS_def)
qed (auto simp: sockbuf_zero_copy_def split: if_splits)

end
