(* ===== verification/Icmp.thy ===== *)
theory Icmp
  imports Ipv4 Semaphore
begin

text \<open>
  Ping: net/icmp.cpp and net/include/net/icmp.hpp.

  \<open>ping\<close> is cut at the wait for the reply: \<open>ping_begin\<close> sends the request and takes the semaphore, \<open>ping_end\<close>
  continues when the waiting thread runs again. The static counter \<open>req_id\<close> is a field of the record. An \<open>id_seq\<close>
  has 16 bits and no byte order.
\<close>

subsection \<open>Definitions\<close>

datatype icmp_type = echo_reply | destination_unreachable | echo

primrec icmp_type_code :: "icmp_type \<Rightarrow> u8" where
  "icmp_type_code echo_reply = 0"
| "icmp_type_code destination_unreachable = 3"
| "icmp_type_code echo = 8"

definition ICMP_HDR_SIZE :: u64 where "ICMP_HDR_SIZE = 4"
definition ICMP_ECHO_HDR_SIZE :: u64 where "ICMP_ECHO_HDR_SIZE = 2"
definition ICMP_PAYLOAD_SIZE :: nat where "ICMP_PAYLOAD_SIZE = 64"

record icmp =
  ping_req_semaphore :: semaphore
  ping_req_pending :: bool
  ping_req_id :: u16
  req_id :: u32

text \<open>The constructor leaves the pending flag and the id as they are; the semaphore has its default of at most one.\<close>

definition icmp_new :: "icmp \<Rightarrow> ptr \<Rightarrow> ptr \<Rightarrow> ipv4 \<Rightarrow> icmp \<times> ipv4" where
  "icmp_new junk handler this ip =
     (junk\<lparr>ping_req_semaphore := semaphore_new 1 0\<rparr>, snd (ipv4_subscribe_to_rx ipproto_icmp handler this ip))"

primrec ping_fill :: "nat \<Rightarrow> ptr \<Rightarrow> memory \<Rightarrow> memory" where
  "ping_fill 0 data m = m"
| "ping_fill (Suc i) data m = store8 (data + of_nat i) (of_nat i) (ping_fill i data m)"

definition icmp_seal :: "ptr \<Rightarrow> icmp_type \<Rightarrow> sockbuf \<Rightarrow> memory \<Rightarrow> memory" where
  "icmp_seal hdr type b m =
     (let m = store8 hdr (icmp_type_code type) m;
          m = store16 (hdr + 2) 0 m;
          m = store8 (hdr + 1) 0 m;
          csum_size = ICMP_HDR_SIZE + payload_size b;
          csum_computed = ip_checksum m hdr csum_size 0
      in store16 (hdr + 2) csum_computed m)"

definition ping_begin ::
  "sockbuf \<Rightarrow> clock \<Rightarrow> nat \<Rightarrow> ptr \<Rightarrow> ipv4_t \<Rightarrow> u64 \<Rightarrow> ipv4 \<Rightarrow> icmp \<Rightarrow> 'z net_state_scheme \<Rightarrow>
    (take_result \<times> icmp \<times> 'z net_state_scheme) option" where
  "ping_begin junk clk t ctx addr timeout ip i s = do {
     (_, sm, s) \<leftarrow> sem_take clk t 0 ctx (ping_req_semaphore i) s;
     let i = i\<lparr>ping_req_semaphore := sm\<rparr>;
     let i = i\<lparr>ping_req_id := ucast (req_id i), req_id := req_id i + 1\<rparr>;
     let i = i\<lparr>ping_req_pending := True\<rparr>;
     let (request, s) = sockbuf_new junk (ipv4_headers_size s + ICMP_HDR_SIZE) None
           (ICMP_ECHO_HDR_SIZE + of_nat ICMP_PAYLOAD_SIZE) s;
     let m = store16 (payload request) (ping_req_id i) (mem s);
     let m = ping_fill ICMP_PAYLOAD_SIZE (payload request + 2) m;
     let (_, request) = add_header ICMP_HDR_SIZE hdr_icmp request;
     let m = icmp_seal (headers request hdr_icmp) echo request m;
     let (_, request, s) = ipv4_write request addr ipproto_icmp timeout ip (s\<lparr>mem := m\<rparr>);
     (r, sm, s) \<leftarrow> sem_take clk t timeout ctx (ping_req_semaphore i) s;
     let i = i\<lparr>ping_req_semaphore := sm\<rparr>;
     let i = (case r of Take_done _ \<Rightarrow> i\<lparr>ping_req_pending := False\<rparr> | Take_waits \<Rightarrow> i);
     Some (r, i, s)
   }"

definition ping_end :: "ptr \<Rightarrow> icmp \<Rightarrow> 'z net_state_scheme \<Rightarrow> bool \<times> icmp" where
  "ping_end ctx i s = (wait_end ctx s, i\<lparr>ping_req_pending := False\<rparr>)"

definition process_echo_request :: "sockbuf \<Rightarrow> sockbuf \<Rightarrow> ipv4 \<Rightarrow> 'z net_state_scheme \<Rightarrow> 'z net_state_scheme" where
  "process_echo_request junk data ip s =
     (let p_ip_hdr = headers data hdr_ip;
          (reply, s) = sockbuf_new junk (ipv4_headers_size s + ICMP_HDR_SIZE)
            (if payload data = NULL then None else Some (read_bytes (mem s) (payload data) (unat (payload_size data))))
            (payload_size data) s;
          (_, reply) = add_header ICMP_HDR_SIZE hdr_icmp reply;
          m = icmp_seal (headers reply hdr_icmp) echo_reply reply (mem s);
          s = s\<lparr>mem := m\<rparr>;
          (_, _, s) = ipv4_write reply (bswap32 (load32 (mem s) (p_ip_hdr + 12))) ipproto_icmp (- 1) ip s
      in s)"

text \<open>The loop over the data of a reply: whether every byte is its own index.\<close>

fun echo_data_ok :: "nat \<Rightarrow> u8 list \<Rightarrow> bool" where
  "echo_data_ok i [] = True"
| "echo_data_ok i (b # bs) = (if i \<noteq> unat b then False else echo_data_ok (i + 1) bs)"

definition process_echo_reply :: "sockbuf \<Rightarrow> icmp \<Rightarrow> 'z net_state_scheme \<Rightarrow> (icmp \<times> 'z net_state_scheme) option" where
  "process_echo_reply data i s =
     (if \<not> ping_req_pending i then Some (i, s)
      else if payload_size data - ICMP_ECHO_HDR_SIZE \<noteq> of_nat ICMP_PAYLOAD_SIZE then Some (i, s)
      else let p_echo = payload data
      in if load16 (mem s) p_echo AND 0xFFFF \<noteq> ping_req_id i then Some (i, s)
      else if \<not> echo_data_ok 0 (read_bytes (mem s) (p_echo + 2) (unat (payload_size data - ICMP_ECHO_HDR_SIZE))) then Some (i, s)
      else do {
        (sm, s) \<leftarrow> sem_give (ping_req_semaphore i) s;
        Some (i\<lparr>ping_req_semaphore := sm\<rparr>, s)
      })"

definition icmp_process_packet ::
  "sockbuf \<Rightarrow> sockbuf \<Rightarrow> ipv4 \<Rightarrow> icmp \<Rightarrow> 'z net_state_scheme \<Rightarrow> (icmp \<times> sockbuf \<times> 'z net_state_scheme) option" where
  "icmp_process_packet junk data ip i s =
     (if payload_size data < IP_HDR_SIZE then Some (i, data, s)
      else do {
        let data = add_parsed_header ICMP_HDR_SIZE hdr_icmp data;
        let type = mem s (headers data hdr_icmp);
        if type = icmp_type_code echo then Some (i, data, process_echo_request junk data ip s)
        else if type = icmp_type_code echo_reply then do {
          (i, s) \<leftarrow> process_echo_reply data i s;
          Some (i, data, s)
        } else Some (i, data, s)
      })"

subsection \<open>Lemmas\<close>

definition icmp_csum :: "icmp_type \<Rightarrow> u8 list \<Rightarrow> u16" where
  "icmp_csum type P = ip_checksum_bytes ([icmp_type_code type, 0] @ [0, 0] @ P) 0"

lemma icmp_seal_eq:
  assumes "unat (payload_size b) + 4 < 2 ^ 64" "P = read_bytes m (hdr + 4) (unat (payload_size b))"
  shows "icmp_seal hdr type b m = write_bytes hdr ([icmp_type_code type, 0] @ le_bytes 2 (icmp_csum type P)) m"
proof -
  let ?t = "icmp_type_code type" and ?n = "unat (payload_size b)"
  have "separate (hdr + 1) 1 (hdr + 2) 2" using separate_after [of 1 2 "hdr + 1"] by (simp add: add.assoc)
  then have "store8 (hdr + 1) 0 (store16 (hdr + 2) 0 (store8 hdr ?t m)) = store16 (hdr + 2) 0 (store8 (hdr + 1) 0 (store8 hdr ?t m))"
    using write_write_separate [of "hdr + 1" "[0]" "hdr + 2" "le_bytes 2 (0 :: u16)"] by (simp add: store8_def store16_def)
  then have w: "store8 (hdr + 1) 0 (store16 (hdr + 2) 0 (store8 hdr ?t m)) = write_bytes hdr [?t, 0, 0, 0] m"
    by (simp add: store8_def store16_def write_append_at le_bytes2)
  have "read_bytes (write_bytes hdr [?t, 0, 0, 0] m) (hdr + of_nat 4) ?n = read_bytes m (hdr + of_nat 4) ?n"
  proof (rule read_write_separate)
    have "length [?t, 0, 0, 0] = 4" by simp
    moreover have "separate hdr 4 (hdr + of_nat 4) ?n" using assms(1) by (intro separate_after) simp_all
    ultimately show "separate hdr (length [?t, 0, 0, 0]) (hdr + of_nat 4) ?n" by (simp only:)
  qed
  then have r: "read_bytes (write_bytes hdr [?t, 0, 0, 0] m) hdr (4 + ?n) = [?t, 0, 0, 0] @ P"
    using read_bytes_add [of "write_bytes hdr [?t, 0, 0, 0] m" hdr 4 ?n] assms(2) by (simp add: read_write_same)
  have u: "unat (ICMP_HDR_SIZE + payload_size b) = 4 + ?n" using assms(1) by (simp add: ICMP_HDR_SIZE_def unat_word_ariths)
  have v: "store16 (hdr + 2) c (write_bytes hdr [?t, 0, 0, 0] m) = write_bytes hdr ([?t, 0] @ le_bytes 2 c) m" for c
    using write_write_within [of 2 "le_bytes 2 c" "[?t, 0, 0, 0]" hdr m] by (simp add: store16_def)
  show ?thesis by (simp add: icmp_seal_def Let_def w ip_checksum_def u r v icmp_csum_def)
qed

text \<open>An ICMP message whose sum needs one fold verifies.\<close>

lemma icmp_csum_verifies:
  assumes "length P \<le> 65535"
  shows "ip_checksum_bytes ([icmp_type_code type, 0] @ le_bytes 2 (icmp_csum type P) @ P) 0 = 0 \<longleftrightarrow>
    fold16 (word_sum ([icmp_type_code type, 0] @ [0, 0] @ P)) < 65536"
proof (rule checksum_verifies)
  have "word_sum ([icmp_type_code type, 0] @ [0, 0] @ P) \<le> 65535 * ((length ([icmp_type_code type, 0] @ [0, 0] @ P) + 1) div 2)"
    by (rule word_sum_le)
  also have "\<dots> \<le> 65535 * 32770" using assms by simp
  finally show "word_sum ([icmp_type_code type, 0] @ [0, 0] @ P) + 65535 < 2 ^ 32" by simp
qed (simp_all add: icmp_csum_def)

lemma process_echo_request_sends:
  assumes "arp_resolve (ip_gateway ip) (- 1) (ip_arp ip) = Some d" "payload data \<noteq> NULL"
    and a: "alloc_result s (alloc_calls s) = a" "a \<noteq> NULL"
    and fit: "unat a + unat (link_headers_size s) + 24 + unat (payload_size data) < 2 ^ 64" "unat (payload_size data) + 24 < 65536"
    and sep: "separate (a + link_headers_size s + 20) (4 + unat (payload_size data)) (headers data hdr_ip) 20"
    and P: "P = read_bytes (mem s) (payload data) (unat (payload_size data))"
    and dst: "dest = bswap32 (load32 (mem s) (headers data hdr_ip + 12))" and len: "len = ucast (payload_size data + 24)"
  shows "sent (process_echo_request junk data ip s) = sent s @
    [\<lparr>frame_data = ip_header_bytes len ipproto_icmp (ip_csum len ipproto_icmp (ip_addr ip) dest) (ip_addr ip) dest @
        [icmp_type_code echo_reply, 0] @ le_bytes 2 (icmp_csum echo_reply P) @ P,
      frame_dest = d, frame_type = ETHERTYPE_IPV4\<rparr>]"
proof -
  let ?hs = "link_headers_size s" and ?n = "unat (payload_size data)"
  define h where "h = a + ?hs + 20"
  let ?T = "[icmp_type_code echo_reply, 0] @ le_bytes 2 (icmp_csum echo_reply P)"
  define m1 where "m1 = write_bytes (h + 4) P (mem s)"
  define b where "b = \<lparr>start = a, buffer_size = ?hs + 24 + payload_size data, headers = (\<lambda>_. NULL)(hdr_icmp := h), payload = h + 4,
      head = h, payload_size = payload_size data, free_func = NULL, free_func_ctx = free_func_ctx junk\<rparr>"
  have uh: "unat (?hs + 20) = unat ?hs + 20" "unat h = unat a + unat ?hs + 20" "unat (h + 4) = unat a + unat ?hs + 24"
    using fit(1) by (simp_all add: h_def unat_word_ariths)
  have lP: "length P = ?n" by (simp add: P)
  have new: "sockbuf_new junk (ipv4_headers_size s + ICMP_HDR_SIZE) (Some P) (payload_size data) s =
      (b\<lparr>headers := (\<lambda>_. NULL), head := h + 4\<rparr>, s\<lparr>alloc_calls := alloc_calls s + 1, mem := m1\<rparr>)"
    using lP by (simp add: sockbuf_new_alloc [OF a] b_def h_def m1_def ipv4_headers_size_def IP_HDR_SIZE_def ICMP_HDR_SIZE_def
      algebra_simps)
  have ok: "skb_ok b"
  proof -
    have "unat (?hs + 24 + payload_size data) = unat ?hs + 24 + ?n" using fit(1) by (simp add: unat_word_ariths)
    then show ?thesis using fit(1) a(2) uh by (simp add: skb_ok_def b_def word_le_nat_alt)
  qed
  have e: "h + 4 - a = ?hs + 24" by (simp add: h_def)
  have "unat (?hs + 24) = unat ?hs + 24" using fit(1) by (simp add: unat_word_ariths)
  then have nl: "\<not> h + 4 - a < 4" unfolding e by (simp add: word_less_nat_alt)
  have ah: "add_header ICMP_HDR_SIZE hdr_icmp (b\<lparr>headers := (\<lambda>_. NULL), head := h + 4\<rparr>) = (h, b)"
    using nl by (simp add: add_header_def Let_def ICMP_HDR_SIZE_def b_def fun_eq_iff)
  have "separate h 4 (h + of_nat 4) ?n" using fit(1) by (intro separate_after) simp_all
  then have "write_bytes h ?T m1 = write_bytes (h + 4) P (write_bytes h ?T (mem s))"
    unfolding m1_def by (intro write_write_separate) (simp add: lP)
  also have "\<dots> = write_bytes h (?T @ P) (mem s)" using fit(1) by (intro write_append_at) (simp_all add: lP)
  finally have m2: "write_bytes h ?T m1 = write_bytes h (?T @ P) (mem s)" .
  have "read_bytes m1 (h + 4) ?n = P" unfolding m1_def using fit(1) by (intro read_write_same) (simp_all add: lP)
  then have seal: "icmp_seal h echo_reply b m1 = write_bytes h (?T @ P) (mem s)"
    using icmp_seal_eq [of b P m1 h echo_reply] fit(1) m2 by (simp add: b_def)
  have ld: "load32 (write_bytes h (?T @ P) (mem s)) (headers data hdr_ip + 12) = load32 (mem s) (headers data hdr_ip + 12)"
  proof -
    have "length (?T @ P) = 4 + ?n" by (simp add: lP)
    then have "separate h (length (?T @ P)) (headers data hdr_ip) 20" using sep by (simp only: h_def)
    from read_write_separate_at [OF this, of 12 4] show ?thesis by (simp add: load32_def)
  qed
  have "unat (payload_size data + 4) = 4 + ?n" using fit(2) by (simp add: unat_word_ariths)
  then have sz: "sockbuf_size b = payload_size data + 4" "unat (sockbuf_size b) = 4 + ?n" "sockbuf_data b = h"
    using a(2) by (simp_all add: sockbuf_size_def sockbuf_data_def b_def add.commute)
  have room: "IP_HDR_SIZE \<le> head b - start b"
    using uh(1) by (simp add: b_def h_def IP_HDR_SIZE_def word_le_nat_alt)
  define s2 where "s2 = s\<lparr>alloc_calls := alloc_calls s + 1, mem := write_bytes h (?T @ P) (mem s)\<rparr>"
  have "process_echo_request junk data ip s = snd (snd (ipv4_write b dest ipproto_icmp (- 1) ip s2))"
    using assms(2) new ah ld
    by (simp add: process_echo_request_def Let_def case_prod_beta P [symmetric] seal s2_def dst)
      (simp add: b_def seal [unfolded b_def] ld dst)
  moreover have "read_bytes (write_bytes h (?T @ P) (mem s)) h (4 + ?n) = ?T @ P"
    using fit(1) by (intro read_write_same) (simp_all add: lP)
  ultimately show ?thesis
    using ipv4_write_frame [OF assms(1) ok _ room _ refl, of dest ipproto_icmp s2] fit(2) sz
    by (simp add: s2_def len b_def add.commute)
qed

lemma echo_data_ok_iff: "echo_data_ok i bs \<longleftrightarrow> (\<forall>k<length bs. unat (bs ! k) = i + k)"
proof (induction bs arbitrary: i)
  case (Cons b bs)
  show ?case unfolding echo_data_ok.simps Cons by (auto simp: All_less_Suc2)
qed simp

lemma ping_fill_eq: "n < 2 ^ 64 \<Longrightarrow> ping_fill n d m = write_bytes d (map of_nat [0..<n]) m"
proof (induction n)
  case (Suc n)
  then show ?case using write_append_at [of "of_nat n" "map of_nat [0..<n]" "[of_nat n]" d m] by (simp add: store8_def)
qed (simp add: write_bytes_def fun_eq_iff)

text \<open>
  A reply is given to the waiting ping exactly when one is pending and the payload is the one that ping sends: its id and the
  bytes 0 to 63.
\<close>

lemma process_echo_reply_iff:
  assumes "payload_size data = 66"
  shows "process_echo_reply data i s =
    (if ping_req_pending i \<and> read_bytes (mem s) (payload data) 66 = le_bytes 2 (ping_req_id i) @ map of_nat [0..<64]
     then map_option (\<lambda>(sm, s). (i\<lparr>ping_req_semaphore := sm\<rparr>, s)) (sem_give (ping_req_semaphore i) s)
     else Some (i, s))"
proof -
  let ?p = "payload data"
  have split: "read_bytes (mem s) ?p 66 = read_bytes (mem s) ?p 2 @ read_bytes (mem s) (?p + 2) 64"
    using read_bytes_add [of "mem s" ?p 2 64] by simp
  have m: "(0xFFFF :: u16) = - 1" by simp
  have "load16 (mem s) ?p AND 0xFFFF = load16 (mem s) ?p" unfolding m by (rule and.right_neutral)
  moreover have "load16 (mem s) ?p = x \<longleftrightarrow> read_bytes (mem s) ?p 2 = le_bytes 2 x" for x
    using le_bytes_le_word [where 'a = 16, of "read_bytes (mem s) ?p 2"] by (auto simp: load16_def le_word_le_bytes)
  moreover have "echo_data_ok 0 (read_bytes (mem s) (?p + 2) 64) \<longleftrightarrow> read_bytes (mem s) (?p + 2) 64 = map of_nat [0..<64]"
  proof -
    have "unat b = k \<longleftrightarrow> b = of_nat k" if "k < 64" for b :: u8 and k
      using that unat_of_nat [where 'a = 8, of k] by (auto simp: take_bit_nat_eq_self)
    then show ?thesis unfolding echo_data_ok_iff by (auto simp: list_eq_iff_nth_eq)
  qed
  moreover have "echo_data_ok 0 (map of_nat [0..<64])" unfolding echo_data_ok_iff by (simp add: unat_of_nat)
  ultimately show ?thesis
    unfolding split by (simp add: process_echo_reply_def Let_def assms ICMP_ECHO_HDR_SIZE_def ICMP_PAYLOAD_SIZE_def
      Option.bind_map_option map_conv_bind_option case_prod_unfold comp_def)
qed

subsection \<open>Properties\<close>


definition demo_echo_state :: net_state where
  "demo_echo_state = demo_net\<lparr>mem := write_bytes 0x5014 ([8, 0, 0, 0] @ replicate 16 1) (mem demo_net)\<rparr>"

definition demo_echo_skb :: sockbuf where
  "demo_echo_skb = \<lparr>start = 0x5000, buffer_size = 60, headers = (\<lambda>_. NULL)(hdr_ip := 0x5000), payload = 0x5014, head = 0x5014,
     payload_size = 20, free_func = 0, free_func_ctx = 0\<rparr>"


end
