(* ===== verification/Tcp.thy ===== *)
theory Tcp
  imports Icmp Msgq Mutex Hash_Map
begin

text \<open>
  The TCP layer: net/tcp.cpp and net/include/net/tcp.hpp, with the socket object of net/include/net/tcp_socket.hpp.

  The sockets are objects of a store from addresses to records. The hash map node of a socket is identified with the
  socket it belongs to (\<open>node_t::p_socket\<close> never changes); the nodes of the syn caches share the node memory.
  \<open>new_result n\<close> is the address the n-th \<open>new\<close> of an object returns; members that a constructor leaves
  uninitialised come from \<open>junk_skb\<close> and \<open>junk_sock\<close>. The hash functions of the C++ library are
  the parameters \<open>hash16\<close> and \<open>hash32\<close>. The fields of an incoming header are read before the header of the answer
  is written: the answer is built in a buffer of its own.
\<close>

subsection \<open>Data\<close>

record socket_id =
  host_port :: u16
  remote_port :: u16
  remote_ip :: u32

definition hash_func :: "(u16 \<Rightarrow> u64) \<Rightarrow> (u32 \<Rightarrow> u64) \<Rightarrow> socket_id \<Rightarrow> u64" where
  "hash_func hash16 hash32 k =
     (let ret = hash16 (host_port k);
          ret = ret XOR (hash16 (remote_port k) + 0x9e3779b9 + push_bit 6 ret + drop_bit 2 ret);
          ret = ret XOR (hash32 (remote_ip k) + 0x9e3779b9 + push_bit 6 ret + drop_bit 2 ret)
      in ret)"

datatype tcp_state =
    TCP_STATE_CLOSED | TCP_STATE_LISTEN | TCP_STATE_SYN_SENT | TCP_STATE_SYN_RECEIVED | TCP_STATE_ESTABLISHED
  | TCP_STATE_FIN_WAIT1 | TCP_STATE_FIN_WAIT2 | TCP_STATE_CLOSE_WAIT | TCP_STATE_CLOSING | TCP_STATE_LAST_ACK
  | TCP_STATE_TIME_WAIT

record syn_cache_entry =
  isn :: u32
  remote_isn :: u32

record tcp_socket =
  syn_cache :: "socket_id pooled_hash_map option"
  sk_port :: u32
  sk_state :: tcp_state
  listen_backlog :: "msgq option"
  sk_seq :: u32
  sk_ack :: u32
  recv_window_size :: u64
  recv_window_used :: u64
  recv_skb :: ptr
  recv_skb_payload_offset :: u64
  recv_waitq :: ptr
  recv_mutex :: mutex
  remote_window_size :: u64
  send_waitq :: ptr
  send_mutex :: mutex
  sock_remote_addr :: ipv4_t
  sock_remote_port :: u16

record tcp =
  listen_sockets :: "socket_id hash_map"
  connected_sockets :: "socket_id hash_map"

record tcp_world = net_state +
  ip_layer :: ipv4
  tcp_layer :: tcp
  nodes :: "(socket_id, syn_cache_entry) pool_mem"
  socks :: "ptr \<Rightarrow> tcp_socket"
  new_result :: "nat \<Rightarrow> ptr"
  new_calls :: nat
  skb_links :: link_heap
  skbs :: "ptr \<Rightarrow> sockbuf"
  junk_skb :: sockbuf
  junk_sock :: tcp_socket

definition TCP_LISTEN_TABLE_SIZE :: nat where "TCP_LISTEN_TABLE_SIZE = 257"
definition TCP_CONNECTED_TABLE_SIZE :: nat where "TCP_CONNECTED_TABLE_SIZE = 257"
definition TCP_HDR_SIZE :: u64 where "TCP_HDR_SIZE = 20"

definition TCP_FLAG_ACK :: u8 where "TCP_FLAG_ACK = 0x10"
definition TCP_FLAG_PSH :: u8 where "TCP_FLAG_PSH = 0x08"
definition TCP_FLAG_RST :: u8 where "TCP_FLAG_RST = 0x04"
definition TCP_FLAG_SYN :: u8 where "TCP_FLAG_SYN = 0x02"
definition TCP_FLAG_FIN :: u8 where "TCP_FLAG_FIN = 0x01"

subsection \<open>Headers\<close>

text \<open>The fields of a TCP header are written in the order of the structure, first with a checksum of 0.\<close>

definition put_tcp_header :: "ptr \<Rightarrow> u16 \<Rightarrow> u16 \<Rightarrow> u32 \<Rightarrow> u32 \<Rightarrow> u8 \<Rightarrow> u16 \<Rightarrow> memory \<Rightarrow> memory" where
  "put_tcp_header hdr source_port dest_port seq ack flags window_size m =
     (let m = store16 hdr source_port m;
          m = store16 (hdr + 2) dest_port m;
          m = store32 (hdr + 4) seq m;
          m = store32 (hdr + 8) ack m;
          m = store8 (hdr + 12) (push_bit 4 5) m;
          m = store8 (hdr + 13) flags m;
          m = store16 (hdr + 14) window_size m;
          m = store16 (hdr + 16) 0 m
      in store16 (hdr + 18) 0 m)"

definition tcp_header_size :: "sockbuf \<Rightarrow> memory \<Rightarrow> u64" where
  "tcp_header_size b m = ucast (drop_bit 4 (m (payload b + 12))) * 4"

definition pseudo_header_bytes :: "ipv4_t \<Rightarrow> u32 \<Rightarrow> u64 \<Rightarrow> u8 list" where
  "pseudo_header_bytes addr dest_net sz =
     le_bytes 4 (bswap32 addr) @ le_bytes 4 dest_net @ [0, ipproto_tcp] @ le_bytes 2 (bswap16 (ucast (sz + TCP_HDR_SIZE)))"

definition tcp_checksum :: "sockbuf \<Rightarrow> u32 \<Rightarrow> 'z tcp_world_scheme \<Rightarrow> u16" where
  "tcp_checksum b dest_address_network_order w =
     (let initial_csum = csum_words (pseudo_header_bytes (ip_addr (ip_layer w)) dest_address_network_order (payload_size b)) 0
      in ip_checksum (mem w) (headers b hdr_tcp) (TCP_HDR_SIZE + payload_size b) initial_csum)"

subsection \<open>The layer\<close>

definition tcp_new :: "(u16 \<Rightarrow> u64) \<Rightarrow> (u32 \<Rightarrow> u64) \<Rightarrow> ptr \<Rightarrow> ptr \<Rightarrow> 'z tcp_world_scheme \<Rightarrow> 'z tcp_world_scheme" where
  "tcp_new hash16 hash32 handler this w =
     w\<lparr>tcp_layer := \<lparr>listen_sockets = hash_map_new TCP_LISTEN_TABLE_SIZE (\<lambda>k. ucast (host_port k)),
          connected_sockets = hash_map_new TCP_CONNECTED_TABLE_SIZE (hash_func hash16 hash32)\<rparr>,
       ip_layer := snd (ipv4_subscribe_to_rx ipproto_tcp handler this (ip_layer w))\<rparr>"

definition tcp_headers_size :: "'z tcp_world_scheme \<Rightarrow> u64" where
  "tcp_headers_size w = ipv4_headers_size w + TCP_HDR_SIZE"

definition set_node_key :: "ptr \<Rightarrow> socket_id \<Rightarrow> 'z tcp_world_scheme \<Rightarrow> 'z tcp_world_scheme" where
  "set_node_key n k w = w\<lparr>nodes := (nodes w)\<lparr>key := (key (nodes w))(n := k)\<rparr>\<rparr>"

definition bind_socket :: "ptr \<Rightarrow> u16 \<Rightarrow> 'z tcp_world_scheme \<Rightarrow> (kerror_t \<times> 'z tcp_world_scheme) option" where
  "bind_socket sock port w = do {
     let id = \<lparr>host_port = port, remote_port = 0, remote_ip = 0\<rparr>;
     hm_node \<leftarrow> hm_find (listen_sockets (tcp_layer w)) id (nodes w);
     if hm_node \<noteq> NULL then Some (E_ADDRINUSE, w)
     else do {
       let w = set_node_key sock id w;
       (h, M) \<leftarrow> hm_insert (listen_sockets (tcp_layer w)) sock (nodes w);
       Some (E_OK, w\<lparr>tcp_layer := (tcp_layer w)\<lparr>listen_sockets := h\<rparr>, nodes := M\<rparr>)
     }
   }"

definition unbind_socket :: "ptr \<Rightarrow> 'z tcp_world_scheme \<Rightarrow> (kerror_t \<times> 'z tcp_world_scheme) option" where
  "unbind_socket sock w = do {
     (h, M) \<leftarrow> hm_remove (listen_sockets (tcp_layer w)) sock (nodes w);
     Some (E_OK, w\<lparr>tcp_layer := (tcp_layer w)\<lparr>listen_sockets := h\<rparr>, nodes := M\<rparr>)
   }"

definition add_connected_socket :: "ptr \<Rightarrow> socket_id \<Rightarrow> 'z tcp_world_scheme \<Rightarrow> (kerror_t \<times> 'z tcp_world_scheme) option" where
  "add_connected_socket sock sid w = do {
     hm_node \<leftarrow> hm_find (listen_sockets (tcp_layer w)) sid (nodes w);
     if hm_node \<noteq> NULL then Some (E_ADDRINUSE, w)
     else do {
       let w = set_node_key sock sid w;
       (h, M) \<leftarrow> hm_insert (connected_sockets (tcp_layer w)) sock (nodes w);
       Some (E_OK, w\<lparr>tcp_layer := (tcp_layer w)\<lparr>connected_sockets := h\<rparr>, nodes := M\<rparr>)
     }
   }"

definition remove_connected_socket :: "ptr \<Rightarrow> 'z tcp_world_scheme \<Rightarrow> (kerror_t \<times> 'z tcp_world_scheme) option" where
  "remove_connected_socket sock w = do {
     (h, M) \<leftarrow> hm_remove (connected_sockets (tcp_layer w)) sock (nodes w);
     Some (E_OK, w\<lparr>tcp_layer := (tcp_layer w)\<lparr>connected_sockets := h\<rparr>, nodes := M\<rparr>)
   }"

definition tcp_send :: "ipv4_t \<Rightarrow> sockbuf \<Rightarrow> 'z tcp_world_scheme \<Rightarrow> kerror_t \<times> 'z tcp_world_scheme" where
  "tcp_send remote_addr b w =
     (let csum = tcp_checksum b (bswap32 remote_addr) w;
          w = w\<lparr>mem := store16 (headers b hdr_tcp + 16) csum (mem w)\<rparr>;
          (e, _, w) = ipv4_write b remote_addr ipproto_tcp (- 1) (ip_layer w) w
      in (e, w))"

definition send_reply :: "sockbuf \<Rightarrow> u8 \<Rightarrow> 'z tcp_world_scheme \<Rightarrow> kerror_t \<times> 'z tcp_world_scheme" where
  "send_reply reply_to tcp_flags w =
     (let p_in = headers reply_to hdr_tcp;
          p_ip = headers reply_to hdr_ip;
          (reply, w) = sockbuf_new (junk_skb w) (ipv4_headers_size w + TCP_HDR_SIZE) None 0 w;
          (hdr, reply) = add_header TCP_HDR_SIZE hdr_tcp reply;
          m = mem w;
          m = put_tcp_header hdr (load16 m (p_in + 2)) (load16 m p_in)
            (if m (p_in + 13) AND TCP_FLAG_ACK \<noteq> 0 then load32 m (p_in + 8) else 0)
            (bswap32 (bswap32 (load32 m (p_in + 4)) + ucast (payload_size reply_to) + 1)) tcp_flags 0 m;
          w = w\<lparr>mem := m\<rparr>;
          csum = tcp_checksum reply (load32 (mem w) (p_ip + 12)) w;
          w = w\<lparr>mem := store16 (hdr + 16) csum (mem w)\<rparr>;
          (e, _, w) = ipv4_write reply (bswap32 (load32 (mem w) (p_ip + 12))) ipproto_tcp (- 1) (ip_layer w) w
      in (e, w))"

end
