(* ===== verification/Tcp_Socket.thy ===== *)
theory Tcp_Socket
  imports Tcp
begin

text \<open>
  TCP sockets: net/tcp_socket.cpp, and the demultiplexing of tcp.cpp that calls them.

  Operations that may block are cut where the calling thread goes to wait; the result then says where to continue.
  The receive list holds the addresses of the sockbuf objects a socket owns. \<open>None\<close> is an operation
  that does not return or uses a null object.
\<close>

subsection \<open>Sending\<close>

definition INVALID_PORT :: u32 where "INVALID_PORT = 0xFFFFFFFF"
definition TCP_MSS :: nat where "TCP_MSS = 1460"
definition TCP_INITIAL_WINDOW_SIZE :: u64 where "TCP_INITIAL_WINDOW_SIZE = 1460 * 20"
definition SYN_CACHE_TABLE_SIZE :: nat where "SYN_CACHE_TABLE_SIZE = 17"

definition upd_sock :: "ptr \<Rightarrow> (tcp_socket \<Rightarrow> tcp_socket) \<Rightarrow> 'z tcp_world_scheme \<Rightarrow> 'z tcp_world_scheme" where
  "upd_sock p f w = w\<lparr>socks := (socks w)(p := f (socks w p))\<rparr>"

definition tcp_socket_init :: "tcp_socket \<Rightarrow> tcp_socket" where
  "tcp_socket_init junk = junk\<lparr>syn_cache := None, sk_port := INVALID_PORT, sk_state := TCP_STATE_CLOSED,
     listen_backlog := None, sk_seq := 0, sk_ack := 0, recv_window_size := 0, recv_window_used := 0, recv_skb := NULL,
     recv_skb_payload_offset := 0, recv_waitq := waitq_new, recv_mutex := mutex_new, send_waitq := waitq_new,
     send_mutex := mutex_new\<rparr>"

definition tcp_socket_new :: "'z tcp_world_scheme \<Rightarrow> ptr \<times> 'z tcp_world_scheme" where
  "tcp_socket_new w =
     (let p = new_result w (new_calls w)
      in (p, w\<lparr>new_calls := new_calls w + 1, socks := (socks w)(p := tcp_socket_init (junk_sock w))\<rparr>))"

definition send_packet :: "ptr \<Rightarrow> u8 \<Rightarrow> 'z tcp_world_scheme \<Rightarrow> kerror_t \<times> 'z tcp_world_scheme" where
  "send_packet this flags w =
     (let (reply, w) = sockbuf_new (junk_skb w) (tcp_headers_size w) None 0 w;
          (hdr, reply) = add_header TCP_HDR_SIZE hdr_tcp reply;
          k = socks w this;
          w = w\<lparr>mem := put_tcp_header hdr (bswap16 (ucast (sk_port k))) (bswap16 (sock_remote_port k)) (bswap32 (sk_seq k))
            (bswap32 (sk_ack k)) flags (bswap16 (ucast (recv_window_size k - recv_window_used k))) (mem w)\<rparr>
      in tcp_send (sock_remote_addr k) reply w)"

definition send_syn_ack :: "sockbuf \<Rightarrow> u32 \<Rightarrow> 'z tcp_world_scheme \<Rightarrow> kerror_t \<times> 'z tcp_world_scheme" where
  "send_syn_ack reply_to n w =
     (let p_in = headers reply_to hdr_tcp;
          p_ip = headers reply_to hdr_ip;
          (reply, w) = sockbuf_new (junk_skb w) (tcp_headers_size w) None 0 w;
          (hdr, reply) = add_header TCP_HDR_SIZE hdr_tcp reply;
          m = mem w;
          w = w\<lparr>mem := put_tcp_header hdr (load16 m (p_in + 2)) (load16 m p_in) (bswap32 n)
            (bswap32 (bswap32 (load32 m (p_in + 4)) + ucast (payload_size reply_to) + 1)) (TCP_FLAG_SYN OR TCP_FLAG_ACK)
            (bswap16 (ucast TCP_INITIAL_WINDOW_SIZE)) m\<rparr>
      in tcp_send (bswap32 (load32 (mem w) (p_ip + 12))) reply w)"

datatype segment_result = Segment_sent kerror_t | Segment_waits

definition send_segment ::
  "clock \<Rightarrow> nat \<Rightarrow> ptr \<Rightarrow> ptr \<Rightarrow> sockbuf \<Rightarrow> bool \<Rightarrow> 'z tcp_world_scheme \<Rightarrow> (segment_result \<times> 'z tcp_world_scheme) option" where
  "send_segment clk t ctx this data is_last w =
     (if remote_window_size (socks w this) < payload_size data then do {
        (wq, w) \<leftarrow> wait_begin clk t (- 1) ctx (send_waitq (socks w this)) w;
        Some (Segment_waits, upd_sock this (\<lambda>k. k\<lparr>send_waitq := wq\<rparr>) w)
      } else do {
        let w = upd_sock this (\<lambda>k. k\<lparr>sk_seq := sk_seq k + ucast (payload_size data)\<rparr>) w;
        let w = upd_sock this (\<lambda>k. k\<lparr>remote_window_size := remote_window_size k - payload_size data\<rparr>) w;
        let (hdr, data) = add_header TCP_HDR_SIZE hdr_tcp data;
        let k = socks w this;
        let w = w\<lparr>mem := put_tcp_header hdr (bswap16 (ucast (sk_port k))) (bswap16 (sock_remote_port k))
          (bswap32 (sk_seq k - ucast (payload_size data))) (bswap32 (sk_ack k))
          (TCP_FLAG_ACK OR (if is_last then TCP_FLAG_PSH else 0))
          (bswap16 (ucast (recv_window_size k - recv_window_used k))) (mem w)\<rparr>;
        let (e, w) = tcp_send (sock_remote_addr k) data w;
        Some (Segment_sent e, w)
      })"

text \<open>The continuation of \<open>send_segment\<close> after its wait.\<close>

definition send_segment_resume ::
  "clock \<Rightarrow> nat \<Rightarrow> ptr \<Rightarrow> ptr \<Rightarrow> sockbuf \<Rightarrow> bool \<Rightarrow> 'z tcp_world_scheme \<Rightarrow> (segment_result \<times> 'z tcp_world_scheme) option" where
  "send_segment_resume clk t ctx this data is_last w =
     (if sk_state (socks w this) = TCP_STATE_CLOSED then Some (Segment_sent E_PIPE, w)
      else send_segment clk t ctx this data is_last w)"

datatype send_result = Send_done nat | Send_waits nat | Send_locked

text \<open>The loop of \<open>send\<close> with \<open>sent\<close> bytes sent, and the release of the mutex at its end.\<close>

definition send_finish :: "ptr \<Rightarrow> nat \<Rightarrow> 'z tcp_world_scheme \<Rightarrow> (send_result \<times> 'z tcp_world_scheme) option" where
  "send_finish this n w = do {
     (m, w) \<leftarrow> mutex_unlock (send_mutex (socks w this)) w;
     Some (Send_done n, upd_sock this (\<lambda>k. k\<lparr>send_mutex := m\<rparr>) w)
   }"

partial_function (option) send_loop ::
  "clock \<Rightarrow> nat \<Rightarrow> ptr \<Rightarrow> ptr \<Rightarrow> u8 list \<Rightarrow> nat \<Rightarrow> 'z tcp_world_scheme \<Rightarrow> (send_result \<times> 'z tcp_world_scheme) option" where
  "send_loop clk t ctx this data n w =
     (if n \<noteq> length data then do {
        let to_send = min (length data - n) TCP_MSS;
        let (b, w) = sockbuf_new (junk_skb w) (tcp_headers_size w) (Some (take to_send (drop n data))) (of_nat to_send) w;
        (r, w) \<leftarrow> send_segment clk t ctx this b (n + to_send = length data) w;
        case r of
          Segment_waits \<Rightarrow> Some (Send_waits n, w)
        | Segment_sent e \<Rightarrow>
            if e = E_PIPE then send_finish this 0 w
            else if e \<noteq> E_OK then send_finish this n w
            else send_loop clk t ctx this data (n + to_send) w
      } else send_finish this n w)"

definition tcp_socket_send ::
  "clock \<Rightarrow> nat \<Rightarrow> ptr \<Rightarrow> ptr \<Rightarrow> u8 list \<Rightarrow> 'z tcp_world_scheme \<Rightarrow> (send_result \<times> 'z tcp_world_scheme) option" where
  "tcp_socket_send clk t ctx this data w =
     (let (locked, m) = mutex_lock_try (send_mutex (socks w this)) w
      in if \<not> locked then Some (Send_locked, w)
         else send_loop clk t ctx this data 0 (upd_sock this (\<lambda>k. k\<lparr>send_mutex := m\<rparr>) w))"

subsection \<open>Receiving\<close>

datatype recv_result = Recv_done "u8 list" | Recv_waits "u8 list" | Recv_locked

text \<open>
  One turn of the loop of \<open>recv\<close> from the first buffer of the list: the bytes received so far, and whether the loop ends
  because of a push.
\<close>

definition recv_step ::
  "ptr \<Rightarrow> nat \<Rightarrow> u8 list \<Rightarrow> 'z tcp_world_scheme \<Rightarrow> (bool \<times> u8 list \<times> 'z tcp_world_scheme) option" where
  "recv_step this data_size received w =
     (if recv_skb (socks w this) = NULL then None
      else
        let k = socks w this;
            node = recv_skb k;
            b = skbs w node;
            to_copy = min (data_size - length received) (unat (payload_size b - recv_skb_payload_offset k));
            received = received @ read_bytes (mem w) (payload b + recv_skb_payload_offset k) to_copy;
            w = upd_sock this (\<lambda>k. k\<lparr>recv_skb_payload_offset := recv_skb_payload_offset k + of_nat to_copy\<rparr>) w;
            window_was_zero = (recv_window_used k = recv_window_size k);
            w = upd_sock this (\<lambda>k. k\<lparr>recv_window_used := recv_window_used k - of_nat to_copy\<rparr>) w;
            (push_received, w) =
              (if recv_skb_payload_offset (socks w this) = payload_size b then
                 let push_received = (mem w (headers b hdr_tcp + 13) AND (TCP_FLAG_PSH OR TCP_FLAG_FIN) \<noteq> 0);
                     (head, l) = intrusive_list_delete link_ops node node (skb_links w);
                     w = upd_sock this (\<lambda>k. k\<lparr>recv_skb := head, recv_skb_payload_offset := 0\<rparr>) (w\<lparr>skb_links := l\<rparr>)
                 in (push_received, sockbuf_delete b w)
               else (False, w));
            w = (if window_was_zero then snd (send_packet this TCP_FLAG_ACK w) else w)
        in Some (push_received, received, w))"

definition recv_finish :: "ptr \<Rightarrow> u8 list \<Rightarrow> 'z tcp_world_scheme \<Rightarrow> (recv_result \<times> 'z tcp_world_scheme) option" where
  "recv_finish this received w = do {
     (m, w) \<leftarrow> mutex_unlock (recv_mutex (socks w this)) w;
     Some (Recv_done received, upd_sock this (\<lambda>k. k\<lparr>recv_mutex := m\<rparr>) w)
   }"

partial_function (option) recv_loop ::
  "clock \<Rightarrow> nat \<Rightarrow> ptr \<Rightarrow> ptr \<Rightarrow> nat \<Rightarrow> u8 list \<Rightarrow> 'z tcp_world_scheme \<Rightarrow> (recv_result \<times> 'z tcp_world_scheme) option" where
  "recv_loop clk t ctx this data_size received w =
     (if length received \<noteq> data_size then
        if recv_skb (socks w this) = NULL then do {
          (wq, w) \<leftarrow> wait_begin clk t (- 1) ctx (recv_waitq (socks w this)) w;
          Some (Recv_waits received, upd_sock this (\<lambda>k. k\<lparr>recv_waitq := wq\<rparr>) w)
        } else do {
          (push_received, received, w) \<leftarrow> recv_step this data_size received w;
          if push_received then recv_finish this received w
          else recv_loop clk t ctx this data_size received w
        }
      else recv_finish this received w)"

text \<open>The continuation of \<open>recv\<close> after the wait for a buffer.\<close>

definition recv_resume ::
  "clock \<Rightarrow> nat \<Rightarrow> ptr \<Rightarrow> ptr \<Rightarrow> nat \<Rightarrow> u8 list \<Rightarrow> 'z tcp_world_scheme \<Rightarrow> (recv_result \<times> 'z tcp_world_scheme) option" where
  "recv_resume clk t ctx this data_size received w = do {
     (push_received, received, w) \<leftarrow> recv_step this data_size received w;
     if push_received then recv_finish this received w
     else recv_loop clk t ctx this data_size received w
   }"

definition tcp_socket_recv ::
  "clock \<Rightarrow> nat \<Rightarrow> ptr \<Rightarrow> ptr \<Rightarrow> nat \<Rightarrow> 'z tcp_world_scheme \<Rightarrow> (recv_result \<times> 'z tcp_world_scheme) option" where
  "tcp_socket_recv clk t ctx this data_size w =
     (let (locked, m) = mutex_lock_try (recv_mutex (socks w this)) w
      in if \<not> locked then Some (Recv_locked, w)
         else
           let w = upd_sock this (\<lambda>k. k\<lparr>recv_mutex := m\<rparr>) w;
               st = sk_state (socks w this)
           in if st \<noteq> TCP_STATE_ESTABLISHED \<and> st \<noteq> TCP_STATE_SYN_SENT \<and> st \<noteq> TCP_STATE_SYN_RECEIVED
              then Some (Recv_done [], w)
              else recv_loop clk t ctx this data_size [] w)"

subsection \<open>Connections\<close>

definition tcp_connect :: "ptr \<Rightarrow> ipv4_t \<Rightarrow> ipv4_t \<Rightarrow> kerror_t" where
  "tcp_connect this addr rport = E_NOIMPL"

definition tcp_bind :: "ptr \<Rightarrow> u16 \<Rightarrow> 'z tcp_world_scheme \<Rightarrow> (kerror_t \<times> 'z tcp_world_scheme) option" where
  "tcp_bind this p w = do {
     (ret, w) \<leftarrow> bind_socket this p w;
     let w = (if ret = E_OK then upd_sock this (\<lambda>k. k\<lparr>sk_port := ucast p\<rparr>) w else w);
     Some (ret, w)
   }"

definition tcp_listen :: "(socket_id \<Rightarrow> u64) \<Rightarrow> ptr \<Rightarrow> nat \<Rightarrow> 'z tcp_world_scheme \<Rightarrow> (kerror_t \<times> 'z tcp_world_scheme) option" where
  "tcp_listen hash this backlog_size w =
     (if sk_port (socks w this) = INVALID_PORT then Some (E_ADDRINUSE, w)
      else do {
        let w = upd_sock this (\<lambda>k. k\<lparr>listen_backlog := Some (msgq_new backlog_size 8)\<rparr>) w;
        let w = (case syn_cache (socks w this) of
            Some c \<Rightarrow> w\<lparr>nodes := pooled_hash_map_destroy c (nodes w)\<rparr>
          | None \<Rightarrow> w);
        let pool = new_result w (new_calls w);
        let w = w\<lparr>new_calls := new_calls w + 1\<rparr>;
        (c, M) \<leftarrow> pooled_hash_map_new backlog_size SYN_CACHE_TABLE_SIZE hash pool 32 8 (nodes w);
        Some (E_OK, upd_sock this (\<lambda>k. k\<lparr>syn_cache := Some c, sk_state := TCP_STATE_LISTEN\<rparr>) (w\<lparr>nodes := M\<rparr>))
      })"

text \<open>\<open>accept\<close> up to its wait; an accepted socket is the pointer in the message, and NULL stands for none.\<close>

datatype accept_result = Accept_done ptr | Accept_waits

definition tcp_accept ::
  "clock \<Rightarrow> nat \<Rightarrow> ptr \<Rightarrow> ptr \<Rightarrow> u64 \<Rightarrow> 'z tcp_world_scheme \<Rightarrow> (accept_result \<times> 'z tcp_world_scheme) option" where
  "tcp_accept clk t ctx this timeout_ms w =
     (case listen_backlog (socks w this) of
        None \<Rightarrow> Some (Accept_done NULL, w)
      | Some q \<Rightarrow>
        if sk_state (socks w this) \<noteq> TCP_STATE_LISTEN then Some (Accept_done NULL, w)
        else do {
          (r, q, w) \<leftarrow> msgq_read clk t timeout_ms ctx q w;
          let w = upd_sock this (\<lambda>k. k\<lparr>listen_backlog := Some q\<rparr>) w;
          Some (case r of Read_waits \<Rightarrow> Accept_waits | Read_done None \<Rightarrow> Accept_done NULL
                | Read_done (Some bs) \<Rightarrow> Accept_done (le_word bs), w)
        })"

definition tcp_accept_end :: "ptr \<Rightarrow> ptr \<Rightarrow> 'z tcp_world_scheme \<Rightarrow> (ptr \<times> 'z tcp_world_scheme) option" where
  "tcp_accept_end ctx this w = do {
     q \<leftarrow> listen_backlog (socks w this);
     (r, q) \<leftarrow> msgq_read_end ctx q w;
     Some (case r of None \<Rightarrow> NULL | Some bs \<Rightarrow> le_word bs, upd_sock this (\<lambda>k. k\<lparr>listen_backlog := Some q\<rparr>) w)
   }"

definition tcp_shutdown :: "ptr \<Rightarrow> bool \<Rightarrow> bool \<Rightarrow> kerror_t" where
  "tcp_shutdown this rd wr = E_OK"

definition tcp_socket_destroy :: "ptr \<Rightarrow> 'z tcp_world_scheme \<Rightarrow> 'z tcp_world_scheme option" where
  "tcp_socket_destroy this w = do {
     let _ = tcp_shutdown this True True;
     (_, w) \<leftarrow> unbind_socket this w;
     (_, w) \<leftarrow> remove_connected_socket this w;
     Some w
   }"

subsection \<open>Incoming segments\<close>

definition generate_isn :: "'z tcp_world_scheme \<Rightarrow> u32 \<times> 'z tcp_world_scheme" where
  "generate_isn w = (let (now, w) = arch_tsc w in (ucast (now mod 0xFFFFFFFF), w))"

definition segment_id :: "ptr \<Rightarrow> sockbuf \<Rightarrow> 'z tcp_world_scheme \<Rightarrow> socket_id" where
  "segment_id this data w = \<lparr>host_port = ucast (sk_port (socks w this)),
     remote_port = bswap16 (load16 (mem w) (headers data hdr_tcp)),
     remote_ip = bswap32 (load32 (mem w) (headers data hdr_ip + 12))\<rparr>"

text \<open>
  \<open>handle_segment\<close> accepts a segment in three parts: it counts the payload and sees a FIN, takes over the remote window, and
  queues the payload.
\<close>

definition segment_count :: "ptr \<Rightarrow> ptr \<Rightarrow> sockbuf \<Rightarrow> 'z tcp_world_scheme \<Rightarrow> bool \<times> 'z tcp_world_scheme" where
  "segment_count this p_in data w =
     (let w = upd_sock this (\<lambda>k. k\<lparr>recv_window_used := recv_window_used k + payload_size data,
            sk_ack := sk_ack k + ucast (payload_size data)\<rparr>) w;
          is_fin = (mem w (p_in + 13) AND TCP_FLAG_FIN \<noteq> 0);
          w = (if is_fin then upd_sock this (\<lambda>k. k\<lparr>sk_state := TCP_STATE_CLOSE_WAIT\<rparr>) w else w)
      in (is_fin, w))"

definition segment_window :: "ptr \<Rightarrow> ptr \<Rightarrow> 'z tcp_world_scheme \<Rightarrow> 'z tcp_world_scheme option" where
  "segment_window this p_in w =
     (let old_remote_window_size = remote_window_size (socks w this);
          window = (ucast (bswap16 (load16 (mem w) (p_in + 14))) :: u64);
          w = upd_sock this (\<lambda>k. k\<lparr>remote_window_size := window\<rparr>) w
      in if window > old_remote_window_size then do {
           (wq, w) \<leftarrow> notify_one (send_waitq (socks w this)) w;
           Some (upd_sock this (\<lambda>k. k\<lparr>send_waitq := wq\<rparr>) w)
         } else Some w)"

definition segment_queue ::
  "ptr \<Rightarrow> bool \<Rightarrow> sockbuf \<Rightarrow> 'z tcp_world_scheme \<Rightarrow> (sockbuf \<times> 'z tcp_world_scheme) option" where
  "segment_queue this is_fin data w =
     (if payload_size data > 0 \<or> is_fin then do {
        let sk_copy = new_result w (new_calls w);
        let (copy, data) = sockbuf_move data;
        let w = w\<lparr>new_calls := new_calls w + 1, skbs := (skbs w)(sk_copy := copy)\<rparr>;
        (_, l) \<leftarrow> intrusive_list_init link_ops sk_copy (skb_links w);
        (head, l) \<leftarrow> intrusive_list_push_back link_ops (recv_skb (socks w this)) sk_copy l;
        let w = upd_sock this (\<lambda>k. k\<lparr>recv_skb := head\<rparr>) (w\<lparr>skb_links := l\<rparr>);
        (wq, w) \<leftarrow> notify_one (recv_waitq (socks w this)) w;
        Some (data, upd_sock this (\<lambda>k. k\<lparr>recv_waitq := wq\<rparr>) w)
      } else Some (data, w))"

definition handle_segment ::
  "ptr \<Rightarrow> sockbuf \<Rightarrow> 'z tcp_world_scheme \<Rightarrow> (kerror_t \<times> sockbuf \<times> 'z tcp_world_scheme) option" where
  "handle_segment this data w =
     (let p_in = headers data hdr_tcp;
          k = socks w this
      in if bswap32 (load32 (mem w) (p_in + 4)) < sk_ack k then
           let (e, w) = send_packet this TCP_FLAG_ACK w in Some (e, data, w)
         else if recv_window_size k - recv_window_used k < payload_size data then
           let (e, w) = send_packet this TCP_FLAG_ACK w in Some (e, data, w)
         else do {
           let (is_fin, w) = segment_count this p_in data w;
           w \<leftarrow> segment_window this p_in w;
           (data, w) \<leftarrow> segment_queue this is_fin data w;
           if mem w (p_in + 13) AND TCP_FLAG_PSH \<noteq> 0 \<or> recv_window_size (socks w this) = 0 \<or> is_fin then
             let (e, w) = send_packet this TCP_FLAG_ACK w in Some (e, data, w)
           else Some (E_OK, data, w)
         })"

definition accept_connection ::
  "ptr \<Rightarrow> sockbuf \<Rightarrow> 'z tcp_world_scheme \<Rightarrow> (kerror_t \<times> sockbuf \<times> 'z tcp_world_scheme) option" where
  "accept_connection this data w = do {
     let p_ip = headers data hdr_ip;
     let p_in = headers data hdr_tcp;
     let sid = segment_id this data w;
     c \<leftarrow> syn_cache (socks w this);
     node \<leftarrow> hm_find (pm_map c) sid (nodes w);
     if node = NULL then Some (E_OK, data, snd (send_reply data (TCP_FLAG_ACK OR TCP_FLAG_RST) w))
     else do {
       let entry = entry_value (nodes w) node;
       if bswap32 (load32 (mem w) (p_in + 4)) \<noteq> remote_isn entry + 1 \<or> bswap32 (load32 (mem w) (p_in + 8)) \<noteq> isn entry + 1
       then let (e, w) = send_reply data (TCP_FLAG_ACK OR TCP_FLAG_RST) w in Some (e, data, w)
       else do {
         q \<leftarrow> listen_backlog (socks w this);
         if msgq_full q then Some (E_NOMEM, data, w)
         else do {
           let sq = isn entry + 1;
           (c, M) \<leftarrow> pooled_remove_node c node (nodes w);
           let w = upd_sock this (\<lambda>k. k\<lparr>syn_cache := Some c\<rparr>) (w\<lparr>nodes := M\<rparr>);
           let (new_conn, w) = tcp_socket_new w;
           let w = upd_sock new_conn (\<lambda>k. k\<lparr>sk_port := sk_port (socks w this), sk_state := TCP_STATE_ESTABLISHED\<rparr>) w;
           let w = set_node_key new_conn sid w;
           let w = upd_sock new_conn (\<lambda>k. k\<lparr>sock_remote_addr := bswap32 (load32 (mem w) (p_ip + 12)),
             sock_remote_port := bswap16 (load16 (mem w) p_in), sk_seq := sq, sk_ack := bswap32 (load32 (mem w) (p_in + 4)),
             recv_window_size := TCP_INITIAL_WINDOW_SIZE, recv_window_used := payload_size data\<rparr>) w;
           (_, w) \<leftarrow> add_connected_socket new_conn sid w;
           (data, w) \<leftarrow> (if payload_size data > 0 then map_option snd (handle_segment new_conn data w) else Some (data, w));
           q \<leftarrow> listen_backlog (socks w this);
           (ok, q, w) \<leftarrow> msgq_write (le_bytes 8 new_conn) q w;
           Some (if ok then E_OK else E_NOMEM, data, upd_sock this (\<lambda>k. k\<lparr>listen_backlog := Some q\<rparr>) w)
         }
       }
     }
   }"

definition handle_syn :: "ptr \<Rightarrow> sockbuf \<Rightarrow> 'z tcp_world_scheme \<Rightarrow> (kerror_t \<times> 'z tcp_world_scheme) option" where
  "handle_syn this data w = do {
     let p_in = headers data hdr_tcp;
     let sid = segment_id this data w;
     c \<leftarrow> syn_cache (socks w this);
     syn_entry \<leftarrow> hm_find (pm_map c) sid (nodes w);
     if syn_entry \<noteq> NULL then
       let entry = entry_value (nodes w) syn_entry
       in if bswap32 (load32 (mem w) (p_in + 4)) = remote_isn entry then Some (send_syn_ack data (isn entry) w)
          else Some (send_reply data (TCP_FLAG_ACK OR TCP_FLAG_RST) w)
     else do {
       let (n, w) = generate_isn w;
       (e, c, M) \<leftarrow> pooled_insert c sid \<lparr>isn = n, remote_isn = bswap32 (load32 (mem w) (p_in + 4))\<rparr> (nodes w);
       let w = upd_sock this (\<lambda>k. k\<lparr>syn_cache := Some c\<rparr>) (w\<lparr>nodes := M\<rparr>);
       if e = NULL then Some (E_NOMEM, w) else Some (send_syn_ack data n w)
     }
   }"

definition handle_listen_state :: "ptr \<Rightarrow> sockbuf \<Rightarrow> 'z tcp_world_scheme \<Rightarrow> (sockbuf \<times> 'z tcp_world_scheme) option" where
  "handle_listen_state this data w =
     (let flags = mem w (headers data hdr_tcp + 13)
      in if flags AND TCP_FLAG_SYN = TCP_FLAG_SYN then map_option (\<lambda>(_, w). (data, w)) (handle_syn this data w)
         else if flags AND TCP_FLAG_ACK = TCP_FLAG_ACK then map_option snd (accept_connection this data w)
         else Some (data, snd (send_reply data (TCP_FLAG_RST OR TCP_FLAG_ACK) w)))"

definition handle_established_state :: "ptr \<Rightarrow> sockbuf \<Rightarrow> 'z tcp_world_scheme \<Rightarrow> (sockbuf \<times> 'z tcp_world_scheme) option" where
  "handle_established_state this data w =
     (if mem w (headers data hdr_tcp + 13) AND TCP_FLAG_ACK \<noteq> 0 then map_option snd (handle_segment this data w)
      else Some (data, snd (send_packet this TCP_FLAG_RST w)))"

type_synonym 'w notify_env = "nat \<Rightarrow> ptr \<times> 'w \<Rightarrow> ptr \<times> 'w"

definition handle_close_wait_state ::
  "'z tcp_world_scheme notify_env \<Rightarrow> ptr \<Rightarrow> sockbuf \<Rightarrow> 'z tcp_world_scheme \<Rightarrow> (sockbuf \<times> 'z tcp_world_scheme) option" where
  "handle_close_wait_state env this data w =
     (if mem w (headers data hdr_tcp + 13) AND TCP_FLAG_RST \<noteq> 0 then do {
        let w = upd_sock this (\<lambda>k. k\<lparr>sk_state := TCP_STATE_CLOSED\<rparr>) w;
        (wq, w) \<leftarrow> notify_all env (send_waitq (socks w this)) w;
        Some (data, upd_sock this (\<lambda>k. k\<lparr>send_waitq := wq\<rparr>) w)
      } else map_option snd (handle_segment this data w))"

definition socket_process_packet ::
  "'z tcp_world_scheme notify_env \<Rightarrow> ptr \<Rightarrow> sockbuf \<Rightarrow> 'z tcp_world_scheme \<Rightarrow> (sockbuf \<times> 'z tcp_world_scheme) option" where
  "socket_process_packet env this data w =
     (case sk_state (socks w this) of
        TCP_STATE_LISTEN \<Rightarrow> handle_listen_state this data w
      | TCP_STATE_ESTABLISHED \<Rightarrow> handle_established_state this data w
      | TCP_STATE_CLOSE_WAIT \<Rightarrow> handle_close_wait_state env this data w
      | _ \<Rightarrow> Some (data, w))"

text \<open>The receive handler of the layer.\<close>

definition tcp_process_packet ::
  "'z tcp_world_scheme notify_env \<Rightarrow> sockbuf \<Rightarrow> 'z tcp_world_scheme \<Rightarrow> (sockbuf \<times> 'z tcp_world_scheme) option" where
  "tcp_process_packet env data w = do {
     let data = add_parsed_header (tcp_header_size data (mem w)) hdr_tcp data;
     let p_hdr = headers data hdr_tcp;
     let p_ip = headers data hdr_ip;
     let connected_id = \<lparr>host_port = bswap16 (load16 (mem w) (p_hdr + 2)), remote_port = bswap16 (load16 (mem w) p_hdr),
       remote_ip = bswap32 (load32 (mem w) (p_ip + 12))\<rparr>;
     connected_node \<leftarrow> hm_find (connected_sockets (tcp_layer w)) connected_id (nodes w);
     hm_node \<leftarrow> (if mem w (p_hdr + 13) AND TCP_FLAG_SYN \<noteq> 0 \<or> connected_node = NULL
       then hm_find (listen_sockets (tcp_layer w))
         \<lparr>host_port = bswap16 (load16 (mem w) (p_hdr + 2)), remote_port = 0, remote_ip = 0\<rparr> (nodes w)
       else Some connected_node);
     if hm_node = NULL then Some (data, snd (send_reply data (TCP_FLAG_RST OR TCP_FLAG_ACK) w))
     else socket_process_packet env hm_node data w
   }"

end
