(* ===== verification/Tcp_Facts.thy ===== *)
theory Tcp_Facts
  imports Tcp_Socket
begin

text \<open>
  Lemmas and properties of the TCP layer and its sockets: what a send puts on the wire, what a received segment does to the
  socket, the receive window and the tables of the layer.
\<close>

subsection \<open>What is sent\<close>

definition tcp_header_bytes :: "u16 \<Rightarrow> u16 \<Rightarrow> u32 \<Rightarrow> u32 \<Rightarrow> u8 \<Rightarrow> u16 \<Rightarrow> u16 \<Rightarrow> u8 list" where
  "tcp_header_bytes sp dp sq ak flags win csum = le_bytes 2 sp @ le_bytes 2 dp @ le_bytes 4 sq @ le_bytes 4 ak @
     [push_bit 4 5, flags] @ le_bytes 2 win @ le_bytes 2 csum @ [0, 0]"

lemma length_tcp_header_bytes [simp]: "length (tcp_header_bytes sp dp sq ak flags win csum) = 20"
  by (simp add: tcp_header_bytes_def)

lemma put_tcp_header_eq:
  "put_tcp_header hdr sp dp sq ak flags win m = write_bytes hdr (tcp_header_bytes sp dp sq ak flags win 0) m"
proof -
  have z: "[0, 0] = le_bytes 2 (0 :: u16)" by (simp add: le_bytes2)
  show ?thesis unfolding tcp_header_bytes_def z put_tcp_header_def Let_def store8_def store16_def store32_def
    by (simp add: write_append_at)
qed

lemma tcp_header_set_csum:
  "store16 (hdr + 16) c (write_bytes hdr (tcp_header_bytes sp dp sq ak flags win 0) m) =
    write_bytes hdr (tcp_header_bytes sp dp sq ak flags win c) m"
  using write_write_within [of 16 "le_bytes 2 c" "tcp_header_bytes sp dp sq ak flags win 0" hdr m]
  by (simp add: store16_def tcp_header_bytes_def)

lemma ipv4_write_result:
  assumes "arp_resolve (ip_gateway ip) t (ip_arp ip) = Some d"
  shows "\<exists>m b' fs. ipv4_write b dest proto t ip s = (link_result s (length (sent s)), b', s\<lparr>mem := m, sent := fs\<rparr>)"
proof -
  obtain hdr b' where "add_header IP_HDR_SIZE hdr_ip b = (hdr, b')" by (cases "add_header IP_HDR_SIZE hdr_ip b")
  from ipv4_write_state [OF assms this, of dest proto s] show ?thesis by (simp add: link_write_def Let_def) blast
qed

text \<open>A buffer that begins with its TCP header and has room for the IP header.\<close>

definition tcp_buffer :: "sockbuf \<Rightarrow> bool" where
  "tcp_buffer b \<longleftrightarrow> skb_ok b \<and> headers b hdr_ip = NULL \<and> headers b hdr_tcp = head b \<and> payload b = head b + 20 \<and>
     IP_HDR_SIZE \<le> head b - start b \<and> unat (payload_size b) + 40 < 65536"

lemma tcp_send_frame:
  assumes "arp_resolve (ip_gateway (ip_layer w)) (- 1) (ip_arp (ip_layer w)) = Some d" "tcp_buffer b"
    and "mem w = write_bytes (head b) (tcp_header_bytes sp dp sq ak flags win 0) m0"
    and "P = read_bytes m0 (payload b) (unat (payload_size b))"
  shows "\<exists>m f c. tcp_send addr b w = (link_result w (length (sent w)), w\<lparr>mem := m, sent := sent w @ [f]\<rparr>) \<and>
    drop 20 (frame_data f) = tcp_header_bytes sp dp sq ak flags win c @ P \<and> frame_dest f = d"
proof -
  let ?h = "head b" and ?n = "unat (payload_size b)"
  define c where "c = tcp_checksum b (bswap32 addr) w"
  let ?H = "tcp_header_bytes sp dp sq ak flags win c"
  define w2 where "w2 = w\<lparr>mem := write_bytes ?h ?H m0\<rparr>"
  have b: "skb_ok b" "headers b hdr_ip = NULL" "headers b hdr_tcp = ?h" "payload b = ?h + 20" "IP_HDR_SIZE \<le> head b - start b"
      "?n + 40 < 65536" using assms(2) by (auto simp: tcp_buffer_def)
  have r: "tcp_send addr b w = (let (e, _, w) = ipv4_write b addr ipproto_tcp (- 1) (ip_layer w) w2 in (e, w))"
    using b(3) assms(3) by (simp add: tcp_send_def Let_def c_def [symmetric] tcp_header_set_csum w2_def case_prod_beta)
  have st: "start b \<noteq> NULL" using b(1) by (simp add: skb_ok_def)
  have sz: "sockbuf_size b = 20 + payload_size b" "sockbuf_data b = ?h" using b(4) st by (simp_all add: sockbuf_size_def sockbuf_data_def)
  have un: "unat (sockbuf_size b) = 20 + ?n" using b(6) by (simp add: sz unat_word_ariths)
  have "read_bytes (mem w2) ?h (20 + ?n) = read_bytes (mem w2) ?h 20 @ read_bytes (mem w2) (?h + of_nat 20) ?n"
    by (rule read_bytes_add)
  moreover have "read_bytes (mem w2) ?h 20 = ?H" unfolding w2_def by (simp add: read_write_same)
  moreover have "read_bytes (mem w2) (?h + of_nat 20) ?n = P"
    using separate_after [of 20 ?n ?h] b(4,6) assms(4) unfolding w2_def by (simp add: read_write_separate)
  ultimately have rd: "read_bytes (mem w2) (sockbuf_data b) (unat (sockbuf_size b)) = ?H @ P"
    unfolding sz(2) un by simp
  have arp: "arp_resolve (ip_gateway (ip_layer w)) (- 1) (ip_arp (ip_layer w)) = Some d" by (fact assms(1))
  have lt: "unat (sockbuf_size b) + 20 < 65536" using un b(6) by simp
  obtain m b' fs where i: "ipv4_write b addr ipproto_tcp (- 1) (ip_layer w) w2 =
      (link_result w2 (length (sent w2)), b', w2\<lparr>mem := m, sent := fs\<rparr>)"
    using ipv4_write_result [OF arp, of b addr ipproto_tcp w2] by blast
  note f = ipv4_write_frame [OF arp b(1,2,5) lt refl, of addr ipproto_tcp w2, unfolded rd]
  let ?f = "\<lparr>frame_data = ip_header_bytes (ucast (sockbuf_size b + 20)) ipproto_tcp
        (ip_csum (ucast (sockbuf_size b + 20)) ipproto_tcp (ip_addr (ip_layer w)) addr) (ip_addr (ip_layer w)) addr @ ?H @ P,
      frame_dest = d, frame_type = ETHERTYPE_IPV4\<rparr>"
  have "fs = sent w @ [?f]" using f i by (simp add: w2_def)
  then have "tcp_send addr b w = (link_result w (length (sent w)), w\<lparr>mem := m, sent := sent w @ [?f]\<rparr>)"
    by (simp add: r i) (simp add: w2_def)
  moreover have "drop 20 (frame_data ?f) = ?H @ P \<and> frame_dest ?f = d" by simp
  ultimately show ?thesis by blast
qed

text \<open>
  \<open>carries sq fs data\<close>: the frames are TCP segments of at most a maximum segment each that carry the data as one stream of
  bytes whose first sequence number is \<open>sq\<close>.
\<close>

definition tcp_frame :: "link_frame \<Rightarrow> u32 \<Rightarrow> u8 list \<Rightarrow> bool" where
  "tcp_frame f sq P \<longleftrightarrow>
     (\<exists>sp dp ak fl win c. drop 20 (frame_data f) = tcp_header_bytes sp dp (bswap32 sq) ak fl win c @ P)"

fun carries :: "u32 \<Rightarrow> link_frame list \<Rightarrow> u8 list \<Rightarrow> bool" where
  "carries sq [] data \<longleftrightarrow> data = []"
| "carries sq (f # fs) data \<longleftrightarrow> (\<exists>P rest. data = P @ rest \<and> P \<noteq> [] \<and> length P \<le> TCP_MSS \<and> tcp_frame f sq P \<and>
     carries (sq + of_nat (length P)) fs rest)"

text \<open>The layers below can send: the gateway is known, the link accepts frames and the allocator has memory.\<close>

definition tcp_can_send :: "'z tcp_world_scheme \<Rightarrow> bool" where
  "tcp_can_send w \<longleftrightarrow> (\<exists>d. arp_resolve (ip_gateway (ip_layer w)) (- 1) (ip_arp (ip_layer w)) = Some d) \<and>
     (\<forall>n. link_result w n = E_OK) \<and>
     (\<forall>n. alloc_result w n \<noteq> NULL \<and> unat (alloc_result w n) + unat (link_headers_size w) + 1500 < 2 ^ 64)"

lemma new_segment_buffer:
  assumes "tcp_can_send w" "length P \<le> TCP_MSS" "a = alloc_result w (alloc_calls w)" "h = a + link_headers_size w + 20"
  shows "\<exists>b1 b. sockbuf_new (junk_skb w) (tcp_headers_size w) (Some P) (of_nat (length P)) w =
      (b1, w\<lparr>alloc_calls := alloc_calls w + 1, mem := write_bytes (h + 20) P (mem w)\<rparr>) \<and>
    payload_size b1 = of_nat (length P) \<and> add_header TCP_HDR_SIZE hdr_tcp b1 = (h, b) \<and> tcp_buffer b \<and> head b = h \<and>
    payload b = h + 20 \<and> payload_size b = of_nat (length P)"
proof -
  let ?hs = "link_headers_size w" and ?n = "of_nat (length P) :: u64"
  have a: "a \<noteq> NULL" "unat a + unat ?hs + 1500 < 2 ^ 64" using assms(1,3) by (auto simp: tcp_can_send_def)
  have n: "length P \<le> 1460" using assms(2) by (simp add: TCP_MSS_def)
  then have un: "unat ?n = length P" by (simp add: unat_of_nat64)
  define b1 where "b1 = \<lparr>start = a, buffer_size = tcp_headers_size w + ?n, headers = (\<lambda>_. NULL), payload = h + 20, head = h + 20,
      payload_size = ?n, free_func = NULL, free_func_ctx = free_func_ctx (junk_skb w)\<rparr>"
  define b where "b = b1\<lparr>head := h, headers := (\<lambda>_. NULL)(hdr_tcp := h)\<rparr>"
  have hs: "tcp_headers_size w = ?hs + 40"
    by (simp add: tcp_headers_size_def ipv4_headers_size_def IP_HDR_SIZE_def TCP_HDR_SIZE_def)
  have u: "unat h = unat a + unat ?hs + 20" "unat (h + 20) = unat a + unat ?hs + 40" "unat (?hs + 20) = unat ?hs + 20"
      "unat (?hs + 40) = unat ?hs + 40" "unat (?hs + 40 + ?n) = unat ?hs + 40 + length P"
    using a(2) n un assms(4) by (simp_all add: unat_word_ariths)
  have new: "sockbuf_new (junk_skb w) (tcp_headers_size w) (Some P) ?n w =
      (b1, w\<lparr>alloc_calls := alloc_calls w + 1, mem := write_bytes (h + 20) P (mem w)\<rparr>)"
    using assms(3,4) a(1) un by (simp add: sockbuf_new_alloc b1_def hs add.assoc)
  have e: "h + 20 - a = ?hs + 40" "h - a = ?hs + 20" using assms(4) by simp_all
  have "\<not> h + 20 - a < 20" unfolding e(1) using u(4) by (simp add: word_less_nat_alt)
  then have add: "add_header TCP_HDR_SIZE hdr_tcp b1 = (h, b)"
    by (simp add: add_header_def b1_def b_def TCP_HDR_SIZE_def Let_def)
  have "skb_ok b"
    using a u n un by (simp add: skb_ok_def b_def b1_def hs word_le_nat_alt)
  moreover have "IP_HDR_SIZE \<le> h - a" unfolding e(2) using u(3) by (simp add: IP_HDR_SIZE_def word_le_nat_alt)
  ultimately have "tcp_buffer b" using un n by (simp add: tcp_buffer_def b_def b1_def)
  then show ?thesis using new add by (intro exI [of _ b1] exI [of _ b]) (simp add: b_def b1_def)
qed

lemma send_segment_sends:
  assumes cs: "tcp_can_send w" and P: "length P \<le> TCP_MSS" and new: "sockbuf_new (junk_skb w) (tcp_headers_size w) (Some P) (of_nat (length P)) w = (b1, w1)"
    and win: "length P \<le> unat (remote_window_size (socks w this))" and k: "k = socks w this"
  shows "\<exists>m f. send_segment clk t ctx this b1 lst w1 = Some (Segment_sent E_OK,
      w\<lparr>alloc_calls := alloc_calls w + 1, socks := (socks w)(this := k\<lparr>sk_seq := sk_seq k + of_nat (length P),
        remote_window_size := remote_window_size k - of_nat (length P)\<rparr>), mem := m, sent := sent w @ [f]\<rparr>) \<and> tcp_frame f (sk_seq k) P"
proof -
  define h where "h = alloc_result w (alloc_calls w) + link_headers_size w + 20"
  obtain b where b: "w1 = w\<lparr>alloc_calls := alloc_calls w + 1, mem := write_bytes (h + 20) P (mem w)\<rparr>"
      "payload_size b1 = of_nat (length P)" "add_header TCP_HDR_SIZE hdr_tcp b1 = (h, b)" "tcp_buffer b" "head b = h"
      "payload b = h + 20" "payload_size b = of_nat (length P)"
    using new_segment_buffer [OF cs P refl h_def] new by auto
  obtain d where d: "arp_resolve (ip_gateway (ip_layer w)) (- 1) (ip_arp (ip_layer w)) = Some d"
    using cs by (auto simp: tcp_can_send_def)
  have u: "unat (of_nat (length P) :: u64) = length P" "ucast (of_nat (length P) :: u64) = (of_nat (length P) :: u32)"
    using P by (simp_all add: TCP_MSS_def unat_of_nat64 unsigned_of_nat word_of_nat_eq_iff take_bit_nat_eq_self)
  let ?k = "k\<lparr>sk_seq := sk_seq k + of_nat (length P), remote_window_size := remote_window_size k - of_nat (length P)\<rparr>"
  let ?fl = "TCP_FLAG_ACK OR (if lst then TCP_FLAG_PSH else 0)"
  let ?H = "tcp_header_bytes (bswap16 (ucast (sk_port k))) (bswap16 (sock_remote_port k)) (bswap32 (sk_seq k)) (bswap32 (sk_ack k)) ?fl
      (bswap16 (ucast (recv_window_size k - recv_window_used k)))"
  define w2 where "w2 = w\<lparr>alloc_calls := alloc_calls w + 1, socks := (socks w)(this := ?k),
      mem := write_bytes h (?H 0) (write_bytes (h + 20) P (mem w))\<rparr>"
  have nw: "\<not> remote_window_size k < of_nat (length P)" using win u k by (simp add: word_less_nat_alt)
  have seg: "send_segment clk t ctx this b1 lst w1 =
      (let (e, w) = tcp_send (sock_remote_addr k) b w2 in Some (Segment_sent e, w))"
    using nw k b(2,3) u(2) by (simp add: send_segment_def b(1) Let_def upd_sock_def put_tcp_header_eq w2_def b(7) case_prod_beta)
  have "P = read_bytes (write_bytes (h + 20) P (mem w)) (payload b) (unat (payload_size b))"
    using P by (simp add: b(6,7) u(1) read_write_same TCP_MSS_def)
  then obtain m f c where f: "tcp_send (sock_remote_addr k) b w2 = (link_result w2 (length (sent w2)), w2\<lparr>mem := m, sent := sent w2 @ [f]\<rparr>)"
      "drop 20 (frame_data f) = ?H c @ P"
  proof -
    have "arp_resolve (ip_gateway (ip_layer w2)) (- 1) (ip_arp (ip_layer w2)) = Some d" using d by (simp add: w2_def)
    moreover have "mem w2 = write_bytes (head b) (?H 0) (write_bytes (h + 20) P (mem w))" by (simp add: w2_def b(5))
    ultimately show ?thesis using tcp_send_frame [OF _ b(4)] that \<open>P = _\<close> by blast
  qed
  have "tcp_frame f (sk_seq k) P" using f(2) unfolding tcp_frame_def by blast
  moreover have "link_result w2 n = E_OK" for n using cs by (simp add: w2_def tcp_can_send_def)
  ultimately show ?thesis using f(1) by (simp add: seg) (auto simp: w2_def)
qed

lemma tcp_can_send_cong:
  "ip_layer w' = ip_layer w \<Longrightarrow> link_result w' = link_result w \<Longrightarrow> alloc_result w' = alloc_result w \<Longrightarrow>
    link_headers_size w' = link_headers_size w \<Longrightarrow> tcp_can_send w' = tcp_can_send w"
  by (simp add: tcp_can_send_def)

lemma send_loop_sends:
  assumes "tcp_can_send w" "n \<le> length data" "length data - n \<le> unat (remote_window_size (socks w this))" "k = socks w this"
  shows "\<exists>a m fs. send_loop clk t ctx this data n w = send_finish this (length data)
      (w\<lparr>alloc_calls := a, socks := (socks w)(this := k\<lparr>sk_seq := sk_seq k + of_nat (length data - n),
        remote_window_size := remote_window_size k - of_nat (length data - n)\<rparr>), mem := m, sent := sent w @ fs\<rparr>) \<and> carries (sk_seq k) fs (drop n data)"
  using assms
proof (induction "length data - n" arbitrary: n w k rule: less_induct)
  case less
  show ?case
  proof (cases "n = length data")
    case True
    then show ?thesis using less.prems(4)
      by (intro exI [of _ "alloc_calls w"] exI [of _ "mem w"] exI [of _ "[]"]) (simp add: send_loop.simps)
  next
    case False
    define P where "P = take TCP_MSS (drop n data)"
    let ?l = "min (length data - n) TCP_MSS"
    have l: "length P = ?l" "?l \<le> TCP_MSS" "0 < ?l" "n + ?l \<le> length data"
      using False less.prems(2) by (auto simp: P_def TCP_MSS_def)
    have lP: "length P \<le> TCP_MSS" using l by simp
    have tk: "take ?l (drop n data) = P" by (simp add: P_def min_def)
    obtain b1 w1 where new: "sockbuf_new (junk_skb w) (tcp_headers_size w) (Some P) (of_nat (length P)) w = (b1, w1)"
      by (meson surj_pair)
    have win: "length P \<le> unat (remote_window_size (socks w this))" using less.prems(3) l by simp
    obtain m f where s: "send_segment clk t ctx this b1 (n + ?l = length data) w1 = Some (Segment_sent E_OK,
        w\<lparr>alloc_calls := alloc_calls w + 1, socks := (socks w)(this := k\<lparr>sk_seq := sk_seq k + of_nat (length P),
        remote_window_size := remote_window_size k - of_nat (length P)\<rparr>), mem := m, sent := sent w @ [f]\<rparr>)" "tcp_frame f (sk_seq k) P"
      using send_segment_sends [OF less.prems(1) lP new win less.prems(4), of clk t ctx "n + ?l = length data"] by blast
    define w2 where "w2 = w\<lparr>alloc_calls := alloc_calls w + 1, socks := (socks w)(this := k\<lparr>sk_seq := sk_seq k + of_nat (length P),
        remote_window_size := remote_window_size k - of_nat (length P)\<rparr>), mem := m, sent := sent w @ [f]\<rparr>"
    have step: "send_loop clk t ctx this data n w = send_loop clk t ctx this data (n + ?l) w2"
      using False new s(1) by (subst send_loop.simps) (simp add: tk l(1) w2_def Let_def)
    have u: "unat (of_nat (length P) :: u64) = length P" using l(1,2) by (simp add: TCP_MSS_def unat_of_nat64)
    have "unat (remote_window_size k - of_nat (length P)) = unat (remote_window_size k) - length P"
      using win less.prems(4) u by (simp add: unat_sub_if')
    moreover have "length data - (n + length P) \<le> unat (remote_window_size (socks w this)) - length P"
      using less.prems(3) by linarith
    ultimately have "length data - (n + ?l) \<le> unat (remote_window_size (socks w2 this))"
      using less.prems(4) by (simp add: w2_def l(1) [symmetric])
    moreover have "tcp_can_send w2" using less.prems(1) tcp_can_send_cong [of w2 w] by (simp add: w2_def)
    moreover have "length data - (n + ?l) < length data - n" using l(3,4) by linarith
    ultimately obtain a m2 fs where IH: "send_loop clk t ctx this data (n + ?l) w2 = send_finish this (length data)
        (w2\<lparr>alloc_calls := a, socks := (socks w2)(this := (socks w2 this)\<lparr>
          sk_seq := sk_seq (socks w2 this) + of_nat (length data - (n + ?l)),
          remote_window_size := remote_window_size (socks w2 this) - of_nat (length data - (n + ?l))\<rparr>),
          mem := m2, sent := sent w2 @ fs\<rparr>)"
        "carries (sk_seq (socks w2 this)) fs (drop (n + ?l) data)"
      using less.hyps [of "n + ?l" w2, OF _ _ _ _ refl] l(4) by blast
    have sum: "length data - n = length P + (length data - (n + ?l))" using l(1,4) by linarith
    have d: "drop n data = P @ drop (n + ?l) data" using tk by (metis append_take_drop_id drop_drop add.commute)
    have "P \<noteq> []" using l(1,3) by auto
    moreover have "carries (sk_seq k + of_nat (length P)) fs (drop (n + ?l) data)" using IH(2) by (simp add: w2_def)
    ultimately have "carries (sk_seq k) (f # fs) (drop n data)"
      unfolding carries.simps using d s(2) lP by blast
    moreover have "send_loop clk t ctx this data n w = send_finish this (length data)
        (w\<lparr>alloc_calls := a, socks := (socks w)(this := k\<lparr>sk_seq := sk_seq k + of_nat (length data - n),
          remote_window_size := remote_window_size k - of_nat (length data - n)\<rparr>), mem := m2, sent := sent w @ (f # fs)\<rparr>)"
    proof -
      define r where "r = length data - (n + ?l)"
      have sum: "length data - n = length P + r" unfolding r_def by (rule sum)
      have s32: "sk_seq k + of_nat (length P) + of_nat r = sk_seq k + of_nat (length data - n)"
        unfolding sum by (simp only: of_nat_add add.assoc)
      have s64: "remote_window_size k - of_nat (length P) - of_nat r = remote_window_size k - of_nat (length data - n)"
        unfolding sum by (simp only: of_nat_add diff_diff_eq)
      show ?thesis unfolding step IH(1) by (rule arg_cong) (simp add: w2_def s32 s64 r_def [symmetric])
    qed
    ultimately show ?thesis by blast
  qed
qed

subsection \<open>What a received segment does\<close>

lemma notify_one_socks:
  assumes "notify_one wq w = Some (wq', w')"
  shows "socks w' = (socks w :: ptr \<Rightarrow> tcp_socket)"
proof (cases "wq = NULL")
  case False
  obtain h l where d: "intrusive_list_delete link_ops wq wq (item_links w) = (h, l)" by fastforce
  let ?w = "w\<lparr>item_links := l, wakeup_successful := (wakeup_successful w)(wq := True)\<rparr>"
  obtain e1 w1 e2 where s: "wake (item_thread w wq) ?w = Some (e1, w1)" "schedule w1 = Some (e2, w')"
    using assms False d by (auto simp: notify_one_def Let_def bind_eq_Some_conv)
  have "scheduler.more w' = scheduler.more ?w" using schedule_more [OF s(2)] wake_more [OF s(1)] by simp
  then have "socks w' = socks ?w" by (cases w'; cases w) simp
  then show ?thesis by simp
qed (use assms in \<open>simp add: notify_one_def\<close>)

lemma sockbuf_new_socks [simp]: "socks (snd (sockbuf_new j hs src n w)) = (socks w :: ptr \<Rightarrow> tcp_socket)"
  by (simp add: sockbuf_new_def otrix_alloc_def Let_def split: option.splits)

lemma ipv4_write_socks [simp]: "socks (snd (snd (ipv4_write b d p t ip w))) = (socks w :: ptr \<Rightarrow> tcp_socket)"
  by (simp add: ipv4_write_def link_write_def Let_def case_prod_beta split: option.splits)

lemma send_packet_socks [simp]: "socks (snd (send_packet this fl w)) = socks w"
  by (simp add: send_packet_def tcp_send_def Let_def case_prod_beta)

definition window_of :: "tcp_socket \<Rightarrow> u64 \<times> u64 \<times> u32" where
  "window_of k = (recv_window_size k, recv_window_used k, sk_ack k)"

lemma segment_window_keeps:
  "segment_window this p w = Some w' \<Longrightarrow> window_of (socks w' this) = window_of (socks w this)"
  by (auto simp: segment_window_def Let_def upd_sock_def window_of_def bind_eq_Some_conv split: if_splits
    dest!: notify_one_socks)

lemma segment_queue_keeps:
  assumes "segment_queue this fin data w = Some (data', w')"
  shows "window_of (socks w' this) = window_of (socks w this)"
proof (cases "payload_size data > 0 \<or> fin")
  case True
  then obtain h l wq w1 where n: "notify_one (recv_waitq (socks w this)) (upd_sock this (\<lambda>k. k\<lparr>recv_skb := h\<rparr>)
      (w\<lparr>new_calls := new_calls w + 1, skbs := (skbs w)(new_result w (new_calls w) := fst (sockbuf_move data)), skb_links := l\<rparr>)) =
      Some (wq, w1)" "w' = upd_sock this (\<lambda>k. k\<lparr>recv_waitq := wq\<rparr>) w1"
    using assms by (auto simp: segment_queue_def Let_def upd_sock_def sockbuf_move_def elim!: bind_pairE)
  then show ?thesis using notify_one_socks [OF n(1)] by (simp add: upd_sock_def window_of_def)
qed (use assms in \<open>simp add: segment_queue_def\<close>)

lemma handle_segment_window:
  assumes "handle_segment this data w = Some (e, data', w')" "k = socks w this"
  shows "window_of (socks w' this) = window_of k \<or>
    \<not> recv_window_size k - recv_window_used k < payload_size data \<and>
    window_of (socks w' this) = (recv_window_size k, recv_window_used k + payload_size data, sk_ack k + ucast (payload_size data))"
proof (cases "bswap32 (load32 (mem w) (headers data hdr_tcp + 4)) < sk_ack k \<or> recv_window_size k - recv_window_used k < payload_size data")
  case True
  then have "socks w' = socks w"
    using assms send_packet_socks [of this TCP_FLAG_ACK w]
    by (cases "send_packet this TCP_FLAG_ACK w") (auto simp: handle_segment_def Let_def split: if_splits)
  then show ?thesis using assms by simp
next
  case False
  obtain fin w1 where c: "segment_count this (headers data hdr_tcp) data w = (fin, w1)" by fastforce
  obtain w2 data2 w3 where s: "segment_window this (headers data hdr_tcp) w1 = Some w2"
      "segment_queue this fin data w2 = Some (data2, w3)" "socks w' = socks w3"
    using False assms c send_packet_socks [of this TCP_FLAG_ACK]
    by (auto simp: handle_segment_def Let_def bind_eq_Some_conv case_prod_beta split: if_splits)
  have "window_of (socks w1 this) = (recv_window_size k, recv_window_used k + payload_size data, sk_ack k + ucast (payload_size data))"
    using c assms(2) by (auto simp: segment_count_def Let_def upd_sock_def window_of_def split: if_splits)
  then show ?thesis using segment_window_keeps [OF s(1)] segment_queue_keeps [OF s(2)] s(3) False by auto
qed

subsection \<open>Properties\<close>


definition demo_sock :: tcp_socket where
  "demo_sock = \<lparr>syn_cache = None, sk_port = 80, sk_state = TCP_STATE_ESTABLISHED, listen_backlog = None, sk_seq = 1000, sk_ack = 500,
     recv_window_size = 1000, recv_window_used = 0, recv_skb = NULL, recv_skb_payload_offset = 0, recv_waitq = NULL,
     recv_mutex = mutex_new, remote_window_size = 2000, send_waitq = NULL, send_mutex = mutex_new, sock_remote_addr = 0x14000003,
     sock_remote_port = 1234\<rparr>"

definition demo_tcp :: tcp_world where
  "demo_tcp = net_state.extend (demo_net\<lparr>alloc_result := (\<lambda>_. 0x10000)\<rparr>)
     \<lparr>ip_layer = demo_ip, tcp_layer = \<lparr>listen_sockets = hash_map_new 257 (\<lambda>k. ucast (host_port k)),
        connected_sockets = hash_map_new 257 (\<lambda>k. ucast (host_port k))\<rparr>,
      nodes = \<lparr>links = \<lparr>lnext = (\<lambda>p. p), lprev = (\<lambda>p. p)\<rparr>, key = (\<lambda>_. \<lparr>host_port = 0, remote_port = 0, remote_ip = 0\<rparr>),
        entry_value = (\<lambda>_. \<lparr>isn = 0, remote_isn = 0\<rparr>)\<rparr>,
      socks = (\<lambda>_. demo_sock), new_result = (\<lambda>n. 0x7000 + of_nat n * 0x100), new_calls = 0,
      skb_links = \<lparr>lnext = (\<lambda>p. p), lprev = (\<lambda>p. p)\<rparr>, skbs = (\<lambda>_. demo_skb), junk_skb = demo_skb, junk_sock = demo_sock\<rparr>"

lemma demo_tcp_can_send: "tcp_can_send demo_tcp"
  by (simp add: tcp_can_send_def demo_tcp_def net_state.defs demo_net_def wait_state.defs demo_ip_def ipv4_new_def arp_resolve_def
    arp_get_mac_def)

lemma demo_tcp_socks [simp]: "socks demo_tcp p = demo_sock"
  by (simp add: demo_tcp_def net_state.defs)


text \<open>
  C20. The receive window holds: a segment is counted only when it fits, so the used part never exceeds the window, the window
  itself does not change, and the acknowledged sequence number moves exactly with the counted bytes.
\<close>

theorem tcp_window_bound:
  assumes "handle_segment this data w = Some (e, data', w')" "k = socks w this" "k' = socks w' this"
    and "recv_window_used k \<le> recv_window_size k"
  shows "recv_window_used k' \<le> recv_window_size k' \<and> recv_window_size k' = recv_window_size k \<and>
    (recv_window_used k' = recv_window_used k \<and> sk_ack k' = sk_ack k \<or>
     unat (recv_window_used k') = unat (recv_window_used k) + unat (payload_size data) \<and>
     sk_ack k' = sk_ack k + ucast (payload_size data))"
proof -
  have "unat (recv_window_used k + payload_size data) = unat (recv_window_used k) + unat (payload_size data) \<and>
      unat (recv_window_used k) + unat (payload_size data) \<le> unat (recv_window_size k)"
    if "\<not> recv_window_size k - recv_window_used k < payload_size data"
  proof -
    have "unat (payload_size data) \<le> unat (recv_window_size k) - unat (recv_window_used k)"
        "unat (recv_window_used k) \<le> unat (recv_window_size k)"
      using that assms(4) by (auto simp: word_less_nat_alt word_le_nat_alt unat_sub_if')
    moreover have "unat (recv_window_size k) < 2 ^ 64" by (rule unat_less64)
    ultimately show ?thesis by (simp add: unat_word_ariths)
  qed
  then show ?thesis
    using handle_segment_window [OF assms(1,2)] assms(3,4) by (auto simp: window_of_def word_le_nat_alt)
qed


text \<open>An accepted segment with payload becomes the first of the receive list: the list is a stack.\<close>

definition plain_segment :: "ptr \<Rightarrow> sockbuf \<Rightarrow> 'z tcp_world_scheme \<Rightarrow> bool" where
  "plain_segment this b w \<longleftrightarrow> 0 < payload_size b \<and>
     \<not> bswap32 (load32 (mem w) (headers b hdr_tcp + 4)) < sk_ack (socks w this) \<and>
     \<not> recv_window_size (socks w this) - recv_window_used (socks w this) < payload_size b \<and>
     mem w (headers b hdr_tcp + 13) AND TCP_FLAG_FIN = 0 \<and> mem w (headers b hdr_tcp + 13) AND TCP_FLAG_PSH = 0"

definition quiet_socket :: "ptr \<Rightarrow> 'z tcp_world_scheme \<Rightarrow> bool" where
  "quiet_socket this w \<longleftrightarrow> recv_waitq (socks w this) = NULL \<and> send_waitq (socks w this) = NULL \<and>
     recv_window_size (socks w this) \<noteq> 0"

lemma handle_segment_queues:
  assumes b: "plain_segment this b w" and q: "quiet_socket this w" and k: "k = socks w this"
    and p: "p = new_result w (new_calls w)" "p \<noteq> NULL" "p \<notin> set xs" and r: "ring (skb_links w) (recv_skb k) xs"
  shows "\<exists>l. handle_segment this b w = Some (E_OK, snd (sockbuf_move b),
      w\<lparr>new_calls := new_calls w + 1, skbs := (skbs w)(p := b), skb_links := l,
        socks := (socks w)(this := k\<lparr>recv_window_used := recv_window_used k + payload_size b,
          sk_ack := sk_ack k + ucast (payload_size b),
          remote_window_size := ucast (bswap16 (load16 (mem w) (headers b hdr_tcp + 14))), recv_skb := p\<rparr>)\<rparr>) \<and> ring l p (p # xs)"
proof -
  let ?h = "headers b hdr_tcp"
  let ?k1 = "k\<lparr>recv_window_used := recv_window_used k + payload_size b, sk_ack := sk_ack k + ucast (payload_size b)\<rparr>"
  let ?k2 = "?k1\<lparr>remote_window_size := ucast (bswap16 (load16 (mem w) (?h + 14)))\<rparr>"
  have same: "send_waitq s = NULL \<Longrightarrow> s\<lparr>send_waitq := NULL\<rparr> = s" "recv_waitq s = NULL \<Longrightarrow> s\<lparr>recv_waitq := NULL\<rparr> = s" for s :: tcp_socket
    by simp_all
  have nq: "notify_one NULL v = Some (NULL, v)" for v :: "'z tcp_world_scheme" by (simp add: notify_one_def)
  have w1: "segment_count this ?h b w = (False, w\<lparr>socks := (socks w)(this := ?k1)\<rparr>)"
    using b k by (simp add: segment_count_def upd_sock_def plain_segment_def Let_def)
  have w2: "segment_window this ?h (w\<lparr>socks := (socks w)(this := ?k1)\<rparr>) = Some (w\<lparr>socks := (socks w)(this := ?k2)\<rparr>)"
    using q k by (simp add: segment_window_def upd_sock_def quiet_socket_def Let_def nq same)
  obtain l1 where l1: "intrusive_list_init link_ops p (skb_links w) = Some (p, l1)"
    using p(2) by (simp add: intrusive_list_init_def)
  have "ring l1 (recv_skb k) xs"
    using lh.init_frame [OF l1 unobserved_ring [of "{p}" xs "recv_skb k"]] r p(3) by simp
  then obtain l where l: "intrusive_list_push_back link_ops (recv_skb k) p l1 = Some (p, l)" "ring l p (p # xs)"
    using lh.push_back_as_head [of l1 "recv_skb k" xs p] p(2,3) by blast
  have w3: "segment_queue this False b (w\<lparr>socks := (socks w)(this := ?k2)\<rparr>) = Some (snd (sockbuf_move b),
      w\<lparr>new_calls := new_calls w + 1, skbs := (skbs w)(p := b), skb_links := l, socks := (socks w)(this := ?k2\<lparr>recv_skb := p\<rparr>)\<rparr>)"
    using b q k p(1) l1 l(1)
    by (simp add: segment_queue_def plain_segment_def quiet_socket_def sockbuf_move_def Let_def upd_sock_def nq same)
  show ?thesis
    using b q k l(2) w1 w2 w3
    by (intro exI [of _ l]) (simp add: handle_segment_def Let_def plain_segment_def quiet_socket_def)
qed

lemma recv_step_whole:
  assumes r: "ring (skb_links w) (recv_skb k) (p # xs)" and k: "k = socks w this" and b: "b = skbs w p"
    and o: "recv_skb_payload_offset k = 0" "recv_window_used k \<noteq> recv_window_size k"
    and n: "length received + unat (payload_size b) \<le> n"
  shows "\<exists>l. recv_step this n received w = Some (mem w (headers b hdr_tcp + 13) AND (TCP_FLAG_PSH OR TCP_FLAG_FIN) \<noteq> 0,
      received @ read_bytes (mem w) (payload b) (unat (payload_size b)),
      sockbuf_delete b (w\<lparr>skb_links := l, socks := (socks w)(this := k\<lparr>recv_window_used := recv_window_used k - payload_size b,
        recv_skb := (if xs = [] then NULL else hd xs), recv_skb_payload_offset := 0\<rparr>)\<rparr>)) \<and>
    ring l (if xs = [] then NULL else hd xs) xs"
proof -
  have p: "recv_skb k = p" "p \<noteq> NULL" using dlist_hd [OF r] by auto
  obtain h l where d: "intrusive_list_delete link_ops p p (skb_links w) = (h, l)" by fastforce
  have rl: "ring l h xs" using lh.delete_correct [OF r [unfolded p(1)] _ d] by simp
  then have h: "h = (if xs = [] then NULL else hd xs)" by (rule dlist_head)
  have m: "min (n - length received) (unat (payload_size b)) = unat (payload_size b)" using n by simp
  show ?thesis
    using rl unfolding h [symmetric]
    by (intro exI [of _ l]) (use p k b o m d in \<open>simp add: recv_step_def Let_def upd_sock_def\<close>)
qed

lemma sockbuf_delete_world [simp]:
  fixes w :: "'z tcp_world_scheme"
  shows "socks (sockbuf_delete b w) = socks w" "skb_links (sockbuf_delete b w) = skb_links w" "skbs (sockbuf_delete b w) = skbs w"
    "mem (sockbuf_delete b w) = mem w" "current_thread (sockbuf_delete b w) = current_thread w"
  by (simp_all add: sockbuf_delete_def)

definition payload_bytes :: "sockbuf \<Rightarrow> 'z tcp_world_scheme \<Rightarrow> u8 list" where
  "payload_bytes b w = read_bytes (mem w) (payload b) (unat (payload_size b))"

lemma length_payload_bytes [simp]: "length (payload_bytes b w) = unat (payload_size b)"
  by (simp add: payload_bytes_def)

text \<open>Two queued buffers without a push, the receive lock free: the read returns the payload of the first in the list first.\<close>

lemma recv_two:
  assumes k: "k = socks w this" and r: "ring (skb_links w) (recv_skb k) [p, q]"
    and b: "a = skbs w p" "b = skbs w q" and o: "recv_skb_payload_offset k = 0"
    and u: "recv_window_used k = payload_size a + payload_size b" "recv_window_used k \<noteq> recv_window_size k"
      "payload_size b \<noteq> recv_window_size k"
    and sz: "0 < payload_size a" "0 < payload_size b"
    and fl: "mem w (headers a hdr_tcp + 13) AND (TCP_FLAG_PSH OR TCP_FLAG_FIN) = 0"
      "mem w (headers b hdr_tcp + 13) AND (TCP_FLAG_PSH OR TCP_FLAG_FIN) = 0"
    and lock: "recv_mutex k = mutex_new" "current_thread w \<noteq> NULL" and st: "sk_state k = TCP_STATE_ESTABLISHED"
    and n: "n = unat (payload_size a) + unat (payload_size b)"
  shows "\<exists>w'. tcp_socket_recv clk t ctx this n w = Some (Recv_done (payload_bytes a w @ payload_bytes b w), w')"
proof -
  define w0 where "w0 = upd_sock this (\<lambda>k. k\<lparr>recv_mutex := mutex_new\<lparr>owner := current_thread w\<rparr>\<rparr>) w"
  have m: "mutex_lock_try (recv_mutex (socks w this)) w = (True, mutex_new\<lparr>owner := current_thread w\<rparr>)"
    using lock k by (simp add: mutex_lock_try_def mutex_new_def)
  have r0: "tcp_socket_recv clk t ctx this n w = recv_loop clk t ctx this n [] w0"
    using st k by (simp add: tcp_socket_recv_def m w0_def upd_sock_def Let_def)
  have w0: "socks w0 this = k\<lparr>recv_mutex := mutex_new\<lparr>owner := current_thread w\<rparr>\<rparr>" "skb_links w0 = skb_links w" "skbs w0 = skbs w"
    "mem w0 = mem w" "current_thread w0 = current_thread w"
    using k by (simp_all add: w0_def upd_sock_def)
  have nz: "recv_skb k \<noteq> NULL" "0 < n" using dlist_hd [OF r] n sz by (auto simp: word_less_nat_alt)
  obtain l1 where s1: "recv_step this n [] w0 = Some (False, payload_bytes a w,
      sockbuf_delete a (w0\<lparr>skb_links := l1, socks := (socks w0)(this := (socks w0 this)\<lparr>recv_window_used := recv_window_used k - payload_size a,
        recv_skb := q, recv_skb_payload_offset := 0\<rparr>)\<rparr>))" and l1: "ring l1 q [q]"
    using recv_step_whole [of w0 "socks w0 this" p "[q]" this a "[]" n] r b o u(2) n fl(1) by (auto simp: w0 payload_bytes_def)
  define w1 where "w1 = sockbuf_delete a (w0\<lparr>skb_links := l1, socks := (socks w0)(this := (socks w0 this)\<lparr>recv_window_used := recv_window_used k - payload_size a,
        recv_skb := q, recv_skb_payload_offset := 0\<rparr>)\<rparr>)"
  have qz: "q \<noteq> NULL" using dlist_hd [OF l1] by simp
  obtain l2 where s2: "recv_step this n (payload_bytes a w) w1 = Some (False, payload_bytes a w @ payload_bytes b w,
      sockbuf_delete b (w1\<lparr>skb_links := l2, socks := (socks w1)(this := (socks w1 this)\<lparr>recv_window_used := 0,
        recv_skb := NULL, recv_skb_payload_offset := 0\<rparr>)\<rparr>))"
    using recv_step_whole [of w1 "socks w1 this" q "[]" this b "payload_bytes a w" n] l1 b(2) u(1,3) n fl(2)
    by (auto simp: w1_def w0 payload_bytes_def)
  define w2 where "w2 = sockbuf_delete b (w1\<lparr>skb_links := l2, socks := (socks w1)(this := (socks w1 this)\<lparr>recv_window_used := 0,
        recv_skb := NULL, recv_skb_payload_offset := 0\<rparr>)\<rparr>)"
  have f: "\<exists>w'. recv_finish this (payload_bytes a w @ payload_bytes b w) w2 = Some (Recv_done (payload_bytes a w @ payload_bytes b w), w')"
    using lock(2)
    by (simp add: recv_finish_def mutex_unlock_def w2_def w1_def w0 mutex_new_def waitq_empty_def waitq_new_def)
  have ne: "unat (payload_size a) \<noteq> n" "unat (payload_size a) + unat (payload_size b) = n" "n \<noteq> 0"
    using n sz by (auto simp: word_less_nat_alt)
  have "recv_loop clk t ctx this n (payload_bytes a w @ payload_bytes b w) w2 = recv_finish this (payload_bytes a w @ payload_bytes b w) w2"
    by (subst recv_loop.simps) (simp add: ne)
  moreover have "recv_loop clk t ctx this n (payload_bytes a w) w1 = recv_loop clk t ctx this n (payload_bytes a w @ payload_bytes b w) w2"
    by (subst recv_loop.simps) (simp add: ne s2 w2_def [symmetric], simp add: w1_def qz)
  moreover have "recv_loop clk t ctx this n [] w0 = recv_loop clk t ctx this n (payload_bytes a w) w1"
    using nz(1) ne(3) by (subst recv_loop.simps) (simp add: s1 [folded w1_def] w0)
  ultimately show ?thesis using f r0 by simp
qed

text \<open>
  C39. Received data comes back in the wrong order: when two segments of a connection, each with payload and without PSH or FIN,
  are accepted one after the other and the application then reads both, it gets the bytes of the second segment before the bytes
  of the first, because the list of received buffers is filled at its head.
\<close>

theorem tcp_recv_newest_first:
  assumes k: "k = socks w this" "quiet_socket this w" "recv_skb k = NULL" "recv_skb_payload_offset k = 0" "recv_window_used k = 0"
      "sk_state k = TCP_STATE_ESTABLISHED" "recv_mutex k = mutex_new" "current_thread w \<noteq> NULL"
    and a: "plain_segment this a w" "headers a hdr_tcp = h" "bswap32 (load32 (mem w) (h + 4)) = sk_ack k"
    and b: "plain_segment this b w" "headers b hdr_tcp = g" "\<not> bswap32 (load32 (mem w) (g + 4)) < sk_ack k + ucast (payload_size a)"
    and sz: "unat (payload_size a) + unat (payload_size b) < unat (recv_window_size k)"
    and p: "new_result w (new_calls w) \<noteq> NULL" "new_result w (new_calls w + 1) \<noteq> NULL"
      "new_result w (new_calls w) \<noteq> new_result w (new_calls w + 1)"
  shows "\<exists>a' b' w1 w2 w3. handle_segment this a w = Some (E_OK, a', w1) \<and> handle_segment this b w1 = Some (E_OK, b', w2) \<and>
    tcp_socket_recv clk t ctx this (unat (payload_size a) + unat (payload_size b)) w2 =
      Some (Recv_done (payload_bytes b w @ payload_bytes a w), w3)"
proof -
  let ?p = "new_result w (new_calls w)" and ?q = "new_result w (new_calls w + 1)"
  obtain l1 where h1: "handle_segment this a w = Some (E_OK, snd (sockbuf_move a),
      w\<lparr>new_calls := new_calls w + 1, skbs := (skbs w)(?p := a), skb_links := l1,
        socks := (socks w)(this := k\<lparr>recv_window_used := payload_size a, sk_ack := sk_ack k + ucast (payload_size a),
          remote_window_size := ucast (bswap16 (load16 (mem w) (headers a hdr_tcp + 14))), recv_skb := ?p\<rparr>)\<rparr>)"
    and l1: "ring l1 ?p [?p]"
    using handle_segment_queues [OF a(1) k(2,1) refl p(1), of "[]"] k(3,5) by auto
  define w1 where "w1 = w\<lparr>new_calls := new_calls w + 1, skbs := (skbs w)(?p := a), skb_links := l1,
        socks := (socks w)(this := k\<lparr>recv_window_used := payload_size a, sk_ack := sk_ack k + ucast (payload_size a),
          remote_window_size := ucast (bswap16 (load16 (mem w) (headers a hdr_tcp + 14))), recv_skb := ?p\<rparr>)\<rparr>"
  have fits: "\<not> recv_window_size k - payload_size a < payload_size b" "payload_size a + payload_size b \<noteq> recv_window_size k"
    "payload_size a \<noteq> recv_window_size k"
  proof -
    have "unat (payload_size a + payload_size b) = unat (payload_size a) + unat (payload_size b)"
      using sz unat_less64 [of "recv_window_size k"] by (simp add: unat_word_ariths)
    then show "payload_size a + payload_size b \<noteq> recv_window_size k" using sz by auto
  qed (use sz in \<open>auto simp: word_less_nat_alt unat_sub_if'\<close>)
  have b1: "plain_segment this b w1" using b fits(1) k(1) by (simp add: plain_segment_def w1_def)
  have q1: "quiet_socket this w1" using k(1,2) by (simp add: quiet_socket_def w1_def)
  obtain l2 where h2: "handle_segment this b w1 = Some (E_OK, snd (sockbuf_move b),
      w1\<lparr>new_calls := new_calls w1 + 1, skbs := (skbs w1)(?q := b), skb_links := l2,
        socks := (socks w1)(this := (socks w1 this)\<lparr>recv_window_used := payload_size a + payload_size b,
          sk_ack := sk_ack (socks w1 this) + ucast (payload_size b),
          remote_window_size := ucast (bswap16 (load16 (mem w1) (headers b hdr_tcp + 14))), recv_skb := ?q\<rparr>)\<rparr>)"
    and l2: "ring l2 ?q [?q, ?p]"
    using handle_segment_queues [OF b1 q1 refl refl, of "[?p]"] p l1 by (auto simp: w1_def)
  define w2 where "w2 = w1\<lparr>new_calls := new_calls w1 + 1, skbs := (skbs w1)(?q := b), skb_links := l2,
        socks := (socks w1)(this := (socks w1 this)\<lparr>recv_window_used := payload_size a + payload_size b,
          sk_ack := sk_ack (socks w1 this) + ucast (payload_size b),
          remote_window_size := ucast (bswap16 (load16 (mem w1) (headers b hdr_tcp + 14))), recv_skb := ?q\<rparr>)\<rparr>"
  have pb: "payload_bytes c w2 = payload_bytes c w" for c by (simp add: payload_bytes_def w2_def w1_def)
  have nf: "x AND (TCP_FLAG_PSH OR TCP_FLAG_FIN) = 0" if "x AND TCP_FLAG_FIN = 0" "x AND TCP_FLAG_PSH = 0" for x
    using that by (simp add: bit.conj_disj_distrib)
  have "\<exists>w3. tcp_socket_recv clk t ctx this (unat (payload_size a) + unat (payload_size b)) w2 =
      Some (Recv_done (payload_bytes b w2 @ payload_bytes a w2), w3)"
    using k p fits l2 a(1) b(1) nf
    by (intro recv_two [OF refl, where p = ?q and q = ?p]) (auto simp: w2_def w1_def plain_segment_def)
  then show ?thesis using h1 h2 unfolding w1_def [symmetric] w2_def [symmetric] pb by blast
qed

definition demo_rx :: tcp_world where
  "demo_rx = demo_tcp\<lparr>mem := (\<lambda>_. 0)(0x5014 := 0x41, 0x6007 := 1, 0x6014 := 0x42), socks := (\<lambda>_. demo_sock\<lparr>sk_ack := 0\<rparr>)\<rparr>"

definition demo_seg :: "u64 \<Rightarrow> sockbuf" where
  "demo_seg h = demo_skb\<lparr>headers := (\<lambda>_. h), payload := h + 20, payload_size := 1\<rparr>"

lemma demo_rx_segments: "plain_segment 0x900 (demo_seg 0x5000) demo_rx" "plain_segment 0x900 (demo_seg 0x6000) demo_rx"
  "quiet_socket 0x900 demo_rx"
  by (simp_all add: plain_segment_def quiet_socket_def demo_rx_def demo_seg_def demo_sock_def load32_def read_bytes_def)

lemma demo_rx_simps [simp]: "socks demo_rx p = demo_sock\<lparr>sk_ack := 0\<rparr>" "current_thread demo_rx \<noteq> NULL" "new_calls demo_rx = 0"
  "new_result demo_rx n = 0x7000 + of_nat n * 0x100"
  by (simp_all add: demo_rx_def demo_tcp_def net_state.defs demo_net_def wait_state.defs demo_wait_def scheduler.defs demo_sched_def)

theorem tcp_recv_newest_first_witness:
  "\<exists>a' b' w1 w2 w3. handle_segment 0x900 (demo_seg 0x5000) demo_rx = Some (E_OK, a', w1) \<and>
    handle_segment 0x900 (demo_seg 0x6000) w1 = Some (E_OK, b', w2) \<and>
    tcp_socket_recv (\<lambda>_. undefined) 0 0x100 0x900 2 w2 = Some (Recv_done [0x42, 0x41], w3)"
proof -
  have "bswap32 (load32 (mem demo_rx) (0x5000 + 4)) = 0" "bswap32 (load32 (mem demo_rx) (0x6000 + 4)) = 1"
    by (simp_all add: demo_rx_def load32_def, code_simp+)
  moreover have "payload_bytes (demo_seg 0x6000) demo_rx = [0x42]" "payload_bytes (demo_seg 0x5000) demo_rx = [0x41]"
    by (simp_all add: payload_bytes_def demo_seg_def demo_rx_def read_bytes_def)
  ultimately show ?thesis
    using tcp_recv_newest_first [OF refl demo_rx_segments(3) _ _ _ _ _ _ demo_rx_segments(1) refl _ demo_rx_segments(2) refl,
      of "\<lambda>_. undefined" 0 "0x100"]
    by (simp add: demo_sock_def demo_seg_def flip: numeral_2_eq_2)
qed

theorem tcp_window_bound_witness:
  "\<exists>e data' w'. handle_segment 0x900 (demo_seg 0x5000) demo_rx = Some (e, data', w') \<and>
    recv_window_used (socks w' 0x900) \<le> recv_window_size (socks w' 0x900) \<and> recv_window_size (socks w' 0x900) = 1000 \<and>
    (recv_window_used (socks w' 0x900) = 0 \<and> sk_ack (socks w' 0x900) = 0 \<or>
     unat (recv_window_used (socks w' 0x900)) = 1 \<and> sk_ack (socks w' 0x900) = 1)"
proof -
  obtain data' w' where h: "handle_segment 0x900 (demo_seg 0x5000) demo_rx = Some (E_OK, data', w')"
    using handle_segment_queues [OF demo_rx_segments(1,3) refl refl, of "[]"] by (auto simp: demo_sock_def)
  show ?thesis using tcp_window_bound [OF h refl refl] h by (auto simp: demo_sock_def demo_seg_def)
qed

lemma tcp_bind_inserts:
  assumes L: "hm_rep (listen_sockets (tcp_layer w)) (nodes w) S" and n: "this \<notin> S" "this \<noteq> NULL"
    and lid: "lid = \<lparr>host_port = port, remote_port = 0, remote_ip = 0\<rparr>" and free: "lid \<notin> key (nodes w) ` S"
  shows "\<exists>h l. tcp_bind this port w = Some (E_OK, w\<lparr>nodes := (nodes w)\<lparr>key := (key (nodes w))(this := lid), links := l\<rparr>,
      tcp_layer := (tcp_layer w)\<lparr>listen_sockets := h\<rparr>, socks := (socks w)(this := (socks w this)\<lparr>sk_port := ucast port\<rparr>)\<rparr>) \<and>
    hm_rep h ((nodes w)\<lparr>key := (key (nodes w))(this := lid), links := l\<rparr>) (insert this S)"
proof -
  define M where "M = (nodes w)\<lparr>key := (key (nodes w))(this := lid)\<rparr>"
  have M: "hm_rep (listen_sockets (tcp_layer w)) M S" unfolding M_def by (rule hm_rep_key_update [OF L n(1)])
  have "key M this \<notin> key M ` S" using n(1) free by (auto simp: M_def)
  then obtain h l where i: "hm_insert (listen_sockets (tcp_layer w)) this M = Some (h, M\<lparr>links := l\<rparr>)"
      "hm_rep h (M\<lparr>links := l\<rparr>) (insert this S)"
    using hm_insert_rep [OF M n] by blast
  have "tcp_bind this port w = Some (E_OK, w\<lparr>nodes := M\<lparr>links := l\<rparr>, tcp_layer := (tcp_layer w)\<lparr>listen_sockets := h\<rparr>,
      socks := (socks w)(this := (socks w this)\<lparr>sk_port := ucast port\<rparr>)\<rparr>)"
    using hm_find_out [OF L free] i(1)
    by (simp add: bind_socket_def tcp_bind_def lid [symmetric] set_node_key_def M_def upd_sock_def)
  then show ?thesis using i(2) unfolding M_def by auto
qed

text \<open>
  C30. A port has one listener: binding a free port succeeds and enters the socket into the table of listening sockets under the
  port, and while it is bound every other bind of that port fails with E_ADDRINUSE and changes nothing.
\<close>

theorem tcp_bind_exclusive:
  assumes L: "hm_rep (listen_sockets (tcp_layer w)) (nodes w) S" and n: "this \<notin> S" "this \<noteq> NULL"
    and lid: "lid = \<lparr>host_port = port, remote_port = 0, remote_ip = 0\<rparr>" and free: "lid \<notin> key (nodes w) ` S"
  shows "\<exists>w'. tcp_bind this port w = Some (E_OK, w') \<and> sk_port (socks w' this) = ucast port \<and>
    hm_rep (listen_sockets (tcp_layer w')) (nodes w') (insert this S) \<and> key (nodes w') this = lid \<and>
    (\<forall>other. tcp_bind other port w' = Some (E_ADDRINUSE, w'))"
proof -
  obtain h l where b: "tcp_bind this port w = Some (E_OK, w\<lparr>nodes := (nodes w)\<lparr>key := (key (nodes w))(this := lid), links := l\<rparr>,
        tcp_layer := (tcp_layer w)\<lparr>listen_sockets := h\<rparr>, socks := (socks w)(this := (socks w this)\<lparr>sk_port := ucast port\<rparr>)\<rparr>)"
      (is "_ = Some (_, ?w)")
    and r: "hm_rep h ((nodes w)\<lparr>key := (key (nodes w))(this := lid), links := l\<rparr>) (insert this S)"
    using tcp_bind_inserts [OF assms] by blast
  have "tcp_bind other port ?w = Some (E_ADDRINUSE, ?w)" for other
    using hm_find_in [OF r, of this] n(2) by (simp add: bind_socket_def tcp_bind_def lid [symmetric])
  then show ?thesis using b r by auto
qed

lemma demo_tcp_tables: "hm_rep (listen_sockets (tcp_layer demo_tcp)) M {}" "hm_rep (connected_sockets (tcp_layer demo_tcp)) M {}"
  by (simp_all add: demo_tcp_def net_state.defs hm_rep_new)

theorem tcp_bind_exclusive_witness:
  "\<exists>w'. tcp_bind 0x900 80 demo_tcp = Some (E_OK, w') \<and> key (nodes w') 0x900 = \<lparr>host_port = 80, remote_port = 0, remote_ip = 0\<rparr> \<and>
    tcp_bind 0xa00 80 w' = Some (E_ADDRINUSE, w')"
  using tcp_bind_exclusive [OF demo_tcp_tables(1), of "0x900" _ 80] by auto


text \<open>A read on a socket that is not connected returns with the receive lock held: the next read of any thread waits.\<close>

lemma tcp_recv_closed_keeps_lock:
  assumes "sk_state (socks w this) = TCP_STATE_CLOSED" "owner (recv_mutex (socks w this)) = NULL" "current_thread w \<noteq> NULL"
  shows "\<exists>w'. tcp_socket_recv clk t ctx this n w = Some (Recv_done [], w') \<and>
    tcp_socket_recv clk' t' ctx' this n' w' = Some (Recv_locked, w')"
  using assms by (auto simp: tcp_socket_recv_def mutex_lock_try_def upd_sock_def)

end
