(* ===== verification/Machine.thy ===== *)
theory Machine
  imports Otrix_Prelude
begin

text \<open>
  The instructions of arch/x86_64/include/arch/asm.h: port input and output, model specific registers and the flags register.

  What the hardware answers is a parameter of the state: the value of an input depends on everything done before it. \<open>hw_log\<close>
  has the inputs and outputs of the past, the newest first.
\<close>

datatype hw_event = Io_in nat u16 u32 | Io_out nat u16 u32 | Msr_in u32 u64 | Msr_out u32 u64

record hw =
  hw_log :: "hw_event list"
  port_value :: "hw_event list \<Rightarrow> nat \<Rightarrow> u16 \<Rightarrow> u32"
  msr_value :: "hw_event list \<Rightarrow> u32 \<Rightarrow> u64"
  rflags :: u64

definition io_in :: "nat \<Rightarrow> u16 \<Rightarrow> 'z hw_scheme \<Rightarrow> u32 \<times> 'z hw_scheme" where
  "io_in width address h =
     (let v = take_bit (8 * width) (port_value h (hw_log h) width address)
      in (v, h\<lparr>hw_log := Io_in width address v # hw_log h\<rparr>))"

definition io_out :: "nat \<Rightarrow> u16 \<Rightarrow> u32 \<Rightarrow> 'z hw_scheme \<Rightarrow> 'z hw_scheme" where
  "io_out width address data h = h\<lparr>hw_log := Io_out width address data # hw_log h\<rparr>"

definition arch_io_read8 :: "u16 \<Rightarrow> 'z hw_scheme \<Rightarrow> u8 \<times> 'z hw_scheme" where
  "arch_io_read8 address h = (let (v, h) = io_in 1 address h in (ucast v, h))"

definition arch_io_write8 :: "u16 \<Rightarrow> u8 \<Rightarrow> 'z hw_scheme \<Rightarrow> 'z hw_scheme" where
  "arch_io_write8 address data h = io_out 1 address (ucast data) h"

definition arch_io_read16 :: "u16 \<Rightarrow> 'z hw_scheme \<Rightarrow> u16 \<times> 'z hw_scheme" where
  "arch_io_read16 address h = (let (v, h) = io_in 2 address h in (ucast v, h))"

definition arch_io_write16 :: "u16 \<Rightarrow> u16 \<Rightarrow> 'z hw_scheme \<Rightarrow> 'z hw_scheme" where
  "arch_io_write16 address data h = io_out 2 address (ucast data) h"

definition arch_io_read32 :: "u16 \<Rightarrow> 'z hw_scheme \<Rightarrow> u32 \<times> 'z hw_scheme" where
  "arch_io_read32 address h = io_in 4 address h"

definition arch_io_write32 :: "u16 \<Rightarrow> u32 \<Rightarrow> 'z hw_scheme \<Rightarrow> 'z hw_scheme" where
  "arch_io_write32 address data h = io_out 4 address data h"

definition arch_io_wait :: "'z hw_scheme \<Rightarrow> 'z hw_scheme" where
  "arch_io_wait h = arch_io_write8 0x80 0 h"

definition RFLAGS_IF :: u64 where "RFLAGS_IF = 0x200"

definition arch_disable_interrupts :: "'z hw_scheme \<Rightarrow> 'z hw_scheme" where
  "arch_disable_interrupts h = h\<lparr>rflags := rflags h AND NOT RFLAGS_IF\<rparr>"

definition arch_enable_interrupts :: "'z hw_scheme \<Rightarrow> 'z hw_scheme" where
  "arch_enable_interrupts h = h\<lparr>rflags := rflags h OR RFLAGS_IF\<rparr>"

definition arch_irq_save :: "'z hw_scheme \<Rightarrow> u64 \<times> 'z hw_scheme" where
  "arch_irq_save h = (let flags = rflags h; h = arch_disable_interrupts h in (flags, h))"

definition arch_irq_restore :: "u64 \<Rightarrow> 'z hw_scheme \<Rightarrow> 'z hw_scheme" where
  "arch_irq_restore flags h = h\<lparr>rflags := flags\<rparr>"

text \<open>rdmsr and wrmsr use the register pair edx:eax.\<close>

definition arch_read_msr :: "u32 \<Rightarrow> 'z hw_scheme \<Rightarrow> u64 \<times> 'z hw_scheme" where
  "arch_read_msr msr h =
     (let v = msr_value h (hw_log h) msr;
          lo = (ucast v :: u32);
          hi = (ucast (drop_bit 32 v) :: u32)
      in (push_bit 32 (ucast hi) OR ucast lo, h\<lparr>hw_log := Msr_in msr v # hw_log h\<rparr>))"

definition arch_write_msr :: "u32 \<Rightarrow> u64 \<Rightarrow> 'z hw_scheme \<Rightarrow> 'z hw_scheme" where
  "arch_write_msr msr val h =
     (let lo = (ucast (val AND 0xFFFFFFFF) :: u32);
          hi = (ucast (drop_bit 32 val) :: u32)
      in h\<lparr>hw_log := Msr_out msr (push_bit 32 (ucast hi) OR ucast lo) # hw_log h\<rparr>)"

text \<open>The bytes written to a port, the oldest first.\<close>

fun outputs :: "u16 \<Rightarrow> hw_event list \<Rightarrow> u8 list" where
  "outputs p [] = []"
| "outputs p (Io_out w q v # L) = outputs p L @ (if q = p then [ucast v] else [])"
| "outputs p (_ # L) = outputs p L"

subsection \<open>Facts\<close>

lemma ucast_8_32 [simp]: "ucast (ucast (b :: u8) :: u32) = b"
  by (rule bit_eqI) (auto simp: bit_ucast_iff)

lemma ucast_16_32 [simp]: "ucast (ucast (b :: u16) :: u32) = b"
  by (rule bit_eqI) (auto simp: bit_ucast_iff)

lemma edx_eax [simp]: "push_bit 32 (ucast (ucast (drop_bit 32 (v :: u64)) :: u32)) OR ucast (ucast v :: u32) = (v :: u64)"
proof (rule bit_eqI)
  fix n assume "possible_bit TYPE(u64) n"
  then show "bit (push_bit 32 (ucast (ucast (drop_bit 32 v) :: u32)) OR ucast (ucast v :: u32) :: u64) n \<longleftrightarrow> bit v n"
    by (auto simp: bit_or_iff bit_push_bit_iff bit_ucast_iff bit_drop_bit_eq)
qed

lemma arch_read_msr_value [simp]: "fst (arch_read_msr msr h) = msr_value h (hw_log h) msr"
  by (simp add: arch_read_msr_def Let_def)

lemma ucast_mask32: "(ucast (v AND 0xFFFFFFFF) :: u32) = ucast (v :: u64)"
proof (rule bit_eqI)
  have m: "(0xFFFFFFFF :: u64) = mask 32" by (simp add: mask_eq_exp_minus_1)
  fix n assume "possible_bit TYPE(u32) n"
  then show "bit (ucast (v AND 0xFFFFFFFF) :: u32) n \<longleftrightarrow> bit (ucast v :: u32) n"
    by (auto simp: m bit_ucast_iff bit_and_iff bit_mask_iff)
qed

lemma arch_write_msr_value: "arch_write_msr msr v h = h\<lparr>hw_log := Msr_out msr v # hw_log h\<rparr>"
  by (simp add: arch_write_msr_def ucast_mask32)

text \<open>A section between \<open>arch_irq_save\<close> and \<open>arch_irq_restore\<close> runs with interrupts off and leaves the flags as they were.\<close>

lemma irq_section:
  assumes "arch_irq_save h = (flags, h1)"
  shows "rflags h1 AND RFLAGS_IF = 0" "rflags (arch_irq_restore flags h2) = rflags h"
  using assms by (auto simp: arch_irq_save_def arch_disable_interrupts_def arch_irq_restore_def RFLAGS_IF_def and.assoc)

end
