(* ===== verification/Serial.thy ===== *)
theory Serial
  imports Machine
begin

text \<open>
  The serial port and the console on it: dev/serial.c, dev/include/dev/serial.h and dev/immediate_console.cpp.

  The waiting loops are partial functions: \<open>None\<close> is a loop that polls for ever. What \<open>vsnprintf\<close> makes of a format and its
  arguments is a parameter: the formatted text, or an error.
\<close>

subsection \<open>The device\<close>

definition SERIAL_DATA :: u32 where "SERIAL_DATA = 0"
definition SERIAL_INTEN :: u32 where "SERIAL_INTEN = 1"
definition SERIAL_IIR_FCR :: u32 where "SERIAL_IIR_FCR = 2"
definition SERIAL_LINE_CTL :: u32 where "SERIAL_LINE_CTL = 3"
definition SERIAL_MODEM_CTL :: u32 where "SERIAL_MODEM_CTL = 4"
definition SERIAL_LSR :: u32 where "SERIAL_LSR = 5"

definition SERIAL_LINE_CTL_DLAB :: u8 where "SERIAL_LINE_CTL_DLAB = 0x80"
definition SERIAL_LINE_CTL_8BIT :: u8 where "SERIAL_LINE_CTL_8BIT = push_bit 1 3"
definition SERIAL_LINE_CTL_1STOP_BIT :: u8 where "SERIAL_LINE_CTL_1STOP_BIT = push_bit 2 0"
definition SERIAL_LINE_CTL_NO_PARITY :: u8 where "SERIAL_LINE_CTL_NO_PARITY = push_bit 3 0"
definition SERIAL_FCR_ENABLE_FIFO :: u8 where "SERIAL_FCR_ENABLE_FIFO = push_bit 0 1"
definition SERIAL_FCR_CLEAR_RX_FIFO :: u8 where "SERIAL_FCR_CLEAR_RX_FIFO = push_bit 1 1"
definition SERIAL_FCR_CLEAR_TX_FIFO :: u8 where "SERIAL_FCR_CLEAR_TX_FIFO = push_bit 2 1"
definition SERIAL_FCR_14BYTES_FIFO :: u8 where "SERIAL_FCR_14BYTES_FIFO = 0xC0"
definition SERIAL_LSR_RX_READY :: u8 where "SERIAL_LSR_RX_READY = push_bit 0 1"
definition SERIAL_LSR_TX_EMPTY :: u8 where "SERIAL_LSR_TX_EMPTY = push_bit 5 1"

definition SERIAL_BAUD_115200 :: u32 where "SERIAL_BAUD_115200 = 1"
definition SERIAL_COM1 :: u32 where "SERIAL_COM1 = 0x3F8"

record serial_dev =
  baud :: u32
  com_port :: u32

definition serial_reg :: "serial_dev \<Rightarrow> u32 \<Rightarrow> u16" where
  "serial_reg self r = ucast (com_port self + r)"

definition serial_set_baud :: "serial_dev \<Rightarrow> 'z hw_scheme \<Rightarrow> 'z hw_scheme" where
  "serial_set_baud self h =
     (let (line_ctl, h) = arch_io_read8 (serial_reg self SERIAL_LINE_CTL) h;
          line_ctl = line_ctl OR SERIAL_LINE_CTL_DLAB;
          h = arch_io_write8 (serial_reg self SERIAL_LINE_CTL) line_ctl h;
          h = arch_io_write8 (serial_reg self SERIAL_DATA) (ucast (baud self AND 0xFF)) h;
          h = arch_io_write8 (serial_reg self SERIAL_INTEN) (ucast (baud self AND 0x00FF)) h;
          (line_ctl, h) = arch_io_read8 (serial_reg self SERIAL_LINE_CTL) h;
          line_ctl = line_ctl AND NOT SERIAL_LINE_CTL_DLAB
      in arch_io_write8 (serial_reg self SERIAL_LINE_CTL) line_ctl h)"

definition serial_tx_ready :: "serial_dev \<Rightarrow> 'z hw_scheme \<Rightarrow> bool \<times> 'z hw_scheme" where
  "serial_tx_ready self h =
     (let (v, h) = arch_io_read8 (serial_reg self SERIAL_LSR) h in (v AND SERIAL_LSR_TX_EMPTY \<noteq> 0, h))"

definition serial_rx_ready :: "serial_dev \<Rightarrow> 'z hw_scheme \<Rightarrow> bool \<times> 'z hw_scheme" where
  "serial_rx_ready self h =
     (let (v, h) = arch_io_read8 (serial_reg self SERIAL_LSR) h in (v AND SERIAL_LSR_RX_READY \<noteq> 0, h))"

definition serial_init :: "u32 \<Rightarrow> u32 \<Rightarrow> 'z hw_scheme \<Rightarrow> serial_dev \<times> 'z hw_scheme" where
  "serial_init b port h =
     (let self = \<lparr>baud = b, com_port = port\<rparr>;
          h = arch_io_write8 (serial_reg self SERIAL_INTEN) 0 h;
          h = serial_set_baud self h;
          h = arch_io_write8 (serial_reg self 0)
            (SERIAL_LINE_CTL_8BIT OR SERIAL_LINE_CTL_1STOP_BIT OR SERIAL_LINE_CTL_NO_PARITY) h;
          h = arch_io_write8 (serial_reg self SERIAL_IIR_FCR)
            (SERIAL_FCR_ENABLE_FIFO OR SERIAL_FCR_CLEAR_RX_FIFO OR SERIAL_FCR_CLEAR_TX_FIFO OR SERIAL_FCR_14BYTES_FIFO) h;
          h = arch_io_write8 (serial_reg self SERIAL_MODEM_CTL) 0 h
      in (self, h))"

text \<open>\<open>while (!ready);\<close> where \<open>ready\<close> is one of the two polls.\<close>

partial_function (option) serial_wait :: "('h \<Rightarrow> bool \<times> 'h) \<Rightarrow> 'h \<Rightarrow> 'h option" where
  "serial_wait ready h = (let (r, h) = ready h in if r then Some h else serial_wait ready h)"

primrec serial_write :: "serial_dev \<Rightarrow> u8 list \<Rightarrow> 'z hw_scheme \<Rightarrow> 'z hw_scheme option" where
  "serial_write self [] h = Some h"
| "serial_write self (b # data) h = do {
     h \<leftarrow> serial_wait (serial_tx_ready self) h;
     serial_write self data (arch_io_write8 (serial_reg self SERIAL_DATA) b h)
   }"

primrec serial_read :: "serial_dev \<Rightarrow> nat \<Rightarrow> 'z hw_scheme \<Rightarrow> (u8 list \<times> 'z hw_scheme) option" where
  "serial_read self 0 h = Some ([], h)"
| "serial_read self (Suc n) h = do {
     h \<leftarrow> serial_wait (serial_rx_ready self) h;
     let (b, h) = arch_io_read8 (serial_reg self SERIAL_DATA) h;
     (bs, h) \<leftarrow> serial_read self n h;
     Some (b # bs, h)
   }"

definition serial_get :: "serial_dev \<Rightarrow> 'z hw_scheme \<Rightarrow> (u8 \<times> 'z hw_scheme) option" where
  "serial_get self h = do { (bs, h) \<leftarrow> serial_read self 1 h; Some (hd bs, h) }"

definition serial_put :: "serial_dev \<Rightarrow> u8 \<Rightarrow> 'z hw_scheme \<Rightarrow> 'z hw_scheme option" where
  "serial_put self byte h = serial_write self [byte] h"

subsection \<open>The immediate console\<close>

record console = hw +
  immediate_com_port :: serial_dev
  inited :: bool
  message_buffer :: ptr
  con_mem :: memory

definition CONSOLE_BUFFER_SIZE :: nat where "CONSOLE_BUFFER_SIZE = 2048"

text \<open>
  \<open>vsnprintf\<close> into the buffer: the text cut to the size of the buffer less the terminating zero, and the length of the whole text.
\<close>

definition vsnprintf :: "u8 list option \<Rightarrow> 'z console_scheme \<Rightarrow> nat option \<times> 'z console_scheme" where
  "vsnprintf formatted c =
     (case formatted of
        None \<Rightarrow> (None, c)
      | Some bs \<Rightarrow> (Some (length bs),
          c\<lparr>con_mem := write_bytes (message_buffer c) (take (CONSOLE_BUFFER_SIZE - 1) bs @ [0]) (con_mem c)\<rparr>))"

definition console_print :: "u8 list option \<Rightarrow> 'z console_scheme \<Rightarrow> 'z console_scheme option" where
  "console_print formatted c = do {
     let (flags, c) = arch_irq_save c;
     let (size, c) = vsnprintf formatted c;
     case size of
       None \<Rightarrow> Some (arch_irq_restore flags c)
     | Some n \<Rightarrow> do {
         c \<leftarrow> serial_write (immediate_com_port c) (read_bytes (con_mem c) (message_buffer c) n) c;
         Some (arch_irq_restore flags c)
       }
   }"

definition console_write :: "u8 list \<Rightarrow> 'z console_scheme \<Rightarrow> 'z console_scheme option" where
  "console_write buf c = do {
     let (flags, c) = arch_irq_save c;
     c \<leftarrow> serial_write (immediate_com_port c) buf c;
     Some (arch_irq_restore flags c)
   }"

definition console_init :: "u8 list \<Rightarrow> 'z console_scheme \<Rightarrow> 'z console_scheme option" where
  "console_init greeting c =
     (if inited c then Some c
      else do {
        let (dev, c) = serial_init SERIAL_BAUD_115200 SERIAL_COM1 c;
        let c = c\<lparr>immediate_com_port := dev\<rparr>;
        c \<leftarrow> console_print (Some greeting) c;
        Some (c\<lparr>inited := True\<rparr>)
      })"

text \<open>\<open>write\<close> of newlib_stubs.cpp: the standard output and error streams go to the console.\<close>

definition newlib_write :: "int \<Rightarrow> u8 list \<Rightarrow> 'z console_scheme \<Rightarrow> (int \<times> 'z console_scheme) option" where
  "newlib_write fd buf c =
     (if fd = 1 \<or> fd = 2 then do { c \<leftarrow> console_write buf c; Some (int (length buf), c) } else Some (- 1, c))"

subsection \<open>What reaches the wire\<close>

text \<open>How many polls a port needs until it takes a byte.\<close>

primrec ready_within :: "('h \<Rightarrow> bool \<times> 'h) \<Rightarrow> nat \<Rightarrow> 'h \<Rightarrow> bool" where
  "ready_within ready 0 h \<longleftrightarrow> fst (ready h)"
| "ready_within ready (Suc n) h \<longleftrightarrow> fst (ready h) \<or> ready_within ready n (snd (ready h))"

definition uart_live :: "serial_dev \<Rightarrow> 'z hw_scheme \<Rightarrow> bool" where
  "uart_live self h \<longleftrightarrow> (\<forall>L. \<exists>n. ready_within (serial_tx_ready self) n (h\<lparr>hw_log := L\<rparr>))"

lemma serial_tx_ready_log:
  "snd (serial_tx_ready self h) = h\<lparr>hw_log := hw_log (snd (serial_tx_ready self h))\<rparr> \<and>
   outputs p (hw_log (snd (serial_tx_ready self h))) = outputs p (hw_log h)"
  by (simp add: serial_tx_ready_def arch_io_read8_def io_in_def Let_def)

lemma serial_wait_ready:
  assumes "ready_within (serial_tx_ready self) n h"
  shows "\<exists>L. serial_wait (serial_tx_ready self) h = Some (h\<lparr>hw_log := L\<rparr>) \<and> outputs p L = outputs p (hw_log h)"
  using assms
proof (induction n arbitrary: h)
  case 0
  then show ?case
    using serial_tx_ready_log [of self h p] by (subst serial_wait.simps) (auto simp: split_beta Let_def)
next
  case (Suc n)
  define h1 where "h1 = snd (serial_tx_ready self h)"
  have l: "h1 = h\<lparr>hw_log := hw_log h1\<rparr>" "outputs p (hw_log h1) = outputs p (hw_log h)"
    using serial_tx_ready_log [of self h p] by (simp_all add: h1_def)
  show ?case
  proof (cases "fst (serial_tx_ready self h)")
    case True
    then have "serial_wait (serial_tx_ready self) h = Some h1" by (subst serial_wait.simps) (simp add: split_beta Let_def h1_def)
    then show ?thesis using l by (intro exI [of _ "hw_log h1"]) simp
  next
    case False
    then obtain L where L: "serial_wait (serial_tx_ready self) h1 = Some (h1\<lparr>hw_log := L\<rparr>)" "outputs p L = outputs p (hw_log h1)"
      using Suc.IH [of h1] Suc.prems by (auto simp: h1_def)
    have "h1\<lparr>hw_log := L\<rparr> = h\<lparr>hw_log := L\<rparr>" by (subst l(1)) simp
    moreover have "serial_wait (serial_tx_ready self) h = serial_wait (serial_tx_ready self) h1"
      using False by (subst serial_wait.simps) (simp add: split_beta Let_def h1_def)
    ultimately show ?thesis using L l(2) by auto
  qed
qed

lemma serial_write_outputs:
  assumes "uart_live self h" "p = serial_reg self SERIAL_DATA"
  shows "\<exists>L. serial_write self data h = Some (h\<lparr>hw_log := L\<rparr>) \<and> outputs p L = outputs p (hw_log h) @ data"
  using assms(1)
proof (induction data arbitrary: h)
  case Nil
  show ?case by (intro exI [of _ "hw_log h"]) simp
next
  case (Cons b data)
  obtain n where "ready_within (serial_tx_ready self) n (h\<lparr>hw_log := hw_log h\<rparr>)"
    using Cons.prems unfolding uart_live_def by blast
  then obtain L where L: "serial_wait (serial_tx_ready self) h = Some (h\<lparr>hw_log := L\<rparr>)" "outputs p L = outputs p (hw_log h)"
    using serial_wait_ready [of self n h p] by auto
  have "uart_live self (h\<lparr>hw_log := Io_out 1 p (ucast b) # L\<rparr>)" using Cons.prems by (simp add: uart_live_def)
  from Cons.IH [OF this] show ?case
    using L assms(2) by (auto simp: arch_io_write8_def io_out_def)
qed

lemma serial_tx_ready_parts:
  "fst (serial_tx_ready self h) \<longleftrightarrow>
     ucast (take_bit 8 (port_value h (hw_log h) 1 (serial_reg self SERIAL_LSR))) AND SERIAL_LSR_TX_EMPTY \<noteq> 0"
  "port_value (snd (serial_tx_ready self h)) = port_value h"
  "hw_log (snd (serial_tx_ready self h)) =
     Io_in 1 (serial_reg self SERIAL_LSR) (take_bit 8 (port_value h (hw_log h) 1 (serial_reg self SERIAL_LSR))) # hw_log h"
  by (simp_all add: serial_tx_ready_def arch_io_read8_def io_in_def Let_def)

lemma ready_within_cong:
  "port_value g = port_value h \<Longrightarrow> hw_log g = hw_log h \<Longrightarrow>
    ready_within (serial_tx_ready self) n g = ready_within (serial_tx_ready self) n h"
proof (induction n arbitrary: g h)
  case (Suc n)
  have "ready_within (serial_tx_ready self) n (snd (serial_tx_ready self g)) = ready_within (serial_tx_ready self) n (snd (serial_tx_ready self h))"
    by (rule Suc.IH) (simp_all only: serial_tx_ready_parts Suc.prems)
  then show ?case using Suc.prems by (simp add: serial_tx_ready_parts(1))
qed (simp add: serial_tx_ready_parts(1))

lemma uart_live_cong: "port_value g = port_value h \<Longrightarrow> uart_live self g \<longleftrightarrow> uart_live self h"
  using ready_within_cong [of "g\<lparr>hw_log := L\<rparr>" "h\<lparr>hw_log := L\<rparr>" self for L] by (simp add: uart_live_def)

text \<open>The bytes the console sends for a text: the contents of the buffer, and of the memory behind it when the text is too long.\<close>

definition console_bytes :: "u8 list \<Rightarrow> 'z console_scheme \<Rightarrow> u8 list" where
  "console_bytes bs c =
     (if length bs < CONSOLE_BUFFER_SIZE then bs
      else take (CONSOLE_BUFFER_SIZE - 1) bs @ 0 #
        read_bytes (con_mem c) (message_buffer c + of_nat CONSOLE_BUFFER_SIZE) (length bs - CONSOLE_BUFFER_SIZE))"

lemma vsnprintf_buffer:
  assumes "length bs < 2 ^ 64"
  shows "read_bytes (write_bytes a (take (CONSOLE_BUFFER_SIZE - 1) bs @ [0]) m) a (length bs) =
    (if length bs < CONSOLE_BUFFER_SIZE then bs
     else take (CONSOLE_BUFFER_SIZE - 1) bs @ 0 # read_bytes m (a + of_nat CONSOLE_BUFFER_SIZE) (length bs - CONSOLE_BUFFER_SIZE))"
proof (cases "length bs < CONSOLE_BUFFER_SIZE")
  case True
  then have "take (CONSOLE_BUFFER_SIZE - 1) bs = bs" by simp
  then show ?thesis using True read_write_within [of 0 "length bs" "bs @ [0]" a m] assms
    by (simp add: CONSOLE_BUFFER_SIZE_def)
next
  case False
  define x where "x = take (CONSOLE_BUFFER_SIZE - 1) bs @ [0]"
  have x: "length x = CONSOLE_BUFFER_SIZE" using False by (simp add: x_def CONSOLE_BUFFER_SIZE_def)
  have c: "length bs = length x + (length bs - length x)" using False x by simp
  have "read_bytes (write_bytes a x m) (a + of_nat (length x)) (length bs - length x) =
      read_bytes m (a + of_nat (length x)) (length bs - length x)"
    by (rule read_write_separate) (use assms c x in \<open>auto simp: separate_def unat_of_nat64 CONSOLE_BUFFER_SIZE_def unat_sub_if'\<close>)
  then have "read_bytes (write_bytes a x m) a (length bs) = x @ read_bytes m (a + of_nat (length x)) (length bs - length x)"
    using read_write_same [of "length x" x a m] assms c by (subst c, subst read_bytes_add) simp
  then show ?thesis using False x by (simp add: x_def)
qed

text \<open>
  C38. Printing a text sends exactly the bytes of the text, in order, and leaves the interrupt flag as it was, when the text is
  shorter than the message buffer. A longer text makes print send the cut text, its terminating zero and then the memory behind
  the buffer, as many bytes as the text has.
\<close>

theorem console_print_sends:
  assumes "uart_live (immediate_com_port c) c" "p = serial_reg (immediate_com_port c) SERIAL_DATA" "length bs < 2 ^ 64"
  shows "\<exists>c'. console_print (Some bs) c = Some c' \<and> outputs p (hw_log c') = outputs p (hw_log c) @ console_bytes bs c \<and>
    rflags c' = rflags c"
proof -
  define d where "d = c\<lparr>rflags := rflags c AND NOT RFLAGS_IF,
    con_mem := write_bytes (message_buffer c) (take (CONSOLE_BUFFER_SIZE - 1) bs @ [0]) (con_mem c)\<rparr>"
  have "uart_live (immediate_com_port c) d" using assms(1) uart_live_cong [of d c] by (simp add: d_def)
  then obtain L where L: "serial_write (immediate_com_port c) (console_bytes bs c) d = Some (d\<lparr>hw_log := L\<rparr>)"
      "outputs p L = outputs p (hw_log c) @ console_bytes bs c"
    using serial_write_outputs [OF _ assms(2), of d "console_bytes bs c"] by (auto simp: d_def)
  have "read_bytes (con_mem d) (message_buffer d) (length bs) = console_bytes bs c"
    unfolding d_def console_bytes_def using vsnprintf_buffer [OF assms(3)] by simp
  then have "console_print (Some bs) c = Some (arch_irq_restore (rflags c) (d\<lparr>hw_log := L\<rparr>))"
    using L(1) by (simp add: console_print_def arch_irq_save_def arch_disable_interrupts_def vsnprintf_def d_def)
  then show ?thesis using L(2) by (simp add: arch_irq_restore_def)
qed

definition demo_console :: console where
  "demo_console = \<lparr>hw_log = [], port_value = (\<lambda>L w p. if length L < 3 then 0 else 0x20), msr_value = (\<lambda>_ _. 0), rflags = 0x202,
     immediate_com_port = \<lparr>baud = 1, com_port = 0x3F8\<rparr>, inited = True, message_buffer = 0x1000, con_mem = (\<lambda>_. 0)\<rparr>"

theorem console_print_sends_witness:
  "\<exists>c'. console_print (Some [0x68, 0x69]) demo_console = Some c' \<and> outputs 0x3F8 (hw_log c') = [0x68, 0x69] \<and> rflags c' = 0x202"
proof -
  have "ready_within (serial_tx_ready (immediate_com_port demo_console)) 3 (demo_console\<lparr>hw_log := L\<rparr>)" for L
    by (simp add: numeral_3_eq_3 serial_tx_ready_parts demo_console_def SERIAL_LSR_TX_EMPTY_def)
  then have "uart_live (immediate_com_port demo_console) demo_console" unfolding uart_live_def by blast
  then show ?thesis
    using console_print_sends [of demo_console "0x3F8" "[0x68, 0x69]"]
    by (simp add: demo_console_def serial_reg_def SERIAL_DATA_def console_bytes_def CONSOLE_BUFFER_SIZE_def)
qed

text \<open>
  What \<open>serial_init\<close> writes for the console: the divisor latch gets the low byte of the divisor twice, which makes it 0x0101
  instead of 1, and the settings of the line go to the data port, where they are sent as a character.
\<close>

lemma serial_init_writes:
  assumes "serial_init SERIAL_BAUD_115200 SERIAL_COM1 h = (self, h')"
  shows "outputs 0x3F8 (hw_log h') = outputs 0x3F8 (hw_log h) @ [1, 6]" "outputs 0x3F9 (hw_log h') = outputs 0x3F9 (hw_log h) @ [0, 1]"
  using assms
  by (auto simp: serial_init_def serial_set_baud_def arch_io_write8_def arch_io_read8_def io_out_def io_in_def Let_def
      serial_reg_def SERIAL_INTEN_def SERIAL_LINE_CTL_def SERIAL_DATA_def SERIAL_IIR_FCR_def SERIAL_MODEM_CTL_def
      SERIAL_LINE_CTL_DLAB_def SERIAL_LINE_CTL_8BIT_def SERIAL_LINE_CTL_1STOP_BIT_def SERIAL_LINE_CTL_NO_PARITY_def
      SERIAL_FCR_ENABLE_FIFO_def SERIAL_FCR_CLEAR_RX_FIFO_def SERIAL_FCR_CLEAR_TX_FIFO_def SERIAL_FCR_14BYTES_FIFO_def
      SERIAL_BAUD_115200_def SERIAL_COM1_def)

end
