(* ===== verification/Interrupts.thy ===== *)
theory Interrupts
  imports Machine Scheduler
begin

text \<open>
  Interrupts: arch/x86_64/pic.cpp, arch/x86_64/lapic.cpp and arch/x86_64/irq_manager.cpp.

  The interrupt descriptor table and the table of handlers are lists of 256 entries of the state, which also has the addresses of
  the entry points of arch/x86_64/interrupts.s and of the table. What a handler does when it is called is a parameter of \<open>irq_handler\<close>.
  An access outside a table is \<open>None\<close>.
\<close>

subsection \<open>The 8259 interrupt controllers\<close>

definition PIC1_COMMAND :: u16 where "PIC1_COMMAND = 0x20"
definition PIC2_COMMAND :: u16 where "PIC2_COMMAND = 0xa0"
definition PIC1_DATA :: u16 where "PIC1_DATA = 0x21"
definition PIC2_DATA :: u16 where "PIC2_DATA = 0xa1"
definition ICW1_ICW4 :: u8 where "ICW1_ICW4 = 0x01"
definition ICW1_INIT :: u8 where "ICW1_INIT = 0x10"
definition ICW4_8086 :: u8 where "ICW4_8086 = 0x01"

definition pic_init :: "u32 \<Rightarrow> u32 \<Rightarrow> 'z hw_scheme \<Rightarrow> 'z hw_scheme" where
  "pic_init offset1 offset2 h =
     (let (a1, h) = arch_io_read8 PIC1_DATA h;
          (a2, h) = arch_io_read8 PIC2_DATA h;
          h = arch_io_wait (arch_io_write8 PIC1_COMMAND (ICW1_INIT OR ICW1_ICW4) h);
          h = arch_io_wait (arch_io_write8 PIC2_COMMAND (ICW1_INIT OR ICW1_ICW4) h);
          h = arch_io_wait (arch_io_write8 PIC1_DATA (ucast offset1) h);
          h = arch_io_wait (arch_io_write8 PIC2_DATA (ucast offset2) h);
          h = arch_io_wait (arch_io_write8 PIC1_DATA 4 h);
          h = arch_io_wait (arch_io_write8 PIC2_DATA 2 h);
          h = arch_io_wait (arch_io_write8 PIC1_DATA ICW4_8086 h);
          h = arch_io_wait (arch_io_write8 PIC2_DATA ICW4_8086 h);
          h = arch_io_write8 PIC1_DATA a1 h
      in arch_io_write8 PIC2_DATA a2 h)"

definition pic_disable :: "'z hw_scheme \<Rightarrow> 'z hw_scheme" where
  "pic_disable h = (let h = arch_io_write8 0x21 0xff h in arch_io_write8 0xa1 0xff h)"

text \<open>
  The command words reach both controllers in the order the 8259 wants them, the interrupt masks come back, and \<open>pic_disable\<close>
  masks everything.
\<close>

lemma pic_outputs:
  "outputs 0x20 (hw_log (pic_disable (pic_init a b h))) = outputs 0x20 (hw_log h) @ [0x11]"
  "outputs 0xa0 (hw_log (pic_disable (pic_init a b h))) = outputs 0xa0 (hw_log h) @ [0x11]"
  "\<exists>m. outputs 0x21 (hw_log (pic_disable (pic_init a b h))) = outputs 0x21 (hw_log h) @ [ucast a, 4, 1, m, 0xff]"
  "\<exists>m. outputs 0xa1 (hw_log (pic_disable (pic_init a b h))) = outputs 0xa1 (hw_log h) @ [ucast b, 2, 1, m, 0xff]"
  by (simp_all add: pic_init_def pic_disable_def arch_io_write8_def arch_io_read8_def arch_io_wait_def io_out_def io_in_def Let_def
    PIC1_DATA_def PIC2_DATA_def PIC1_COMMAND_def PIC2_COMMAND_def ICW1_INIT_def ICW1_ICW4_def ICW4_8086_def)

subsection \<open>State of the interrupt manager\<close>

definition NUM_IRQ :: nat where "NUM_IRQ = 256"
definition FIRST_USER_IRQ_NUM :: nat where "FIRST_USER_IRQ_NUM = 32"

record idt =
  offset_low :: u16
  cs :: u16
  ist :: u8
  type_dpl :: u8
  offset_mid :: u16
  offset_high :: u32
  idt_reserved :: u32

record irq_entry =
  allocated :: bool
  counter :: u32
  p_owner :: ptr
  handler :: ptr
  p_context :: ptr

record irq_manager = hw +
  lapic_ptr :: ptr
  idt_table :: "idt list"
  irq_table :: "irq_entry list"
  idtr :: "u16 \<times> u64"
  idt_table_addr :: u64
  arch_used_irq_handler :: ptr
  arch_unused_irq_handler :: ptr
  arch_exception_handler :: ptr

subsection \<open>The local APIC\<close>

definition IA32_APIC_BASE_MSR :: u32 where "IA32_APIC_BASE_MSR = 0x1B"
definition IA32_APIC_BASE_MSR_ENABLE :: u64 where "IA32_APIC_BASE_MSR_ENABLE = 0x800"
definition IA32_APIC_BASE_MSR_X2APIC_ENABLE :: u64 where "IA32_APIC_BASE_MSR_X2APIC_ENABLE = 0x400"
definition IA32_APIC_BASE_MSR_BSP :: u64 where "IA32_APIC_BASE_MSR_BSP = 0x100"
definition IA32_MSR_X2APIC_MMIO :: u64 where "IA32_MSR_X2APIC_MMIO = 0x800"
definition IA32_MSR_TSC_DEADLINE :: u32 where "IA32_MSR_TSC_DEADLINE = 0x6e0"

definition lapic_id_reg :: u64 where "lapic_id_reg = 0x02"
definition lapic_version_reg :: u64 where "lapic_version_reg = 0x03"
definition lapic_eoi_reg :: u64 where "lapic_eoi_reg = 0x0B"
definition lapic_spurious_interrupt :: u64 where "lapic_spurious_interrupt = 0x0F"
definition lapic_isr :: u64 where "lapic_isr = 0x10"
definition lapic_timer_lvt :: u64 where "lapic_timer_lvt = 0x32"
definition lapic_timer_current_cnt :: u64 where "lapic_timer_current_cnt = 0x39"

definition lapic_read32 :: "u64 \<Rightarrow> 'z hw_scheme \<Rightarrow> u32 \<times> 'z hw_scheme" where
  "lapic_read32 reg h = (let (v, h) = arch_read_msr (ucast (IA32_MSR_X2APIC_MMIO + reg)) h in (ucast v, h))"

definition lapic_write32 :: "u64 \<Rightarrow> u32 \<Rightarrow> 'z hw_scheme \<Rightarrow> 'z hw_scheme" where
  "lapic_write32 reg v h = arch_write_msr (ucast (IA32_MSR_X2APIC_MMIO + reg)) (ucast v) h"

definition lapic_init :: "ptr \<Rightarrow> 'z irq_manager_scheme \<Rightarrow> 'z irq_manager_scheme" where
  "lapic_init base_address h =
     (let h = (if base_address = 0
               then let (apic_msr, h) = arch_read_msr IA32_APIC_BASE_MSR h in h\<lparr>lapic_ptr := apic_msr AND 0xfffff000\<rparr>
               else h\<lparr>lapic_ptr := base_address\<rparr>);
          apic_msr_enable = (lapic_ptr h AND 0xfffff100) OR IA32_APIC_BASE_MSR_ENABLE OR IA32_APIC_BASE_MSR_BSP OR
            IA32_APIC_BASE_MSR_X2APIC_ENABLE;
          h = arch_write_msr IA32_APIC_BASE_MSR apic_msr_enable h;
          (_, h) = arch_read_msr IA32_APIC_BASE_MSR h;
          (v, h) = lapic_read32 lapic_spurious_interrupt h
      in lapic_write32 lapic_spurious_interrupt (v OR 0x100) h)"

definition lapic_id :: "'z hw_scheme \<Rightarrow> u32 \<times> 'z hw_scheme" where
  "lapic_id h = lapic_read32 lapic_id_reg h"

definition lapic_version :: "'z hw_scheme \<Rightarrow> u32 \<times> 'z hw_scheme" where
  "lapic_version h = lapic_read32 lapic_version_reg h"

definition lapic_init_timer :: "u8 \<Rightarrow> 'z hw_scheme \<Rightarrow> 'z hw_scheme" where
  "lapic_init_timer isr_vector_number h =
     (let h = arch_write_msr IA32_MSR_TSC_DEADLINE 0 h
      in lapic_write32 lapic_timer_lvt (push_bit 17 2 OR ucast isr_vector_number) h)"

definition lapic_start_timer :: "u64 \<Rightarrow> 'z hw_scheme \<Rightarrow> 'z hw_scheme" where
  "lapic_start_timer tsc_deadline h = arch_write_msr IA32_MSR_TSC_DEADLINE tsc_deadline h"

definition lapic_stop_timer :: "'z hw_scheme \<Rightarrow> 'z hw_scheme" where
  "lapic_stop_timer h = arch_write_msr IA32_MSR_TSC_DEADLINE 0 h"

definition lapic_get_timer_counts :: "'z hw_scheme \<Rightarrow> u32 \<times> 'z hw_scheme" where
  "lapic_get_timer_counts h = lapic_read32 lapic_timer_current_cnt h"

definition builtin_ffs :: "u32 \<Rightarrow> nat" where
  "builtin_ffs v = (case filter (bit v) [0..<32] of [] \<Rightarrow> 0 | n # _ \<Rightarrow> n + 1)"

text \<open>The loop of \<open>get_active_irq\<close> from \<open>i\<close> down to 1.\<close>

primrec active_irq_loop :: "nat \<Rightarrow> 'z hw_scheme \<Rightarrow> int \<times> 'z hw_scheme" where
  "active_irq_loop 0 h = (- 1, h)"
| "active_irq_loop (Suc i) h =
     (let (isr, h) = lapic_read32 (lapic_isr + of_nat (Suc i)) h
      in if isr \<noteq> 0 then (int (32 * Suc i + builtin_ffs isr) - 1, h) else active_irq_loop i h)"

definition lapic_get_active_irq :: "'z hw_scheme \<Rightarrow> int \<times> 'z hw_scheme" where
  "lapic_get_active_irq h = active_irq_loop 8 h"

definition lapic_signal_eoi :: "'z hw_scheme \<Rightarrow> 'z hw_scheme" where
  "lapic_signal_eoi h = lapic_write32 lapic_eoi_reg 0 h"

subsection \<open>The interrupt manager\<close>

definition gate :: "ptr \<Rightarrow> idt" where
  "gate handler_addr =
     \<lparr>offset_low = ucast (handler_addr AND 0xFFFF), cs = 0x08, ist = 0, type_dpl = 0x8E, offset_mid = ucast (drop_bit 16 handler_addr),
      offset_high = ucast (drop_bit 32 handler_addr), idt_reserved = 0\<rparr>"

definition set_entry :: "ptr \<Rightarrow> nat \<Rightarrow> 'z irq_manager_scheme \<Rightarrow> 'z irq_manager_scheme" where
  "set_entry handler_addr entry_num h = h\<lparr>idt_table := (idt_table h)[entry_num := gate handler_addr]\<rparr>"

definition generate_idt :: "'z irq_manager_scheme \<Rightarrow> (u16 \<times> u64) \<times> 'z irq_manager_scheme" where
  "generate_idt h =
     (let h = fold (\<lambda>i h. set_entry (arch_exception_handler h) i h) [0..<FIRST_USER_IRQ_NUM] h;
          h = fold (\<lambda>i h. set_entry (arch_unused_irq_handler h) i h) [FIRST_USER_IRQ_NUM..<NUM_IRQ] h
      in ((16 * of_nat NUM_IRQ - 1, idt_table_addr h), h))"

definition irq_manager_init :: "'z irq_manager_scheme \<Rightarrow> 'z irq_manager_scheme" where
  "irq_manager_init h =
     (let h = fold (\<lambda>i h. h\<lparr>irq_table := (irq_table h)[i := (irq_table h ! i)\<lparr>allocated := False\<rparr>]\<rparr>) [0..<NUM_IRQ] h;
          (idt_table_ptr, h) = generate_idt h
      in h\<lparr>idtr := idt_table_ptr\<rparr>)"

text \<open>The search of \<open>request_irq\<close> from entry \<open>i\<close> on, with \<open>n\<close> entries to go.\<close>

primrec request_irq_loop :: "ptr \<Rightarrow> ptr \<Rightarrow> ptr \<Rightarrow> nat \<Rightarrow> nat \<Rightarrow> 'z irq_manager_scheme \<Rightarrow> int \<times> 'z irq_manager_scheme" where
  "request_irq_loop fn owner ctx 0 i h = (- 1, h)"
| "request_irq_loop fn owner ctx (Suc n) i h =
     (if \<not> allocated (irq_table h ! i) then
        let h = h\<lparr>irq_table := (irq_table h)[i := \<lparr>allocated = True, counter = 0, p_owner = owner, handler = fn, p_context = ctx\<rparr>]\<rparr>
        in (int i, set_entry (arch_used_irq_handler h) i h)
      else request_irq_loop fn owner ctx n (i + 1) h)"

definition request_irq :: "ptr \<Rightarrow> ptr \<Rightarrow> ptr \<Rightarrow> 'z irq_manager_scheme \<Rightarrow> int \<times> 'z irq_manager_scheme" where
  "request_irq fn owner ctx h =
     (let (flags, h) = arch_irq_save h;
          (ret, h) = request_irq_loop fn owner ctx (NUM_IRQ - FIRST_USER_IRQ_NUM) FIRST_USER_IRQ_NUM h
      in (ret, arch_irq_restore flags h))"

definition free_irq :: "int \<Rightarrow> 'z irq_manager_scheme \<Rightarrow> 'z irq_manager_scheme" where
  "free_irq irq h =
     (if irq \<ge> int FIRST_USER_IRQ_NUM \<and> irq < int NUM_IRQ
      then h\<lparr>irq_table := (irq_table h)[nat irq := (irq_table h ! nat irq)\<lparr>allocated := False\<rparr>]\<rparr> else h)"

definition irq_handler ::
  "(ptr \<Rightarrow> ptr \<Rightarrow> 'y scheduler_scheme \<times> 'z irq_manager_scheme \<Rightarrow> ('y scheduler_scheme \<times> 'z irq_manager_scheme) option) \<Rightarrow>
   'y scheduler_scheme \<times> 'z irq_manager_scheme \<Rightarrow> ('y scheduler_scheme \<times> 'z irq_manager_scheme) option" where
  "irq_handler call s = do {
     let (sc, h) = s;
     let sc = preempt_disable sc;
     let (irq_n, h) = lapic_get_active_irq h;
     let h = lapic_signal_eoi h;
     (sc, h) \<leftarrow> (if irq_n < 0 then Some (sc, h)
       else if nat irq_n \<ge> length (irq_table h) then None
       else if \<not> allocated (irq_table h ! nat irq_n) then Some (sc, h)
       else
         let e = irq_table h ! nat irq_n;
             h = h\<lparr>irq_table := (irq_table h)[nat irq_n := e\<lparr>counter := counter e + 1\<rparr>]\<rparr>
         in if handler e \<noteq> NULL then call (handler e) (p_context e) (sc, h) else Some (sc, h));
     sc \<leftarrow> preempt_enable True sc;
     Some (sc, h)
   }"

subsection \<open>Invariant\<close>

text \<open>The address the processor jumps to for a gate.\<close>

definition gate_target :: "idt \<Rightarrow> u64" where
  "gate_target g = ucast (offset_low g) OR push_bit 16 (ucast (offset_mid g)) OR push_bit 32 (ucast (offset_high g))"

definition irq_ok :: "'z irq_manager_scheme \<Rightarrow> bool" where
  "irq_ok h \<longleftrightarrow> length (idt_table h) = NUM_IRQ \<and> length (irq_table h) = NUM_IRQ \<and>
     (\<forall>i<FIRST_USER_IRQ_NUM. idt_table h ! i = gate (arch_exception_handler h) \<and> \<not> allocated (irq_table h ! i)) \<and>
     (\<forall>i<NUM_IRQ. FIRST_USER_IRQ_NUM \<le> i \<longrightarrow>
       idt_table h ! i = gate (arch_used_irq_handler h) \<or>
       idt_table h ! i = gate (arch_unused_irq_handler h) \<and> \<not> allocated (irq_table h ! i))"

lemma gate_target_gate [simp]: "gate_target (gate a) = a"
proof (rule bit_eqI)
  have m: "(0xFFFF :: u64) = mask 16" by (simp add: mask_eq_exp_minus_1)
  fix n assume "possible_bit TYPE(u64) n"
  then show "bit (gate_target (gate a)) n \<longleftrightarrow> bit a n"
    unfolding gate_target_def gate_def m
    by (cases "n < 32") (auto simp: bit_or_iff bit_push_bit_iff bit_ucast_iff bit_drop_bit_eq bit_and_iff bit_mask_iff)
qed

lemma fold_set_entry:
  assumes "\<And>h x. f (h\<lparr>idt_table := x\<rparr>) = f h" "a \<le> b" "b \<le> length (idt_table h)"
  shows "fold (\<lambda>i h. set_entry (f h) i h) [a..<b] h =
    h\<lparr>idt_table := take a (idt_table h) @ replicate (b - a) (gate (f h)) @ drop b (idt_table h)\<rparr>"
  using assms(2,3)
proof (induction b)
  case (Suc b)
  show ?case
  proof (cases "a \<le> b")
    case True
    have "(take a (idt_table h) @ replicate (b - a) (gate (f h)) @ drop b (idt_table h))[b := gate (f h)] =
        take a (idt_table h) @ replicate (Suc b - a) (gate (f h)) @ drop (Suc b) (idt_table h)"
      using Suc.prems True
      by (simp add: list_update_append min_def Suc_diff_le replicate_append_same flip: Cons_nth_drop_Suc)
    then show ?thesis using Suc True by (simp add: assms(1) set_entry_def)
  qed (use Suc.prems in \<open>simp add: le_Suc_eq\<close>)
qed simp

lemma fold_deallocate:
  assumes "n \<le> length (irq_table h)"
  shows "fold (\<lambda>i h. h\<lparr>irq_table := (irq_table h)[i := (irq_table h ! i)\<lparr>allocated := False\<rparr>]\<rparr>) [0..<n] h =
    h\<lparr>irq_table := map (\<lambda>e. e\<lparr>allocated := False\<rparr>) (take n (irq_table h)) @ drop n (irq_table h)\<rparr>"
  using assms
proof (induction n)
  case (Suc n)
  then show ?case
    by (simp add: list_update_append nth_append take_Suc_conv_app_nth flip: Cons_nth_drop_Suc)
qed simp

lemma irq_manager_init_state:
  assumes "length (idt_table h) = NUM_IRQ" "length (irq_table h) = NUM_IRQ"
  shows "irq_manager_init h = h\<lparr>irq_table := map (\<lambda>e. e\<lparr>allocated := False\<rparr>) (irq_table h),
    idt_table := replicate FIRST_USER_IRQ_NUM (gate (arch_exception_handler h)) @
      replicate (NUM_IRQ - FIRST_USER_IRQ_NUM) (gate (arch_unused_irq_handler h)),
    idtr := (4095, idt_table_addr h)\<rparr>"
proof -
  have le: "FIRST_USER_IRQ_NUM \<le> NUM_IRQ" and lim: "16 * of_nat NUM_IRQ - 1 = (4095 :: u16)"
    by (simp_all add: NUM_IRQ_def FIRST_USER_IRQ_NUM_def)
  show ?thesis using assms le by (simp add: irq_manager_init_def fold_deallocate generate_idt_def fold_set_entry lim)
qed

lemma irq_manager_init_ok:
  assumes "length (idt_table h) = NUM_IRQ" "length (irq_table h) = NUM_IRQ"
  shows "irq_ok (irq_manager_init h)"
  unfolding irq_manager_init_state [OF assms]
  using assms by (auto simp: irq_ok_def nth_append) (simp add: NUM_IRQ_def FIRST_USER_IRQ_NUM_def)+

lemma free_irq_ok: "irq_ok h \<Longrightarrow> irq_ok (free_irq irq h)"
  by (auto simp: irq_ok_def free_irq_def nth_list_update split: if_splits)

text \<open>\<open>request_irq\<close> takes the first free vector, if there is one.\<close>

definition irq_granted :: "nat \<Rightarrow> ptr \<Rightarrow> ptr \<Rightarrow> ptr \<Rightarrow> 'z irq_manager_scheme \<Rightarrow> 'z irq_manager_scheme" where
  "irq_granted i fn owner ctx h =
     h\<lparr>irq_table := (irq_table h)[i := \<lparr>allocated = True, counter = 0, p_owner = owner, handler = fn, p_context = ctx\<rparr>],
       idt_table := (idt_table h)[i := gate (arch_used_irq_handler h)]\<rparr>"

lemma request_irq_loop_result:
  "request_irq_loop fn owner ctx n i h =
     (case find (\<lambda>j. \<not> allocated (irq_table h ! j)) [i..<i + n] of
        None \<Rightarrow> (- 1, h) | Some j \<Rightarrow> (int j, irq_granted j fn owner ctx h))"
proof (induction n arbitrary: i)
  case (Suc n)
  have "[i..<i + Suc n] = i # [i + 1..<i + 1 + n]" by (simp add: upt_conv_Cons del: upt_Suc)
  then show ?case using Suc.IH [of "i + 1"] by (simp add: irq_granted_def set_entry_def del: upt_Suc)
qed simp

lemma request_irq_result:
  assumes "irq_ok h"
  obtains (full) "\<forall>j<NUM_IRQ. FIRST_USER_IRQ_NUM \<le> j \<longrightarrow> allocated (irq_table h ! j)" "request_irq fn owner ctx h = (- 1, h)"
  | (granted) j where "FIRST_USER_IRQ_NUM \<le> j" "j < NUM_IRQ" "\<not> allocated (irq_table h ! j)"
      "\<forall>k<j. FIRST_USER_IRQ_NUM \<le> k \<longrightarrow> allocated (irq_table h ! k)"
      "request_irq fn owner ctx h = (int j, irq_granted j fn owner ctx h)" "irq_ok (irq_granted j fn owner ctx h)"
proof -
  let ?n = "NUM_IRQ - FIRST_USER_IRQ_NUM" and ?h = "h\<lparr>rflags := rflags h AND NOT RFLAGS_IF\<rparr>"
  have b: "FIRST_USER_IRQ_NUM + ?n = NUM_IRQ" by (simp add: NUM_IRQ_def FIRST_USER_IRQ_NUM_def)
  have r: "request_irq fn owner ctx h =
      (let (ret, h') = request_irq_loop fn owner ctx ?n FIRST_USER_IRQ_NUM ?h in (ret, h'\<lparr>rflags := rflags h\<rparr>))"
    by (simp add: request_irq_def arch_irq_save_def arch_disable_interrupts_def arch_irq_restore_def)
  have ok: "irq_ok (irq_granted j fn owner ctx h)" if "FIRST_USER_IRQ_NUM \<le> j" "j < NUM_IRQ" for j
    using assms that by (auto simp: irq_ok_def irq_granted_def nth_list_update)
  show thesis
  proof (cases "find (\<lambda>j. \<not> allocated (irq_table h ! j)) [FIRST_USER_IRQ_NUM..<NUM_IRQ]")
    case None
    then have "request_irq fn owner ctx h = (- 1, h)" using r request_irq_loop_result [of fn owner ctx ?n FIRST_USER_IRQ_NUM ?h] b by simp
    then show thesis using full None by (auto simp: find_None_iff)
  next
    case (Some j)
    then obtain k where k: "k < NUM_IRQ - FIRST_USER_IRQ_NUM" "j = FIRST_USER_IRQ_NUM + k" "\<not> allocated (irq_table h ! j)"
        "\<forall>l<k. allocated (irq_table h ! (FIRST_USER_IRQ_NUM + l))"
      by (auto simp: find_Some_iff)
    have "request_irq fn owner ctx h = (int j, irq_granted j fn owner ctx h)"
      using r request_irq_loop_result [of fn owner ctx ?n FIRST_USER_IRQ_NUM ?h] b Some by (simp add: irq_granted_def)
    moreover have "\<forall>l<j. FIRST_USER_IRQ_NUM \<le> l \<longrightarrow> allocated (irq_table h ! l)"
      using k(2,4) by (metis add_less_cancel_left le_Suc_ex)
    ultimately show thesis using granted [of j] k ok [of j] b by simp
  qed
qed

subsection \<open>Delivery\<close>

text \<open>The local APIC reports one vector in service, in the in-service registers that \<open>get_active_irq\<close> reads.\<close>

definition in_service :: "nat \<Rightarrow> 'z hw_scheme \<Rightarrow> bool" where
  "in_service v h \<longleftrightarrow> (\<forall>L i. 1 \<le> i \<and> i \<le> 8 \<longrightarrow>
     (ucast (msr_value h L (ucast (IA32_MSR_X2APIC_MMIO + (lapic_isr + of_nat i)))) :: u32) = (if i = v div 32 then 2 ^ (v mod 32) else 0))"

lemma filter_eq_upt: "filter (\<lambda>n. n = k) [0..<m] = (if k < m then [k] else [])"
  by (induction m) auto

lemma builtin_ffs_single [simp]:
  assumes "k < 32"
  shows "builtin_ffs (2 ^ k) = k + 1"
proof -
  have "filter (bit (2 ^ k :: u32)) [0..<32] = filter (\<lambda>n. n = k) [0..<32]"
    by (rule filter_cong [OF refl]) (auto simp: bit_exp_iff)
  then show ?thesis using assms by (simp add: builtin_ffs_def filter_eq_upt del: upt_rec_numeral)
qed

lemma active_irq_loop_in_service:
  assumes "in_service v h" "32 \<le> v" "v div 32 \<le> n" "n \<le> 8"
  shows "\<exists>L. active_irq_loop n h = (int v, h\<lparr>hw_log := L\<rparr>)"
  using assms
proof (induction n arbitrary: h)
  case (Suc n)
  define L where "L = hw_log (snd (lapic_read32 (lapic_isr + of_nat (Suc n)) h))"
  have r: "lapic_read32 (lapic_isr + of_nat (Suc n)) h = (if Suc n = v div 32 then 2 ^ (v mod 32) else 0, h\<lparr>hw_log := L\<rparr>)"
  proof -
    have "(ucast (msr_value h (hw_log h) (ucast (IA32_MSR_X2APIC_MMIO + (lapic_isr + of_nat (Suc n))))) :: u32) =
        (if Suc n = v div 32 then 2 ^ (v mod 32) else 0)"
      using Suc.prems(1,4) unfolding in_service_def by (simp del: of_nat_Suc)
    then show ?thesis by (simp add: L_def lapic_read32_def arch_read_msr_def Let_def del: of_nat_Suc)
  qed
  show ?case
  proof (cases "Suc n = v div 32")
    case True
    have nz: "(2 :: u32) ^ (v mod 32) \<noteq> 0" by simp
    have "active_irq_loop (Suc n) h = (int (32 * Suc n + builtin_ffs (2 ^ (v mod 32))) - 1, h\<lparr>hw_log := L\<rparr>)"
      using nz by (simp only: active_irq_loop.simps r [unfolded if_P [OF True]] Let_def split_conv if_True not_False_eq_True)
    moreover have "32 * Suc n + builtin_ffs (2 ^ (v mod 32)) = v + 1"
      by (subst builtin_ffs_single) (simp_all add: True)
    ultimately have "active_irq_loop (Suc n) h = (int v, h\<lparr>hw_log := L\<rparr>)" by (simp only: of_nat_add of_nat_1 add_diff_cancel_right')
    then show ?thesis by blast
  next
    case False
    then have "v div 32 \<le> n" using Suc.prems(3) by simp
    moreover have "in_service v (h\<lparr>hw_log := L\<rparr>)" using Suc.prems(1) by (simp add: in_service_def)
    ultimately obtain L' where "active_irq_loop n (h\<lparr>hw_log := L\<rparr>) = (int v, h\<lparr>hw_log := L\<rparr>\<lparr>hw_log := L'\<rparr>)"
      using Suc.IH [of "h\<lparr>hw_log := L\<rparr>"] Suc.prems by auto
    then show ?thesis using False r by auto
  qed
qed simp

text \<open>
  C14. An interrupt reaches its handler: a granted request gets a vector of its own above the exceptions, whose gate leads to the
  common entry point, and keeps the tables well-formed; when the local APIC then reports this vector, the common handler signals the end of
  interrupt, counts it, and calls exactly the requested function with the requested context, with preemption disabled around the call.
\<close>

theorem irq_delivered:
  assumes ok: "irq_ok h" and req: "request_irq fn owner ctx h = (irq, h1)" and g: "0 \<le> irq" "fn \<noteq> NULL"
    and srv: "in_service (nat irq) h1"
  shows "irq_ok h1 \<and> 32 \<le> irq \<and> irq < 256 \<and> \<not> allocated (irq_table h ! nat irq) \<and>
    gate_target (idt_table h1 ! nat irq) = arch_used_irq_handler h \<and>
    (\<exists>L. irq_handler call (sc, h1) = do {
       (sc, h2) \<leftarrow> call fn ctx (preempt_disable sc, h1\<lparr>hw_log := Msr_out 0x80B 0 # L,
         irq_table := (irq_table h1)[nat irq := (irq_table h1 ! nat irq)\<lparr>counter := 1\<rparr>]\<rparr>);
       sc \<leftarrow> preempt_enable True sc;
       Some (sc, h2)
     })"
  using ok
proof (cases rule: request_irq_result [of h fn owner ctx])
  case full
  then show ?thesis using req g by simp
next
  case (granted j)
  have j: "irq = int j" "h1 = irq_granted j fn owner ctx h" using granted(5) req by auto
  have len: "length (irq_table h) = NUM_IRQ" "length (idt_table h) = NUM_IRQ" using ok by (simp_all add: irq_ok_def)
  have b: "32 \<le> j" "j < 256" "j div 32 \<le> 8" using granted(1,2) by (auto simp: NUM_IRQ_def FIRST_USER_IRQ_NUM_def)
  obtain L where L: "lapic_get_active_irq h1 = (int j, h1\<lparr>hw_log := L\<rparr>)"
    using active_irq_loop_in_service [of j h1 8] srv j(1) b unfolding lapic_get_active_irq_def by auto
  have e: "irq_table h1 ! j = \<lparr>allocated = True, counter = 0, p_owner = owner, handler = fn, p_context = ctx\<rparr>" "j < length (irq_table h1)"
    using granted(2) len by (simp_all add: j irq_granted_def)
  have "irq_handler call (sc, h1) = do {
       (sc, h2) \<leftarrow> call fn ctx (preempt_disable sc, h1\<lparr>hw_log := Msr_out 0x80B 0 # L,
         irq_table := (irq_table h1)[j := (irq_table h1 ! j)\<lparr>counter := 1\<rparr>]\<rparr>);
       sc \<leftarrow> preempt_enable True sc;
       Some (sc, h2)
     }"
    using e g(2)
    by (simp add: irq_handler_def L lapic_signal_eoi_def lapic_write32_def arch_write_msr_value IA32_MSR_X2APIC_MMIO_def lapic_eoi_reg_def)
  then show ?thesis
    using granted(3,6) b j len by (auto simp: irq_granted_def NUM_IRQ_def)
qed

definition demo_irqs :: irq_manager where
  "demo_irqs = irq_manager_init \<lparr>hw_log = [], port_value = (\<lambda>_ _ _. 0), msr_value = (\<lambda>L r. if r = 0x811 then 1 else 0), rflags = 0x2,
     lapic_ptr = 0, idt_table = replicate NUM_IRQ (gate 0),
     irq_table = replicate NUM_IRQ \<lparr>allocated = True, counter = 0, p_owner = 0, handler = 0, p_context = 0\<rparr>,
     idtr = (0, 0), idt_table_addr = 0x5000, arch_used_irq_handler = 0x6000, arch_unused_irq_handler = 0x6100,
     arch_exception_handler = 0x6200\<rparr>"

theorem irq_delivered_witness:
  "\<exists>h1 L. request_irq 0x7000 0x7100 0x7200 demo_irqs = (32, h1) \<and> irq_ok h1 \<and> gate_target (idt_table h1 ! 32) = 0x6000 \<and>
    irq_handler (\<lambda>f c s. if f = 0x7000 \<and> c = 0x7200 then Some s else None) (demo_sched, h1) =
      Some (demo_sched, h1\<lparr>hw_log := Msr_out 0x80B 0 # L, irq_table := (irq_table h1)[32 := (irq_table h1 ! 32)\<lparr>counter := 1\<rparr>]\<rparr>)"
proof -
  have ok: "irq_ok demo_irqs" unfolding demo_irqs_def by (rule irq_manager_init_ok) simp_all
  have free: "\<not> allocated (irq_table demo_irqs ! 32)" "arch_used_irq_handler demo_irqs = 0x6000"
      "msr_value demo_irqs = (\<lambda>L r. if r = 0x811 then 1 else 0)"
    by (simp_all add: demo_irqs_def irq_manager_init_state) (simp add: NUM_IRQ_def)
  have "(ucast (0x810 + of_nat i :: u64) :: u32) = 0x811 \<longleftrightarrow> i = 1" if "1 \<le> i" "i \<le> 8" for i
  proof -
    have "i = 1 \<or> i = 2 \<or> i = 3 \<or> i = 4 \<or> i = 5 \<or> i = 6 \<or> i = 7 \<or> i = 8" using that by presburger
    then show ?thesis by (elim disjE) simp_all
  qed
  then have srv: "in_service 32 (irq_granted 32 f w c demo_irqs)" for f w c
    unfolding in_service_def by (auto simp: irq_granted_def free(3) IA32_MSR_X2APIC_MMIO_def lapic_isr_def)
  obtain h1 where r: "request_irq 0x7000 0x7100 0x7200 demo_irqs = (32, h1)" "in_service (nat 32) h1"
  proof (rule request_irq_result [OF ok, of "0x7000" "0x7100" "0x7200"])
    fix j assume j: "FIRST_USER_IRQ_NUM \<le> j" "\<forall>k<j. FIRST_USER_IRQ_NUM \<le> k \<longrightarrow> allocated (irq_table demo_irqs ! k)"
      "request_irq 0x7000 0x7100 0x7200 demo_irqs = (int j, irq_granted j 0x7000 0x7100 0x7200 demo_irqs)"
    have "j = 32" using j(1,2) free(1) by (metis FIRST_USER_IRQ_NUM_def le_neq_implies_less order_refl)
    then show thesis using that [of "irq_granted 32 0x7000 0x7100 0x7200 demo_irqs"] j(3) srv by simp
  qed (use free(1) in \<open>auto simp: NUM_IRQ_def FIRST_USER_IRQ_NUM_def\<close>)
  show ?thesis
    using irq_delivered [OF ok r(1) _ _, of "\<lambda>f c s. if f = 0x7000 \<and> c = 0x7200 then Some s else None" demo_sched] r free(2)
    by (auto simp: preempt_disable_def preempt_enable_def demo_sched_def)
qed

end
