(* ===== verification/Paging.thy ===== *)
theory Paging
  imports Otrix_Prelude
begin

text \<open>
  The page tables of arch/x86_64/paging.cpp: the three static arrays with the addresses the linker gives them, and the register cr3.
  \<open>translate\<close> is the page walk of the processor for four-level paging with 2 MiB pages.
\<close>

record paging =
  p4_table :: "u64 list"
  p3_table :: "u64 list"
  p2_tables :: "u64 list list"
  p4_addr :: u64
  p3_addr :: u64
  p2_addr :: u64
  cr3 :: u64

definition PAGE_PRESENT :: u64 where "PAGE_PRESENT = push_bit 0 1"
definition PAGE_RW :: u64 where "PAGE_RW = push_bit 1 1"
definition PAGE_HUGE :: u64 where "PAGE_HUGE = push_bit 7 1"

definition make_p4_entry :: "u64 \<Rightarrow> u64" where
  "make_p4_entry a = PAGE_PRESENT OR PAGE_RW OR a"

definition make_p3_entry :: "u64 \<Rightarrow> u64" where
  "make_p3_entry a = PAGE_PRESENT OR PAGE_RW OR a"

definition make_p3_entry_huge :: "u64 \<Rightarrow> u64" where
  "make_p3_entry_huge phys_addr = PAGE_PRESENT OR PAGE_RW OR PAGE_HUGE OR phys_addr"

definition make_p2_entry_huge :: "u64 \<Rightarrow> u64" where
  "make_p2_entry_huge phys_addr = PAGE_PRESENT OR PAGE_RW OR PAGE_HUGE OR phys_addr"

text \<open>The inner loop over the entries of table \<open>i\<close>, the outer loop over the tables, and the rest.\<close>

definition fill_p2_table :: "nat \<Rightarrow> u64 \<times> paging \<Rightarrow> u64 \<times> paging" where
  "fill_p2_table i =
     fold (\<lambda>j (phys, s). (phys + push_bit 20 2,
       s\<lparr>p2_tables := (p2_tables s)[i := (p2_tables s ! i)[j := make_p2_entry_huge phys]]\<rparr>)) [0..<512]"

definition init_identity_mapping :: "paging \<Rightarrow> paging" where
  "init_identity_mapping s =
     (let (_, s) = fold (\<lambda>i (phys, s).
            let (phys, s) = fill_p2_table i (phys, s)
            in (phys, s\<lparr>p3_table := (p3_table s)[i := make_p3_entry (p2_addr s + of_nat (4096 * i))]\<rparr>)) [0..<4] (0, s);
          s = s\<lparr>p4_table := (p4_table s)[0 := make_p4_entry (p3_addr s)]\<rparr>
      in s\<lparr>cr3 := p4_addr s\<rparr>)"

subsection \<open>The page walk\<close>

definition entry_addr :: "u64 \<Rightarrow> u64" where
  "entry_addr e = e AND 0x000FFFFFFFFFF000"

definition huge_addr :: "u64 \<Rightarrow> u64" where
  "huge_addr e = e AND 0x000FFFFFFFE00000"

definition present :: "u64 \<Rightarrow> bool" where
  "present e \<longleftrightarrow> bit e 0"

definition table_index :: "nat \<Rightarrow> u64 \<Rightarrow> nat" where
  "table_index level va = unat (drop_bit (12 + 9 * (level - 1)) va AND 511)"

definition p2_of :: "paging \<Rightarrow> u64 \<Rightarrow> u64 list option" where
  "p2_of s a = map_option (\<lambda>i. p2_tables s ! i) (find (\<lambda>i. p2_addr s + of_nat (4096 * i) = a) [0..<length (p2_tables s)])"

definition translate :: "paging \<Rightarrow> u64 \<Rightarrow> u64 option" where
  "translate s va = do {
     e4 \<leftarrow> (if entry_addr (cr3 s) = p4_addr s then Some (p4_table s ! table_index 4 va) else None);
     e3 \<leftarrow> (if present e4 \<and> entry_addr e4 = p3_addr s then Some (p3_table s ! table_index 3 va) else None);
     t2 \<leftarrow> (if present e3 then p2_of s (entry_addr e3) else None);
     let e2 = t2 ! table_index 2 va;
     if present e2 \<and> bit e2 7 then Some (huge_addr e2 OR (va AND 0x1FFFFF)) else None
   }"

text \<open>The arrays as the linker places them: of the declared sizes, zero, aligned and inside the physical address space.\<close>

definition paging_boot :: "paging \<Rightarrow> bool" where
  "paging_boot s \<longleftrightarrow> p4_table s = replicate 512 0 \<and> p3_table s = replicate 512 0 \<and> p2_tables s = replicate 4 (replicate 512 0) \<and>
     (\<forall>a\<in>{p4_addr s, p3_addr s, p2_addr s}. 4096 dvd unat a \<and> unat a + 4 * 4096 \<le> 2 ^ 52)"

lemma list_update_at_drop: "length ys = i \<Longrightarrow> i < length xs \<Longrightarrow> (ys @ drop i xs)[i := x] = ys @ x # drop (Suc i) xs"
  by (simp add: list_update_append Cons_nth_drop_Suc [symmetric])

lemma fill_p2_table_result:
  assumes "i < length (p2_tables s)" "length (p2_tables s ! i) = 512"
  shows "fill_p2_table i (phys, s) =
    (phys + 2 ^ 30, s\<lparr>p2_tables := (p2_tables s)[i := map (\<lambda>j. make_p2_entry_huge (phys + of_nat j * 2 ^ 21)) [0..<512]]\<rparr>)"
proof -
  have "fold (\<lambda>j (phys, s). (phys + push_bit 20 2,
       s\<lparr>p2_tables := (p2_tables s)[i := (p2_tables s ! i)[j := make_p2_entry_huge phys]]\<rparr>)) [0..<n] (phys, s) =
    (phys + of_nat n * 2 ^ 21, s\<lparr>p2_tables := (p2_tables s)[i := map (\<lambda>j. make_p2_entry_huge (phys + of_nat j * 2 ^ 21)) [0..<n] @
       drop n (p2_tables s ! i)]\<rparr>)" if "n \<le> 512" for n
    using that
  proof (induction n)
    case (Suc n)
    then show ?case using assms by (simp add: list_update_at_drop algebra_simps)
  qed (use assms in simp)
  from this [of 512] show ?thesis using assms by (simp add: fill_p2_table_def del: upt_rec_numeral)
qed

definition p2_row :: "nat \<Rightarrow> u64 list" where
  "p2_row i = map (\<lambda>j. make_p2_entry_huge (of_nat i * 2 ^ 30 + of_nat j * 2 ^ 21)) [0..<512]"

lemma init_identity_mapping_result:
  assumes "paging_boot s"
  shows "init_identity_mapping s = s\<lparr>p2_tables := map p2_row [0..<4],
    p3_table := map (\<lambda>i. make_p3_entry (p2_addr s + of_nat (4096 * i))) [0..<4] @ replicate 508 0,
    p4_table := make_p4_entry (p3_addr s) # replicate 511 0, cr3 := p4_addr s\<rparr>"
proof -
  have len: "length (p2_tables s) = 4" "length (p3_table s) = 512" "\<And>i. i < 4 \<Longrightarrow> length (p2_tables s ! i) = 512"
    and t: "p3_table s = replicate 512 0" "p4_table s = replicate 512 0"
    using assms by (simp_all add: paging_boot_def)
  have r: "replicate 512 (0 :: u64) = 0 # replicate 511 0" by (simp flip: replicate_Suc)
  have "fold (\<lambda>i (phys, s).
      let (phys, s) = fill_p2_table i (phys, s)
      in (phys, s\<lparr>p3_table := (p3_table s)[i := make_p3_entry (p2_addr s + of_nat (4096 * i))]\<rparr>)) [0..<n] (0, s) =
    (of_nat n * 2 ^ 30, s\<lparr>p2_tables := map p2_row [0..<n] @ drop n (p2_tables s),
       p3_table := map (\<lambda>i. make_p3_entry (p2_addr s + of_nat (4096 * i))) [0..<n] @ drop n (p3_table s)\<rparr>)" if "n \<le> 4" for n
    using that
  proof (induction n)
    case (Suc n)
    define s' where "s' = s\<lparr>p2_tables := map p2_row [0..<n] @ drop n (p2_tables s),
       p3_table := map (\<lambda>i. make_p3_entry (p2_addr s + of_nat (4096 * i))) [0..<n] @ drop n (p3_table s)\<rparr>"
    have n: "n < 4" using Suc.prems by simp
    have f: "fill_p2_table n (of_nat n * 2 ^ 30, s') = (of_nat n * 2 ^ 30 + 2 ^ 30, s'\<lparr>p2_tables := (p2_tables s')[n := p2_row n]\<rparr>)"
      unfolding p2_row_def by (rule fill_p2_table_result) (use n len in \<open>simp_all add: s'_def nth_append\<close>)
    have "(p2_tables s')[n := p2_row n] = map p2_row [0..<Suc n] @ drop (Suc n) (p2_tables s)"
      "(p3_table s')[n := x] = map (\<lambda>i. make_p3_entry (p2_addr s + of_nat (4096 * i))) [0..<n] @ x # drop (Suc n) (p3_table s)" for x
      using n len by (simp_all add: s'_def list_update_at_drop)
    moreover have "of_nat n * 2 ^ 30 + 2 ^ 30 = (of_nat (Suc n) * 2 ^ 30 :: u64)" by (simp add: distrib_right)
    ultimately show ?case using Suc.IH n f by (simp add: s'_def [symmetric]) (simp add: s'_def)
  qed simp
  from this [of 4] show ?thesis
    using len t r by (simp add: init_identity_mapping_def del: upt_rec_numeral)
qed

lemma bit_page_flags: "bit PAGE_PRESENT n \<longleftrightarrow> n = 0" "bit PAGE_RW n \<longleftrightarrow> n = 1" "bit PAGE_HUGE n \<longleftrightarrow> n = 7"
  unfolding PAGE_PRESENT_def PAGE_RW_def PAGE_HUGE_def bit_push_bit_iff bit_1_iff by auto

lemma entry_addr_table:
  assumes "4096 dvd unat a" "unat a < 2 ^ 52"
  shows "entry_addr a = a" "entry_addr (make_p4_entry a) = a" "entry_addr (make_p3_entry a) = a"
    "present (make_p4_entry a)" "present (make_p3_entry a)"
proof -
  have m: "(0x000FFFFFFFFFF000 :: u64) = mask 52 AND NOT (mask 12)" by (simp add: mask_eq_exp_minus_1)
  have "unat (take_bit 12 a) = 0" using assms(1) unfolding unsigned_take_bit_eq by (simp add: take_bit_eq_mod)
  then have "take_bit 12 a = 0" by (simp only: unsigned_eq_0_iff)
  then have lo: "12 \<le> n" if "bit a n" for n using that bit_take_bit_iff [of 12 a n] by auto
  have "take_bit 52 a = a" unfolding word_unat_eq_iff unsigned_take_bit_eq using assms(2) by (simp add: take_bit_nat_eq_self)
  then have hi: "n < 52" if "bit a n" for n using that bit_take_bit_iff [of 52 a n] by simp
  note b = bit_and_iff bit_or_iff bit_not_iff bit_mask_iff m bit_page_flags
    make_p4_entry_def make_p3_entry_def entry_addr_def
  show "entry_addr a = a" by (rule bit_eqI) (auto simp: b not_less dest: lo hi)
  show "entry_addr (make_p4_entry a) = a" "entry_addr (make_p3_entry a) = a"
    by (rule bit_eqI, auto simp: b not_less dest: lo hi)+
  show "present (make_p4_entry a)" "present (make_p3_entry a)" by (simp_all add: present_def b)
qed

lemma table_index_div: "table_index l va = unat va div 2 ^ (12 + 9 * (l - 1)) mod 512"
proof -
  have "(511 :: u64) = mask 9" by (simp add: mask_eq_exp_minus_1)
  then have "drop_bit k va AND 511 = take_bit 9 (drop_bit k va)" for k by (simp add: take_bit_eq_mask)
  moreover have "unat va mod 2 ^ 64 = unat va" using unat_less64 [of va] by simp
  ultimately show ?thesis
    unfolding table_index_def by (simp only: unsigned_take_bit_eq unsigned_drop_bit_eq) (simp add: take_bit_eq_mod drop_bit_eq_div)
qed

lemma p2_entry_maps:
  assumes "phys = push_bit 21 (drop_bit 21 va)" "unat va < 2 ^ 32"
  shows "present (make_p2_entry_huge phys)" "bit (make_p2_entry_huge phys) 7"
    "huge_addr (make_p2_entry_huge phys) OR (va AND 0x1FFFFF) = va"
proof -
  have m: "(0x000FFFFFFFE00000 :: u64) = mask 52 AND NOT (mask 21)" "(0x1FFFFF :: u64) = mask 21" by (simp_all add: mask_eq_exp_minus_1)
  note b = bit_and_iff bit_or_iff bit_not_iff bit_mask_iff m bit_push_bit_iff bit_drop_bit_eq bit_page_flags
    make_p2_entry_huge_def huge_addr_def assms(1)
  have "take_bit 32 va = va" unfolding word_unat_eq_iff unsigned_take_bit_eq using assms(2) by (simp add: take_bit_nat_eq_self)
  then have hi: "n < 32" if "bit va n" for n using that bit_take_bit_iff [of 32 va n] by simp
  show "present (make_p2_entry_huge phys)" "bit (make_p2_entry_huge phys) 7" by (simp_all add: present_def b)
  show "huge_addr (make_p2_entry_huge phys) OR (va AND 0x1FFFFF) = va"
    by (rule bit_eqI) (auto simp: b not_less dest: hi)
qed

lemma p2_of_table:
  assumes "i < 4" "length (p2_tables s) = 4"
  shows "p2_of s (p2_addr s + of_nat (4096 * i)) = Some (p2_tables s ! i)"
proof -
  have "p2_addr s + of_nat (4096 * j) = p2_addr s + of_nat (4096 * i) \<longleftrightarrow> j = i" if "j < 4" for j
    using of_nat64_eq [of "4096 * j" "4096 * i"] that assms(1) by simp
  then have "find (\<lambda>j. p2_addr s + of_nat (4096 * j) = p2_addr s + of_nat (4096 * i)) [0..<4] = Some i"
    using assms(1) by (auto simp: find_Some_iff simp del: of_nat_mult upt_rec_numeral intro!: exI [of _ i])
  then show ?thesis using assms(2) by (simp add: p2_of_def del: of_nat_mult upt_rec_numeral)
qed

lemma identity_walk:
  assumes "paging_boot s" "unat va < 2 ^ 47"
  shows "translate (init_identity_mapping s) va = (if unat va < 2 ^ 32 then Some va else None)"
proof -
  let ?k = "unat va" and ?s = "init_identity_mapping s"
  note st = init_identity_mapping_result [OF assms(1)]
  have al: "4096 dvd unat a" "unat a < 2 ^ 52" if "a = p4_addr s \<or> a = p3_addr s" for a using assms(1) that by (auto simp: paging_boot_def)
  have p2: "4096 dvd unat (p2_addr s + of_nat (4096 * i))" "unat (p2_addr s + of_nat (4096 * i)) < 2 ^ 52" if "i < 4" for i
  proof -
    have "unat (p2_addr s) + 4 * 4096 \<le> 2 ^ 52" "4096 dvd unat (p2_addr s)" using assms(1) by (auto simp: paging_boot_def)
    moreover from this have "unat (p2_addr s + of_nat (4096 * i)) = unat (p2_addr s) + 4096 * i"
      using unat_offset [of "p2_addr s" 0 "4096 * i"] that by simp
    ultimately show "4096 dvd unat (p2_addr s + of_nat (4096 * i))" "unat (p2_addr s + of_nat (4096 * i)) < 2 ^ 52"
      using that by simp_all
  qed
  have ix: "table_index 4 va = ?k div 2 ^ 39" "table_index 3 va = ?k div 2 ^ 30 mod 512" "table_index 2 va = ?k div 2 ^ 21 mod 512"
    using assms(2) by (simp_all add: table_index_div div_less_iff_less_mult)
  have e4: "entry_addr (cr3 ?s) = p4_addr ?s" using entry_addr_table(1) [OF al] by (simp add: st)
  show ?thesis
  proof (cases "?k < 2 ^ 39")
    case False
    then have "0 < ?k div 2 ^ 39" "?k div 2 ^ 39 < 512" using assms(2) by (simp_all add: div_less_iff_less_mult div_greater_zero_iff)
    then have "p4_table ?s ! table_index 4 va = 0" by (simp add: st ix nth_Cons' del: upt_rec_numeral)
    then show ?thesis using False e4 by (simp add: translate_def present_def)
  next
    case True
    then have i: "table_index 4 va = 0" "table_index 3 va = ?k div 2 ^ 30" by (simp_all add: ix div_less_iff_less_mult)
    have e3: "present (p4_table ?s ! table_index 4 va)" "entry_addr (p4_table ?s ! table_index 4 va) = p3_addr ?s"
      using entry_addr_table(2,4) [OF al] by (simp_all add: st i)
    show ?thesis
    proof (cases "?k < 2 ^ 32")
      case False
      then have "4 \<le> ?k div 2 ^ 30" "?k div 2 ^ 30 < 512" using True by (simp_all add: div_less_iff_less_mult less_eq_div_iff_mult_less_eq)
      then have "p3_table ?s ! table_index 3 va = 0" by (simp add: st i nth_append del: upt_rec_numeral)
      then show ?thesis using False e3 e4 by (simp add: translate_def present_def)
    next
      case True
      then have q: "?k div 2 ^ 30 < 4" by (simp add: div_less_iff_less_mult)
      let ?i = "?k div 2 ^ 30" and ?j = "?k div 2 ^ 21 mod 512"
      have t3: "p3_table ?s ! table_index 3 va = make_p3_entry (p2_addr s + of_nat (4096 * ?i))"
        using q by (simp add: st i nth_append del: upt_rec_numeral)
      have t2: "p2_of ?s (p2_addr s + of_nat (4096 * ?i)) = Some (p2_row ?i)"
        using p2_of_table [OF q, of ?s] q by (simp add: st del: upt_rec_numeral of_nat_mult)
      have "?i * 2 ^ 30 + ?j * 2 ^ 21 = ?k div 2 ^ 21 * 2 ^ 21"
      proof -
        have "?i = ?k div 2 ^ 21 div 512" by (simp add: div_mult2_eq [symmetric])
        moreover have "a * 512 + b = x \<Longrightarrow> a * 2 ^ 30 + b * 2 ^ 21 = x * 2 ^ 21" for a b x :: nat by simp
        ultimately show ?thesis using div_mult_mod_eq [of "?k div 2 ^ 21" 512] by metis
      qed
      then have "of_nat ?i * 2 ^ 30 + of_nat ?j * 2 ^ 21 = push_bit 21 (drop_bit 21 va)"
      proof -
        assume "?i * 2 ^ 30 + ?j * 2 ^ 21 = ?k div 2 ^ 21 * 2 ^ 21"
        then have "(of_nat (?i * 2 ^ 30 + ?j * 2 ^ 21) :: u64) = of_nat (?k div 2 ^ 21) * 2 ^ 21" by simp
        moreover have "of_nat (?k div 2 ^ 21) = drop_bit 21 va" 
          by (rule word_unat_eq_iff [THEN iffD2]) (use unat_less64 [of va] in \<open>simp add: drop_bit_eq_div unat_div unat_of_nat64\<close>)
        ultimately show ?thesis by (simp add: push_bit_eq_mult)
      qed
      then have t1: "p2_row ?i ! table_index 2 va = make_p2_entry_huge (push_bit 21 (drop_bit 21 va))"
        by (simp add: p2_row_def ix del: upt_rec_numeral)
      show ?thesis
        using True e3 e4 t3 t2 t1 entry_addr_table(3,5) [OF p2 [OF q]] p2_entry_maps [OF refl True]
        by (simp add: translate_def del: of_nat_mult)
    qed
  qed
qed


definition demo_paging :: paging where
  "demo_paging = \<lparr>p4_table = replicate 512 0, p3_table = replicate 512 0, p2_tables = replicate 4 (replicate 512 0),
     p4_addr = 0x101000, p3_addr = 0x102000, p2_addr = 0x103000, cr3 = 0\<rparr>"


end
