(* ===== verification/Context.thy ===== *)
theory Context
  imports Otrix_Prelude
begin

text \<open>
  The context switch and the interrupt entry: arch/x86_64/context.s, arch/x86_64/include/arch/context.h and
  arch/x86_64/interrupts.s.

  Each routine is the sequence of its instructions on a processor state with the registers it uses and the memory.
  A routine starts with the return address on the stack, where the call put it.
\<close>

subsection \<open>Instructions\<close>

record cpu =
  rax :: u64
  rbx :: u64
  rcx :: u64
  rdx :: u64
  rsi :: u64
  rdi :: u64
  rbp :: u64
  rsp :: u64
  r8 :: u64
  r9 :: u64
  r10 :: u64
  r11 :: u64
  r12 :: u64
  r13 :: u64
  r14 :: u64
  r15 :: u64
  rip :: u64
  eflags :: u64
  cpu_mem :: memory

definition mov_to :: "u64 \<Rightarrow> u64 \<Rightarrow> cpu \<Rightarrow> cpu" where
  "mov_to v a c = c\<lparr>cpu_mem := store64 a v (cpu_mem c)\<rparr>"

abbreviation mov_from :: "u64 \<Rightarrow> cpu \<Rightarrow> u64" where
  "mov_from a c \<equiv> load64 (cpu_mem c) a"

definition push :: "u64 \<Rightarrow> cpu \<Rightarrow> cpu" where
  "push v c = c\<lparr>rsp := rsp c - 8, cpu_mem := store64 (rsp c - 8) v (cpu_mem c)\<rparr>"

definition pop :: "cpu \<Rightarrow> u64 \<times> cpu" where
  "pop c = (load64 (cpu_mem c) (rsp c), c\<lparr>rsp := rsp c + 8\<rparr>)"

definition ret :: "cpu \<Rightarrow> cpu" where
  "ret c = (let (a, c) = pop c in c\<lparr>rip := a\<rparr>)"

definition popfq :: "cpu \<Rightarrow> cpu" where
  "popfq c = (let (f, c) = pop c in c\<lparr>eflags := f\<rparr>)"

definition iretq :: "cpu \<Rightarrow> cpu" where
  "iretq c = c\<lparr>rip := load64 (cpu_mem c) (rsp c), eflags := load64 (cpu_mem c) (rsp c + 16), rsp := load64 (cpu_mem c) (rsp c + 24)\<rparr>"

subsection \<open>The routines\<close>

text \<open>The first part of \<open>arch_context_switch\<close> saves to \<open>rdi\<close>, the second restores from \<open>rsi\<close>; the two other routines have one part each.\<close>

definition save_part :: "cpu \<Rightarrow> cpu" where
  "save_part c =
     (let c = mov_to (rbx c) (rdi c) c;
          c = mov_to (r12 c) (rdi c + 8) c;
          c = mov_to (r13 c) (rdi c + 16) c;
          c = mov_to (r14 c) (rdi c + 24) c;
          c = mov_to (r15 c) (rdi c + 32) c;
          c = push (eflags c) c;
          (v, c) = pop c;
          c = c\<lparr>rdx := v\<rparr>;
          c = mov_to (rdx c) (rdi c + 40) c;
          c = mov_to (rsp c) (rdi c + 48) c
      in mov_to (rbp c) (rdi c + 56) c)"

definition restore_part :: "u64 \<Rightarrow> cpu \<Rightarrow> cpu" where
  "restore_part p c =
     (let c = c\<lparr>rbx := mov_from p c\<rparr>;
          c = c\<lparr>r12 := mov_from (p + 8) c\<rparr>;
          c = c\<lparr>r13 := mov_from (p + 16) c\<rparr>;
          c = c\<lparr>r14 := mov_from (p + 24) c\<rparr>;
          c = c\<lparr>r15 := mov_from (p + 32) c\<rparr>;
          c = c\<lparr>rdx := mov_from (p + 40) c\<rparr>;
          c = push (rdx c) c;
          c = popfq c;
          c = c\<lparr>rsp := mov_from (p + 48) c\<rparr>
      in c\<lparr>rbp := mov_from (p + 56) c\<rparr>)"

definition arch_context_save :: "cpu \<Rightarrow> cpu" where
  "arch_context_save c = ret (save_part c)"

definition arch_context_restore :: "cpu \<Rightarrow> cpu" where
  "arch_context_restore c = ret (restore_part (rdi c) c)"

definition arch_context_switch :: "cpu \<Rightarrow> cpu" where
  "arch_context_switch c = (let c = save_part c in ret (restore_part (rsi c) c))"

definition arch_context_thread_entry :: "cpu \<Rightarrow> cpu" where
  "arch_context_thread_entry c = (let (v, c) = pop c; c = c\<lparr>rdi := v\<rparr> in ret c)"

text \<open>\<open>arch_context_setup\<close>; \<open>thread_entry\<close> is the address of \<open>arch_context_thread_entry\<close> and \<open>flags\<close> the current flags.\<close>

definition arch_context_setup :: "u64 \<Rightarrow> u64 \<Rightarrow> ptr \<Rightarrow> ptr \<Rightarrow> u64 \<Rightarrow> ptr \<Rightarrow> ptr \<Rightarrow> memory \<Rightarrow> memory" where
  "arch_context_setup thread_entry flags ctx stack stack_size entry thread_ctx m =
     (let m = write_bytes ctx (replicate 64 0) m;
          m = store64 (ctx + 40) flags m;
          stack_ptr = stack + stack_size - 8 * 3;
          m = store64 stack_ptr thread_entry m;
          m = store64 (stack_ptr + 8) thread_ctx m;
          m = store64 (stack_ptr + 16) entry m
      in store64 (ctx + 48) stack_ptr m)"

text \<open>The interrupt entry; \<open>call\<close> is the effect of calling \<open>irq_manager_irq_handler\<close>.\<close>

definition used_irq_handler :: "(cpu \<Rightarrow> cpu) \<Rightarrow> cpu \<Rightarrow> cpu" where
  "used_irq_handler call c =
     (let c = push (rax c) c;
          c = push (rcx c) c;
          c = push (rdx c) c;
          c = push (rdi c) c;
          c = push (rsi c) c;
          c = push (r8 c) c;
          c = push (r9 c) c;
          c = push (r10 c) c;
          c = push (r11 c) c;
          c = call c;
          (v, c) = pop c; c = c\<lparr>r11 := v\<rparr>;
          (v, c) = pop c; c = c\<lparr>r10 := v\<rparr>;
          (v, c) = pop c; c = c\<lparr>r9 := v\<rparr>;
          (v, c) = pop c; c = c\<lparr>r8 := v\<rparr>;
          (v, c) = pop c; c = c\<lparr>rsi := v\<rparr>;
          (v, c) = pop c; c = c\<lparr>rdi := v\<rparr>;
          (v, c) = pop c; c = c\<lparr>rdx := v\<rparr>;
          (v, c) = pop c; c = c\<lparr>rcx := v\<rparr>;
          (v, c) = pop c; c = c\<lparr>rax := v\<rparr>
      in iretq c)"

definition unused_irq_handler :: "cpu \<Rightarrow> cpu" where
  "unused_irq_handler c = iretq c"

subsection \<open>Saved contexts\<close>

text \<open>The context at \<open>p\<close> is that of a call made by \<open>c\<close>.\<close>

definition saved :: "memory \<Rightarrow> ptr \<Rightarrow> cpu \<Rightarrow> bool" where
  "saved m p c \<longleftrightarrow> load64 m p = rbx c \<and> load64 m (p + 8) = r12 c \<and> load64 m (p + 16) = r13 c \<and> load64 m (p + 24) = r14 c \<and>
     load64 m (p + 32) = r15 c \<and> load64 m (p + 40) = eflags c \<and> load64 m (p + 48) = rsp c \<and> load64 m (p + 56) = rbp c"

lemma load64_store64_apart:
  assumes "i + 8 \<le> j \<or> j + 8 \<le> i" "i < 2 ^ 32" "j < 2 ^ 32"
  shows "load64 (store64 (p + of_nat i) v m) (p + of_nat j) = load64 m (p + of_nat j)"
  by (rule load_store_apart) (use assms in \<open>simp add: apart_def\<close>)

lemma load64_apart_num [simp]:
  "numeral a + 8 \<le> (numeral b :: nat) \<or> numeral b + 8 \<le> (numeral a :: nat) \<Longrightarrow> numeral a < (2 ^ 32 :: nat) \<Longrightarrow> numeral b < (2 ^ 32 :: nat) \<Longrightarrow>
    load64 (store64 (p + numeral a) v m) (p + numeral b) = load64 m (p + numeral b)"
  "8 \<le> (numeral b :: nat) \<Longrightarrow> numeral b < (2 ^ 32 :: nat) \<Longrightarrow> load64 (store64 p v m) (p + numeral b) = load64 m (p + numeral b)"
  "8 \<le> (numeral a :: nat) \<Longrightarrow> numeral a < (2 ^ 32 :: nat) \<Longrightarrow> load64 (store64 (p + numeral a) v m) p = load64 m p"
  using load64_store64_apart [of "numeral a" "numeral b" p v m] load64_store64_apart [of 0 "numeral b" p v m]
    load64_store64_apart [of "numeral a" 0 p v m] by simp_all

lemma separate_part:
  assumes "separate p l a n" "k + w \<le> l" "0 < w" "l < 2 ^ 64"
  shows "separate (p + of_nat k) w a n"
proof -
  have pa: "p \<noteq> a" using assms by (auto simp: separate_def)
  have "l \<le> unat (a - p)" "n \<le> unat (p - a)" using assms(1) by (simp_all add: separate_def)
  moreover have "unat (p - a) + unat (a - p) = 2 ^ 64" using unat_diff_sum [of a p] pa by simp
  moreover have "unat (a - (p + of_nat k)) = unat (a - p) - k" using unat_minus_offset [of k a p] assms calculation(1) by simp
  moreover have "unat (p + of_nat k - a) = unat (p - a) + k" using unat_offset [of p a k] assms calculation by simp
  ultimately show ?thesis using assms by (simp add: separate_def)
qed

lemma load64_other: "separate a 8 b 8 \<Longrightarrow> load64 (store64 a v m) b = load64 m b"
  by (rule load64_store64_separate)

lemma read_store64_other: "separate a 8 b n \<Longrightarrow> read_bytes (store64 a v m) b n = read_bytes m b n"
  by (simp add: store64_def read_write_separate)

lemma load64_within:
  assumes "read_bytes m p n = read_bytes m' p n" "k + 8 \<le> n"
  shows "load64 m (p + of_nat k) = load64 m' (p + of_nat k)"
proof -
  have "read_bytes x (p + of_nat k) 8 = take 8 (drop k (read_bytes x p n))" for x
    using assms(2) by (simp add: drop_read_bytes take_read_bytes)
  then show ?thesis using assms(1) by (simp add: load64_def)
qed

lemma saved_cong:
  assumes "read_bytes m p 64 = read_bytes m' p 64"
  shows "saved m p c \<longleftrightarrow> saved m' p c"
proof -
  note l = load64_within [OF assms]
  show ?thesis
    using l [of 0] l [of 8] l [of 16] l [of 24] l [of 32] l [of 40] l [of 48] l [of 56] by (simp add: saved_def)
qed

text \<open>Where \<open>save_part\<close> writes: the context at \<open>rdi\<close> and the word below the stack pointer.\<close>

lemma save_part_saves:
  assumes "separate (rsp c - 8) 8 (rdi c) 64"
  shows "saved (cpu_mem (save_part c)) (rdi c) c"
proof -
  have "load64 (store64 (rsp c - 8) v m) (rdi c + of_nat k) = load64 m (rdi c + of_nat k)" if "k + 8 \<le> 64" for k v m
    by (rule load64_other) (use separate_part [of "rdi c" 64 "rsp c - 8" 8 k 8] that assms separate_sym in auto)
  from this [of 0] this [of 8] this [of 16] this [of 24] this [of 32]
  show ?thesis by (simp add: saved_def save_part_def mov_to_def push_def pop_def Let_def)
qed

lemma save_part_regs:
  "rsp (save_part c) = rsp c" "rsi (save_part c) = rsi c" "rdi (save_part c) = rdi c" "eflags (save_part c) = eflags c"
  by (simp_all add: save_part_def mov_to_def push_def pop_def Let_def)

lemma save_part_other:
  assumes "separate (rdi c) 64 a n" "separate (rsp c - 8) 8 a n"
  shows "read_bytes (cpu_mem (save_part c)) a n = read_bytes (cpu_mem c) a n"
proof -
  have "read_bytes (store64 (rdi c + of_nat k) v m) a n = read_bytes m a n" if "k + 8 \<le> 64" for k v m
    by (rule read_store64_other) (use separate_part [OF assms(1), of k 8] that in simp)
  from this [of 0] this [of 8] this [of 16] this [of 24] this [of 32] this [of 40] this [of 48] this [of 56]
  show ?thesis using read_store64_other [OF assms(2)] by (simp add: save_part_def mov_to_def push_def pop_def Let_def)
qed

lemma restore_part_restores:
  assumes "saved (cpu_mem d) p c" "separate (rsp d - 8) 8 p 64"
  shows "restore_part p d = d\<lparr>rbx := rbx c, r12 := r12 c, r13 := r13 c, r14 := r14 c, r15 := r15 c, rdx := eflags c, eflags := eflags c,
    rsp := rsp c, rbp := rbp c, cpu_mem := store64 (rsp d - 8) (eflags c) (cpu_mem d)\<rparr>"
proof -
  have "load64 (store64 (rsp d - 8) v m) (p + of_nat k) = load64 m (p + of_nat k)" if "k + 8 \<le> 64" for k v m
    by (rule load64_other) (use separate_part [of p 64 "rsp d - 8" 8 k 8] that assms(2) separate_sym in auto)
  from this [of 48] this [of 56] show ?thesis
    using assms(1) by (simp add: restore_part_def popfq_def pop_def push_def saved_def Let_def)
qed

lemma restore_part_mem: "\<exists>v. cpu_mem (restore_part q d) = store64 (rsp d - 8) v (cpu_mem d)"
  by (auto simp: restore_part_def popfq_def pop_def push_def Let_def)

lemma switch_leaves_saved:
  assumes "separate (rsp c - 8) 16 (rdi c) 64"
  shows "saved (cpu_mem (arch_context_switch c)) (rdi c) c" "load64 (cpu_mem (arch_context_switch c)) (rsp c) = load64 (cpu_mem c) (rsp c)"
proof -
  have s: "separate (rsp c - 8) 8 (rdi c) 64" "separate (rsp c) 8 (rdi c) 64"
    using separate_part [OF assms, of 0 8] separate_part [OF assms, of 8 8] by simp_all
  have rs: "separate (rsp c - 8) 8 (rsp c) 8" by (simp add: separate_def)
  obtain v where v: "cpu_mem (arch_context_switch c) = store64 (rsp c - 8) v (cpu_mem (save_part c))"
    using restore_part_mem [of "rsi (save_part c)" "save_part c"] by (auto simp: arch_context_switch_def ret_def pop_def save_part_regs Let_def)
  show "saved (cpu_mem (arch_context_switch c)) (rdi c) c"
    using save_part_saves [OF s(1)] saved_cong [OF read_store64_other [OF s(1), of v "cpu_mem (save_part c)"]] by (simp add: v)
  show "load64 (cpu_mem (arch_context_switch c)) (rsp c) = load64 (cpu_mem c) (rsp c)"
    using load64_other [OF rs] save_part_other [of c "rsp c" 8] s(2) rs separate_sym by (simp add: v load64_def read_store64_other [OF rs])
qed

text \<open>The stack and the context of a thread that is not running are left alone by the switch away from another one.\<close>

lemma switch_restores:
  assumes sv: "saved (cpu_mem d) p c" and p: "rsi d = p"
    and ctx: "separate (rdi d) 64 p 64" "separate (rsp d - 8) 8 p 64"
    and stk: "separate (rdi d) 64 (rsp c) 8" "separate (rsp d - 8) 8 (rsp c) 8"
  shows "\<exists>m. arch_context_switch d = (save_part d)\<lparr>rbx := rbx c, r12 := r12 c, r13 := r13 c, r14 := r14 c, r15 := r15 c, rdx := eflags c,
      eflags := eflags c, rsp := rsp c + 8, rbp := rbp c, cpu_mem := m, rip := load64 (cpu_mem d) (rsp c)\<rparr> \<and>
    (\<forall>a n. separate (rdi d) 64 a n \<and> separate (rsp d - 8) 8 a n \<longrightarrow> read_bytes m a n = read_bytes (cpu_mem d) a n)"
proof -
  define m where "m = store64 (rsp d - 8) (eflags c) (cpu_mem (save_part d))"
  have sv': "saved (cpu_mem (save_part d)) p c" using sv saved_cong [OF save_part_other [OF ctx]] by simp
  have "separate (rsp (save_part d) - 8) 8 p 64" using ctx(2) by (simp add: save_part_regs)
  note r = restore_part_restores [OF sv' this]
  have o: "read_bytes m a n = read_bytes (cpu_mem d) a n" if "separate (rdi d) 64 a n" "separate (rsp d - 8) 8 a n" for a n
    using that save_part_other [OF that] read_store64_other by (simp add: m_def)
  have "load64 m (rsp c) = load64 (cpu_mem d) (rsp c)" using o [OF stk] by (simp add: load64_def)
  then have "arch_context_switch d = (save_part d)\<lparr>rbx := rbx c, r12 := r12 c, r13 := r13 c, r14 := r14 c, r15 := r15 c, rdx := eflags c,
      eflags := eflags c, rsp := rsp c + 8, rbp := rbp c, cpu_mem := m, rip := load64 (cpu_mem d) (rsp c)\<rparr>"
    by (simp add: arch_context_switch_def p r ret_def pop_def save_part_regs m_def [symmetric])
  then show ?thesis using o by blast
qed

text \<open>
  C12. A thread that calls arch_context_switch continues, when another thread later switches to its context, right after its call:
  with the registers a function must preserve, the flags and the stack pointer it had, provided its context and the word with its
  return address were not changed in between and do not overlap what the other switch writes.
\<close>

theorem context_switch_resumes:
  assumes c: "rdi c = p" "separate (rsp c - 8) 16 p 64" and c1: "c1 = arch_context_switch c"
    and d: "rsi d = p" "read_bytes (cpu_mem d) p 64 = read_bytes (cpu_mem c1) p 64"
      "load64 (cpu_mem d) (rsp c) = load64 (cpu_mem c1) (rsp c)"
    and ctx: "separate (rdi d) 64 p 64" "separate (rsp d - 8) 8 p 64"
    and stk: "separate (rdi d) 64 (rsp c) 8" "separate (rsp d - 8) 8 (rsp c) 8"
    and e: "e = arch_context_switch d"
  shows "rip e = load64 (cpu_mem c) (rsp c) \<and> rsp e = rsp c + 8 \<and> rbx e = rbx c \<and> rbp e = rbp c \<and> r12 e = r12 c \<and> r13 e = r13 c \<and>
    r14 e = r14 c \<and> r15 e = r15 c \<and> eflags e = eflags c"
proof -
  have "saved (cpu_mem d) p c" using switch_leaves_saved(1) [of c] c c1 saved_cong [OF d(2)] by simp
  from switch_restores [OF this d(1) ctx stk] show ?thesis
    using d(3) switch_leaves_saved(2) [of c] c c1 e by auto
qed

text \<open>What \<open>arch_context_setup\<close> leaves in memory.\<close>

lemma le_word_zero: "le_word (replicate n 0) = 0"
  by (induction n) simp_all

lemma setup_memory:
  assumes sp: "sp = stack + n - 24" and own: "separate sp 24 p 64"
    and m': "m' = arch_context_setup te flags p stack n entry arg m"
  shows "load64 m' sp = te" "load64 m' (sp + 8) = arg" "load64 m' (sp + 16) = entry"
    "saved m' p (c\<lparr>rbx := 0, r12 := 0, r13 := 0, r14 := 0, r15 := 0, eflags := flags, rsp := sp, rbp := 0\<rparr>)"
proof -
  have z: "load64 (write_bytes p (replicate 64 0) m) (p + of_nat k) = 0" if "k + 8 \<le> 64" for k
    using that read_write_within [of k 8 "replicate 64 0" p m] by (simp add: load64_def le_word_zero)
  have s: "load64 (store64 (sp + of_nat i) v x) (p + of_nat k) = load64 x (p + of_nat k)"
      "load64 (store64 (p + of_nat k) v x) (sp + of_nat i) = load64 x (sp + of_nat i)" if "i + 8 \<le> 24" "k + 8 \<le> 64" for i k v x
  proof -
    have "separate (p + of_nat k) 8 sp 24" using separate_part [of p 64 sp 24 k 8] own that separate_sym by auto
    then have "separate (sp + of_nat i) 8 (p + of_nat k) 8" using separate_part [of sp 24 "p + of_nat k" 8 i 8] that separate_sym by auto
    then show "load64 (store64 (sp + of_nat i) v x) (p + of_nat k) = load64 x (p + of_nat k)"
        "load64 (store64 (p + of_nat k) v x) (sp + of_nat i) = load64 x (sp + of_nat i)"
      using load64_other separate_sym by metis+
  qed
  have d: "m' = store64 (p + 48) sp (store64 (sp + 16) entry (store64 (sp + 8) arg (store64 sp te (store64 (p + 40) flags (write_bytes p (replicate 64 0) m)))))"
    by (simp add: m' arch_context_setup_def sp Let_def)
  note s0 = s [of 0] and s1 = s [of 8] and s2 = s [of 16]
  show "load64 m' sp = te" "load64 m' (sp + 8) = arg" "load64 m' (sp + 16) = entry"
    using s0(2) [of 48] s1(2) [of 48] s2(2) [of 48] by (simp_all add: d)
  show "saved m' p (c\<lparr>rbx := 0, r12 := 0, r13 := 0, r14 := 0, r15 := 0, eflags := flags, rsp := sp, rbp := 0\<rparr>)"
    using s0(1) [of 0] s1(1) [of 0] s2(1) [of 0] s0(1) [of 8] s1(1) [of 8] s2(1) [of 8] s0(1) [of 16] s1(1) [of 16] s2(1) [of 16]
      s0(1) [of 24] s1(1) [of 24] s2(1) [of 24] s0(1) [of 32] s1(1) [of 32] s2(1) [of 32] s0(1) [of 40] s1(1) [of 40] s2(1) [of 40]
      s0(1) [of 56] s1(1) [of 56] s2(1) [of 56] z [of 0] z [of 8] z [of 16] z [of 24] z [of 32] z [of 56]
    by (simp add: d saved_def)
qed

text \<open>
  C35. The first switch to a thread prepared with arch_context_setup enters its function: the switch goes to the thread entry stub
  with the flags of the setup, and the stub to the function, with its argument and with the stack pointer at the end of the stack.
\<close>

theorem context_setup_enters:
  assumes m: "cpu_mem d = arch_context_setup te flags p stack n entry arg m" and p: "rsi d = p" and sp: "sp = stack + n - 24"
    and own: "separate sp 24 p 64"
    and ctx: "separate (rdi d) 64 p 64" "separate (rsp d - 8) 8 p 64"
    and stk: "separate (rdi d) 64 sp 24" "separate (rsp d - 8) 8 sp 24"
    and e: "e = arch_context_switch d" and f: "f = arch_context_thread_entry e"
  shows "rip e = te \<and> eflags e = flags \<and> rip f = entry \<and> rdi f = arg \<and> rsp f = stack + n"
proof -
  define c where "c = d\<lparr>rbx := 0, r12 := 0, r13 := 0, r14 := 0, r15 := 0, eflags := flags, rsp := sp, rbp := 0\<rparr>"
  note su = setup_memory [OF sp own m]
  have "separate (rdi d) 64 (rsp c) 8" "separate (rsp d - 8) 8 (rsp c) 8"
    using separate_part [of sp 24 "rdi d" 64 0 8] separate_part [of sp 24 "rsp d - 8" 8 0 8] stk separate_sym by (auto simp: c_def)
  from switch_restores [OF su(4) [of d, folded c_def] p ctx this]
  obtain m' where s: "arch_context_switch d = (save_part d)\<lparr>rbx := rbx c, r12 := r12 c, r13 := r13 c, r14 := r14 c, r15 := r15 c,
      rdx := eflags c, eflags := eflags c, rsp := rsp c + 8, rbp := rbp c, cpu_mem := m', rip := load64 (cpu_mem d) (rsp c)\<rparr>"
    and o: "read_bytes m' sp 24 = read_bytes (cpu_mem d) sp 24"
    using stk by blast
  have "load64 m' (sp + 8) = arg" "load64 m' (sp + 16) = entry"
    using load64_within [OF o, of 8] load64_within [OF o, of 16] su(2,3) by simp_all
  then show ?thesis
    using su(1) sp by (simp add: e f s arch_context_thread_entry_def pop_def ret_def c_def)
qed

subsection \<open>The interrupt entry\<close>

text \<open>The memory after pushing a list of words.\<close>

primrec stk :: "u64 list \<Rightarrow> u64 \<Rightarrow> memory \<Rightarrow> memory" where
  "stk [] sp m = m"
| "stk (v # vs) sp m = stk vs (sp - 8) (store64 (sp - 8) v m)"

lemma fold_push: "fold push vs c = c\<lparr>rsp := rsp c - 8 * of_nat (length vs), cpu_mem := stk vs (rsp c) (cpu_mem c)\<rparr>"
  by (induction vs arbitrary: c) (simp_all add: push_def algebra_simps)

lemma stk_above:
  assumes "j + 8 * length vs < 2 ^ 32"
  shows "load64 (stk vs sp m) (sp + of_nat j) = load64 m (sp + of_nat j)"
  using assms
proof (induction vs arbitrary: sp m j)
  case (Cons v vs)
  have a: "sp - 8 + of_nat (j + 8) = sp + of_nat j" by simp
  have "load64 (stk vs (sp - 8) (store64 (sp - 8) v m)) (sp - 8 + of_nat (j + 8)) = load64 (store64 (sp - 8) v m) (sp - 8 + of_nat (j + 8))"
    by (rule Cons.IH) (use Cons.prems in simp)
  also have "\<dots> = load64 m (sp - 8 + of_nat (j + 8))"
    using load64_store64_apart [of 0 "j + 8" "sp - 8" v m] Cons.prems by simp
  finally show ?case unfolding a by simp
qed simp

lemma stk_nth:
  assumes "i < length vs" "8 * length vs < 2 ^ 32"
  shows "load64 (stk vs sp m) (sp - 8 * of_nat (Suc i)) = vs ! i"
  using assms
proof (induction vs arbitrary: sp m i)
  case (Cons v vs)
  show ?case
  proof (cases i)
    case 0
    then show ?thesis using stk_above [of 0 vs "sp - 8" "store64 (sp - 8) v m"] Cons.prems by simp
  next
    case (Suc k)
    have e: "sp - 8 * of_nat (Suc (Suc k)) = sp - 8 - 8 * of_nat (Suc k)" by (simp add: algebra_simps)
    show ?thesis unfolding Suc e using Cons.IH [of k "sp - 8"] Cons.prems Suc by (simp del: of_nat_Suc)
  qed
qed simp

text \<open>
  C13. An interrupt is invisible to the program it interrupts: when the called handler leaves the stack above its frame and the registers a
  function must preserve as they were, the interrupt entry returns to the interrupted instruction with its stack pointer, its flags
  and all sixteen registers unchanged. The processor has pushed the return frame of five words at the stack pointer.
\<close>

theorem irq_entry_transparent:
  assumes frame: "load64 (cpu_mem c) (rsp c) = pc" "load64 (cpu_mem c) (rsp c + 16) = fl" "load64 (cpu_mem c) (rsp c + 24) = sp"
    and b: "b = fold push [rax c, rcx c, rdx c, rdi c, rsi c, r8 c, r9 c, r10 c, r11 c] c" and d: "d = call b"
    and abi: "rsp d = rsp b" "read_bytes (cpu_mem d) (rsp b) 112 = read_bytes (cpu_mem b) (rsp b) 112"
      "rbx d = rbx b" "rbp d = rbp b" "r12 d = r12 b" "r13 d = r13 b" "r14 d = r14 b" "r15 d = r15 b"
    and e: "e = used_irq_handler call c"
  shows "rip e = pc \<and> eflags e = fl \<and> rsp e = sp \<and> rax e = rax c \<and> rbx e = rbx c \<and> rcx e = rcx c \<and> rdx e = rdx c \<and> rsi e = rsi c \<and>
    rdi e = rdi c \<and> rbp e = rbp c \<and> r8 e = r8 c \<and> r9 e = r9 c \<and> r10 e = r10 c \<and> r11 e = r11 c \<and> r12 e = r12 c \<and> r13 e = r13 c \<and>
    r14 e = r14 c \<and> r15 e = r15 c"
proof -
  define vs where "vs = [rax c, rcx c, rdx c, rdi c, rsi c, r8 c, r9 c, r10 c, r11 c]"
  have len: "length vs = 9" by (simp add: vs_def)
  have bb: "b = c\<lparr>rsp := rsp c - 72, cpu_mem := stk vs (rsp c) (cpu_mem c)\<rparr>" unfolding b vs_def [symmetric] fold_push by (simp add: len)
  have ad: "rsp b + of_nat (72 - 8 * (i + 1)) = rsp c - 8 * of_nat (Suc i)" if "i < 9" for i
    using that by (simp add: bb of_nat_diff algebra_simps)
  have pushed: "load64 (cpu_mem b) (rsp b + of_nat (72 - 8 * (i + 1))) = vs ! i" if "i < 9" for i
    unfolding ad [OF that] using stk_nth [of i vs "rsp c" "cpu_mem c"] that by (simp add: bb len del: of_nat_Suc)
  have fr: "load64 (cpu_mem b) (rsp b + of_nat (72 + j)) = load64 (cpu_mem c) (rsp c + of_nat j)" if "j < 40" for j
    using stk_above [of j vs "rsp c" "cpu_mem c"] that by (simp add: bb len)
  have ld: "load64 (cpu_mem d) (rsp b + of_nat k) = load64 (cpu_mem b) (rsp b + of_nat k)" if "k + 8 \<le> 112" for k
    by (rule load64_within [OF abi(2) that])
  have popped: "load64 (cpu_mem d) (rsp b + of_nat (72 - 8 * (i + 1))) = vs ! i" if "i < 9" for i
    using ld [of "72 - 8 * (i + 1)"] pushed [OF that] that by simp
  have regs: "load64 (cpu_mem d) (rsp b + 64) = rax c" "load64 (cpu_mem d) (rsp b + 56) = rcx c" "load64 (cpu_mem d) (rsp b + 48) = rdx c"
      "load64 (cpu_mem d) (rsp b + 40) = rdi c" "load64 (cpu_mem d) (rsp b + 32) = rsi c" "load64 (cpu_mem d) (rsp b + 24) = r8 c"
      "load64 (cpu_mem d) (rsp b + 16) = r9 c" "load64 (cpu_mem d) (rsp b + 8) = r10 c" "load64 (cpu_mem d) (rsp b) = r11 c"
    using popped [of 0] popped [of 1] popped [of 2] popped [of 3] popped [of 4] popped [of 5] popped [of 6] popped [of 7] popped [of 8]
    by (simp_all add: vs_def)
  have frs: "load64 (cpu_mem d) (rsp b + 72) = pc" "load64 (cpu_mem d) (rsp b + 88) = fl" "load64 (cpu_mem d) (rsp b + 96) = sp"
    using ld [of 72] ld [of 88] ld [of 96] fr [of 0] fr [of 16] fr [of 24] frame by simp_all
  have ps: "used_irq_handler call c =
      (let c = d; (v, c) = pop c; c = c\<lparr>r11 := v\<rparr>; (v, c) = pop c; c = c\<lparr>r10 := v\<rparr>; (v, c) = pop c; c = c\<lparr>r9 := v\<rparr>;
         (v, c) = pop c; c = c\<lparr>r8 := v\<rparr>; (v, c) = pop c; c = c\<lparr>rsi := v\<rparr>; (v, c) = pop c; c = c\<lparr>rdi := v\<rparr>;
         (v, c) = pop c; c = c\<lparr>rdx := v\<rparr>; (v, c) = pop c; c = c\<lparr>rcx := v\<rparr>; (v, c) = pop c; c = c\<lparr>rax := v\<rparr> in iretq c)"
    unfolding used_irq_handler_def Let_def d b by (simp add: push_def)
  have cb: "rbx b = rbx c" "rbp b = rbp c" "r12 b = r12 c" "r13 b = r13 c" "r14 b = r14 c" "r15 b = r15 c" by (simp_all add: bb)
  show ?thesis
    unfolding e ps using regs frs abi(1,3-) cb by (simp add: pop_def iretq_def Let_def add.commute [of "numeral _"])
qed

subsection \<open>Concrete runs\<close>

definition demo_cpu :: "u64 \<Rightarrow> u64 \<Rightarrow> memory \<Rightarrow> cpu" where
  "demo_cpu p q m = \<lparr>rax = 1, rbx = 2, rcx = 3, rdx = 4, rsi = q, rdi = p, rbp = 5, rsp = 0x8000 + p, r8 = 6, r9 = 7, r10 = 8, r11 = 9,
     r12 = 10, r13 = 11, r14 = 12, r15 = 13, rip = 0x400, eflags = 0x2, cpu_mem = m\<rparr>"

theorem context_switch_resumes_witness:
  "\<exists>c1 e. c1 = arch_context_switch (demo_cpu 0x1000 0x2000 (store64 0x9000 0x77 (\<lambda>_. 0))) \<and>
    e = arch_context_switch (demo_cpu 0x2000 0x1000 (cpu_mem c1)) \<and>
    rip e = 0x77 \<and> rsp e = 0x9008 \<and> rbx e = 2 \<and> rbp e = 5 \<and> r12 e = 10 \<and> eflags e = 2"
proof -
  define c where "c = demo_cpu 0x1000 0x2000 (store64 0x9000 0x77 (\<lambda>_. 0))"
  define d where "d = demo_cpu 0x2000 0x1000 (cpu_mem (arch_context_switch c))"
  have c: "rdi c = 0x1000" "rsp c = 0x9000" "load64 (cpu_mem c) 0x9000 = 0x77" "rbx c = 2" "rbp c = 5" "r12 c = 10" "eflags c = 2"
    by (simp_all add: c_def demo_cpu_def)
  have d: "rdi d = 0x2000" "rsi d = 0x1000" "rsp d = 0xa000" "cpu_mem d = cpu_mem (arch_context_switch c)" by (simp_all add: d_def demo_cpu_def)
  show ?thesis
    using context_switch_resumes [of c "0x1000" _ d, OF _ _ refl] c unfolding c_def [symmetric]
    by (simp add: d separate_def flip: d_def)
qed

theorem context_setup_enters_witness:
  "\<exists>e. e = arch_context_switch (demo_cpu 0x2000 0x1000 (arch_context_setup 0x500 0x2 0x1000 0x4000 0x100 0x600 0x700 (\<lambda>_. 0))) \<and>
    rip e = 0x500 \<and> eflags e = 2 \<and> rip (arch_context_thread_entry e) = 0x600 \<and> rdi (arch_context_thread_entry e) = 0x700 \<and>
    rsp (arch_context_thread_entry e) = 0x4100"
proof -
  define m where "m = arch_context_setup 0x500 0x2 0x1000 0x4000 0x100 0x600 0x700 (\<lambda>_. 0)"
  define d where "d = demo_cpu 0x2000 0x1000 m"
  have d: "rdi d = 0x2000" "rsi d = 0x1000" "rsp d = 0xa000" "cpu_mem d = m" by (simp_all add: d_def demo_cpu_def)
  have "cpu_mem d = arch_context_setup 0x500 0x2 0x1000 0x4000 0x100 0x600 0x700 (\<lambda>_. 0)" "0x40e8 = (0x4000 + 0x100 - 24 :: u64)"
      "separate 0x40e8 24 0x1000 64" "separate (rdi d) 64 0x1000 64" "separate (rsp d - 8) 8 0x1000 64" "separate (rdi d) 64 0x40e8 24"
      "separate (rsp d - 8) 8 0x40e8 24"
    by (simp_all add: d(1,3,4) m_def [symmetric] separate_def)
  from context_setup_enters [OF this(1) d(2) this(2-) refl refl] show ?thesis unfolding m_def [symmetric] d_def [symmetric] by simp
qed

theorem irq_entry_transparent_witness:
  "\<exists>c e. c = demo_cpu 0x1000 0x2000 (store64 0x9000 0x77 (store64 0x9010 0x202 (store64 0x9018 0xa000 (\<lambda>_. 0)))) \<and>
    e = used_irq_handler (\<lambda>c. c\<lparr>rax := 0, rcx := 0, r11 := 0, rip := 0\<rparr>) c \<and>
    rip e = 0x77 \<and> eflags e = 0x202 \<and> rsp e = 0xa000 \<and> rax e = 1 \<and> rcx e = 3 \<and> r11 e = 9"
proof -
  define m where "m = store64 0x9000 0x77 (store64 0x9010 0x202 (store64 0x9018 0xa000 (\<lambda>_. 0)))"
  define c where "c = demo_cpu 0x1000 0x2000 m"
  have m: "load64 m 0x9000 = 0x77" "load64 m 0x9010 = 0x202" "load64 m 0x9018 = 0xa000"
    by (simp_all add: m_def load64_store64_separate separate_def)
  have c: "rsp c = 0x9000" "cpu_mem c = m" "rax c = 1" "rcx c = 3" "r11 c = 9" by (simp_all add: c_def demo_cpu_def)
  define call where "call = (\<lambda>c :: cpu. c\<lparr>rax := 0, rcx := 0, r11 := 0, rip := 0\<rparr>)"
  define b where "b = fold push [rax c, rcx c, rdx c, rdi c, rsi c, r8 c, r9 c, r10 c, r11 c] c"
  have k: "rsp (call b) = rsp b" "read_bytes (cpu_mem (call b)) (rsp b) 112 = read_bytes (cpu_mem b) (rsp b) 112" "rbx (call b) = rbx b"
      "rbp (call b) = rbp b" "r12 (call b) = r12 b" "r13 (call b) = r13 b" "r14 (call b) = r14 b" "r15 (call b) = r15 b"
    by (simp_all add: call_def)
  have l: "load64 (cpu_mem c) (rsp c) = 0x77" "load64 (cpu_mem c) (rsp c + 16) = 0x202" "load64 (cpu_mem c) (rsp c + 24) = 0xa000"
    by (simp_all add: c m)
  show ?thesis
    using irq_entry_transparent [where call = call, OF l b_def refl k refl] unfolding m_def [symmetric] c_def [symmetric] call_def [symmetric] c(3-) by blast
qed

end
