(* ===== verification/Pci.thy ===== *)
theory Pci
  imports Interrupts
begin

text \<open>
  PCI configuration space and devices: dev/pci.cpp and dev/include/dev/pci.hpp.

  Configuration accesses go through the ports of the host bridge. The MSI-X table is in memory. \<open>None\<close> is a loop over the capabilities
  that does not end. A device found on the bus is a value of the record \<open>pci_dev\<close>; the descriptors hold it once it is created.
\<close>

subsection \<open>Configuration space\<close>

definition PCI_CFG_ADDR :: u16 where "PCI_CFG_ADDR = 0xCF8"
definition PCI_CFG_DATA :: u16 where "PCI_CFG_DATA = 0xCFC"
definition PCI_CFG_ADDR_ENABLE :: u32 where "PCI_CFG_ADDR_ENABLE = push_bit 31 1"

definition PCI_CFG_BUS_NUMBER :: "u8 \<Rightarrow> u32" where
  "PCI_CFG_BUS_NUMBER bus = push_bit 16 (ucast bus AND 0xFF)"

definition PCI_CFG_DEV_NUMBER :: "u8 \<Rightarrow> u32" where
  "PCI_CFG_DEV_NUMBER d = push_bit 11 (ucast d AND 0x1F)"

definition PCI_CFG_FUN_NUMBER :: "u8 \<Rightarrow> u32" where
  "PCI_CFG_FUN_NUMBER f = push_bit 8 (ucast f AND 0x03)"

definition PCI_CFG_REG_NUMBER :: "u8 \<Rightarrow> u32" where
  "PCI_CFG_REG_NUMBER reg = ucast reg AND 0xFC"

definition PCI_CFG_REG :: "u8 \<Rightarrow> u8 \<Rightarrow> u8 \<Rightarrow> u8 \<Rightarrow> u32" where
  "PCI_CFG_REG bus d f reg =
     PCI_CFG_ADDR_ENABLE OR PCI_CFG_BUS_NUMBER bus OR PCI_CFG_DEV_NUMBER d OR PCI_CFG_FUN_NUMBER f OR PCI_CFG_REG_NUMBER reg"

definition PCI_REG_DEVICE_ID :: "u32 \<Rightarrow> u16" where
  "PCI_REG_DEVICE_ID reg = ucast (drop_bit 16 (reg AND 0xFFFF0000))"

definition PCI_REG_VENDOR_ID :: "u32 \<Rightarrow> u16" where
  "PCI_REG_VENDOR_ID reg = ucast (reg AND 0x0000FFFF)"

definition PCI_REG_ILLEGAL_VENDOR :: u16 where "PCI_REG_ILLEGAL_VENDOR = 0xFFFF"

definition PCI_REG_STATUS :: "u32 \<Rightarrow> u16" where
  "PCI_REG_STATUS reg = ucast (drop_bit 16 (reg AND 0xFFFF0000))"

definition PCI_REG_STATUS_CAPLIST :: u16 where "PCI_REG_STATUS_CAPLIST = push_bit 4 1"

definition PCI_REG_GET_CAP_PTR :: "u32 \<Rightarrow> u8" where
  "PCI_REG_GET_CAP_PTR reg = ucast (reg AND 0x000000FC)"

definition PCI_CAP_ID_MSIX :: u8 where "PCI_CAP_ID_MSIX = 0x11"
definition PCI_REG_DEVICE_VENDOR :: u8 where "PCI_REG_DEVICE_VENDOR = 0x00"
definition PCI_REG_STATUS_COMMAND :: u8 where "PCI_REG_STATUS_COMMAND = 0x04"
definition PCI_REG_BAR0 :: u8 where "PCI_REG_BAR0 = 0x10"
definition PCI_REG_CAP_PTR :: u8 where "PCI_REG_CAP_PTR = 0x34"
definition PCI_ADDR_MAX_DEVICES :: nat where "PCI_ADDR_MAX_DEVICES = 0x1F"
definition PCI_ADDR_MAX_BUSES :: nat where "PCI_ADDR_MAX_BUSES = 0xFF"

definition pci_config_read32 :: "u8 \<Rightarrow> u8 \<Rightarrow> u8 \<Rightarrow> u8 \<Rightarrow> 'z hw_scheme \<Rightarrow> u32 \<times> 'z hw_scheme" where
  "pci_config_read32 bus d f reg h =
     (let (flags, h) = arch_irq_save h;
          h = arch_io_write32 PCI_CFG_ADDR (PCI_CFG_REG bus d f reg) h;
          (v, h) = arch_io_read32 PCI_CFG_DATA h
      in (v, arch_irq_restore flags h))"

definition pci_config_read16 :: "u8 \<Rightarrow> u8 \<Rightarrow> u8 \<Rightarrow> u8 \<Rightarrow> 'z hw_scheme \<Rightarrow> u16 \<times> 'z hw_scheme" where
  "pci_config_read16 bus d f addr h =
     (let aligned_addr = addr AND NOT 0x03;
          (data, h) = pci_config_read32 bus d f aligned_addr h
      in (ucast (drop_bit (unat (addr AND 0x01) * 16) data AND 0xFFFF), h))"

definition pci_config_read8 :: "u8 \<Rightarrow> u8 \<Rightarrow> u8 \<Rightarrow> u8 \<Rightarrow> 'z hw_scheme \<Rightarrow> u8 \<times> 'z hw_scheme" where
  "pci_config_read8 bus d f addr h =
     (let aligned_addr = addr AND NOT 0x03;
          (data, h) = pci_config_read32 bus d f aligned_addr h
      in (ucast (drop_bit (unat (addr AND 0x03) * 8) data AND 0xFF), h))"

definition pci_config_write32 :: "u8 \<Rightarrow> u8 \<Rightarrow> u8 \<Rightarrow> u8 \<Rightarrow> u32 \<Rightarrow> 'z hw_scheme \<Rightarrow> 'z hw_scheme" where
  "pci_config_write32 bus d f reg val h =
     (let (flags, h) = arch_irq_save h;
          h = arch_io_write32 PCI_CFG_ADDR (PCI_CFG_REG bus d f reg) h;
          h = arch_io_write32 PCI_CFG_DATA val h
      in arch_irq_restore flags h)"

definition pci_config_write16 :: "u8 \<Rightarrow> u8 \<Rightarrow> u8 \<Rightarrow> u8 \<Rightarrow> u16 \<Rightarrow> 'z hw_scheme \<Rightarrow> 'z hw_scheme" where
  "pci_config_write16 bus d f addr val h =
     (let aligned_addr = addr AND NOT 0x03;
          (data, h) = pci_config_read32 bus d f aligned_addr h
      in pci_config_write32 bus d f aligned_addr
           ((data AND NOT (push_bit (unat (addr AND 0x01) * 16) 0xffff)) OR push_bit (unat (addr AND 0x01) * 16) (ucast val)) h)"

definition pci_config_write8 :: "u8 \<Rightarrow> u8 \<Rightarrow> u8 \<Rightarrow> u8 \<Rightarrow> u8 \<Rightarrow> 'z hw_scheme \<Rightarrow> 'z hw_scheme" where
  "pci_config_write8 bus d f addr val h =
     (let aligned_addr = addr AND NOT 0x03;
          (data, h) = pci_config_read32 bus d f aligned_addr h
      in pci_config_write32 bus d f aligned_addr
           ((data AND NOT (push_bit (unat (addr AND 0x03) * 8) 0xff)) OR push_bit (unat (addr AND 0x03) * 8) (ucast val)) h)"

subsection \<open>Devices\<close>

definition MAX_CAPABILITIES :: nat where "MAX_CAPABILITIES = 16"
definition NUM_BARS :: nat where "NUM_BARS = 6"

record pci_dev =
  pci_bus :: u8
  pci_slot :: u8
  pci_function :: u8
  device_id :: u16
  vendor_id :: u16
  capabilities :: "(u8 \<times> u8) list"
  bars :: "u32 list"
  msix_table :: ptr
  msix_table_size :: u16

definition pci_bar :: "pci_dev \<Rightarrow> u32 \<Rightarrow> u32" where
  "pci_bar p num = (if num < 6 then bars p ! unat num else 0)"

definition cfg_read8 :: "pci_dev \<Rightarrow> u8 \<Rightarrow> 'z hw_scheme \<Rightarrow> u8 \<times> 'z hw_scheme" where
  "cfg_read8 p reg h = pci_config_read8 (pci_bus p) (pci_slot p) (pci_function p) reg h"

definition cfg_read16 :: "pci_dev \<Rightarrow> u8 \<Rightarrow> 'z hw_scheme \<Rightarrow> u16 \<times> 'z hw_scheme" where
  "cfg_read16 p reg h = pci_config_read16 (pci_bus p) (pci_slot p) (pci_function p) reg h"

definition cfg_read32 :: "pci_dev \<Rightarrow> u8 \<Rightarrow> 'z hw_scheme \<Rightarrow> u32 \<times> 'z hw_scheme" where
  "cfg_read32 p reg h = pci_config_read32 (pci_bus p) (pci_slot p) (pci_function p) reg h"

definition cfg_write8 :: "pci_dev \<Rightarrow> u8 \<Rightarrow> u8 \<Rightarrow> 'z hw_scheme \<Rightarrow> 'z hw_scheme" where
  "cfg_write8 p reg v h = pci_config_write8 (pci_bus p) (pci_slot p) (pci_function p) reg v h"

definition cfg_write16 :: "pci_dev \<Rightarrow> u8 \<Rightarrow> u16 \<Rightarrow> 'z hw_scheme \<Rightarrow> 'z hw_scheme" where
  "cfg_write16 p reg v h = pci_config_write16 (pci_bus p) (pci_slot p) (pci_function p) reg v h"

definition cfg_write32 :: "pci_dev \<Rightarrow> u8 \<Rightarrow> u32 \<Rightarrow> 'z hw_scheme \<Rightarrow> 'z hw_scheme" where
  "cfg_write32 p reg v h = pci_config_write32 (pci_bus p) (pci_slot p) (pci_function p) reg v h"

text \<open>The loop of \<open>read_capabilities\<close> at index \<open>cap\<close> with the offset \<open>next\<close>.\<close>

partial_function (option) read_capabilities_loop :: "nat \<Rightarrow> u8 \<Rightarrow> pci_dev \<Rightarrow> 'z hw_scheme \<Rightarrow> (pci_dev \<times> 'z hw_scheme) option" where
  "read_capabilities_loop cap off p h =
     (let (cap_id, h) = cfg_read8 p off h;
          p = p\<lparr>capabilities := (capabilities p)[cap := (cap_id, off)]\<rparr>;
          (off, h) = cfg_read8 p (off + 1) h;
          cap = (if cap_id \<noteq> 0 then cap + 1 else cap)
      in if off \<noteq> 0 \<and> cap < MAX_CAPABILITIES then read_capabilities_loop cap off p h else Some (p, h))"

definition read_capabilities :: "pci_dev \<Rightarrow> 'z hw_scheme \<Rightarrow> (pci_dev \<times> 'z hw_scheme) option" where
  "read_capabilities p h =
     (let (v, h) = cfg_read32 p PCI_REG_CAP_PTR h in read_capabilities_loop 0 (PCI_REG_GET_CAP_PTR v) p h)"

definition get_cap :: "pci_dev \<Rightarrow> u8 \<Rightarrow> u8" where
  "get_cap p cap_id = (case find (\<lambda>c. fst c = cap_id) (capabilities p) of Some c \<Rightarrow> snd c | None \<Rightarrow> 0)"

text \<open>The base address registers, from number \<open>i\<close> on.\<close>

primrec read_bars :: "nat list \<Rightarrow> pci_dev \<Rightarrow> 'z hw_scheme \<Rightarrow> pci_dev \<times> 'z hw_scheme" where
  "read_bars [] p h = (p, h)"
| "read_bars (i # is) p h =
     (let (v, h) = cfg_read32 p (PCI_REG_BAR0 + of_nat (i * 4)) h;
          v = (if v AND 1 \<noteq> 0 then v AND 0xFFFC else v)
      in read_bars is (p\<lparr>bars := (bars p)[i := v]\<rparr>) h)"

definition pci_dev_new :: "u8 \<Rightarrow> u8 \<Rightarrow> u8 \<Rightarrow> u16 \<Rightarrow> u16 \<Rightarrow> 'z hw_scheme \<Rightarrow> (pci_dev \<times> 'z hw_scheme) option" where
  "pci_dev_new bus d f did vid h =
     (let p = \<lparr>pci_bus = bus, pci_slot = d, pci_function = f, device_id = did, vendor_id = vid,
            capabilities = replicate MAX_CAPABILITIES (0, 0), bars = replicate NUM_BARS 0, msix_table = NULL, msix_table_size = 0\<rparr>;
          (p, h) = read_bars [0..<NUM_BARS] p h;
          (v, h) = cfg_read32 p PCI_REG_STATUS_COMMAND h
      in if PCI_REG_STATUS v AND PCI_REG_STATUS_CAPLIST \<noteq> 0 then read_capabilities p h else Some (p, h))"

record descriptor_t =
  target_device_id :: u16
  target_vendor_id :: u16
  p_dev :: "pci_dev option"

text \<open>The search of the targets for the ids read at one slot, and the two loops over the buses and slots.\<close>

primrec match_target ::
  "u8 \<Rightarrow> u8 \<Rightarrow> u16 \<Rightarrow> u16 \<Rightarrow> descriptor_t list \<Rightarrow> 'z hw_scheme \<Rightarrow> (descriptor_t list \<times> 'z hw_scheme) option" where
  "match_target bus d did vid [] h = Some ([], h)"
| "match_target bus d did vid (t # ts) h =
     (if did = target_device_id t \<and> vid = target_vendor_id t then
        if p_dev t = None then do {
          (p, h) \<leftarrow> pci_dev_new bus d 0 did vid h;
          Some (t\<lparr>p_dev := Some p\<rparr> # ts, h)
        } else Some (t # ts, h)
      else do {
        (ts, h) \<leftarrow> match_target bus d did vid ts h;
        Some (t # ts, h)
      })"

definition probe_slot :: "nat \<Rightarrow> nat \<Rightarrow> descriptor_t list \<Rightarrow> 'z hw_scheme \<Rightarrow> (descriptor_t list \<times> 'z hw_scheme) option" where
  "probe_slot bus d ts h =
     (let (dev_vend, h) = pci_config_read32 (of_nat bus) (of_nat d) 0 PCI_REG_DEVICE_VENDOR h
      in if PCI_REG_VENDOR_ID dev_vend = PCI_REG_ILLEGAL_VENDOR then Some (ts, h)
         else match_target (of_nat bus) (of_nat d) (PCI_REG_DEVICE_ID dev_vend) (PCI_REG_VENDOR_ID dev_vend) ts h)"

primrec probe_slots :: "(nat \<times> nat) list \<Rightarrow> descriptor_t list \<Rightarrow> 'z hw_scheme \<Rightarrow> (descriptor_t list \<times> 'z hw_scheme) option" where
  "probe_slots [] ts h = Some (ts, h)"
| "probe_slots (s # ss) ts h = do { (ts, h) \<leftarrow> probe_slot (fst s) (snd s) ts h; probe_slots ss ts h }"

definition find_devices :: "descriptor_t list \<Rightarrow> 'z hw_scheme \<Rightarrow> (kerror_t \<times> descriptor_t list \<times> 'z hw_scheme) option" where
  "find_devices targets h =
     (if targets = [] then Some (E_INVAL, targets, h)
      else do {
        (ts, h) \<leftarrow> probe_slots (List.product [0..<PCI_ADDR_MAX_BUSES - 1] [0..<PCI_ADDR_MAX_DEVICES - 1]) targets h;
        Some (E_OK, ts, h)
      })"

definition enable_bus_mastering :: "pci_dev \<Rightarrow> bool \<Rightarrow> 'z hw_scheme \<Rightarrow> kerror_t \<times> 'z hw_scheme" where
  "enable_bus_mastering p enable h =
     (let (command_status, h) = cfg_read32 p PCI_REG_STATUS_COMMAND h;
          command_status = (if enable then command_status OR push_bit 2 1 else command_status AND NOT (push_bit 2 1))
      in (E_OK, cfg_write32 p PCI_REG_STATUS_COMMAND command_status h))"

subsection \<open>MSI-X\<close>

text \<open>The fields of entry \<open>i\<close> of the table: address low and high, data and vector control.\<close>

definition msix_entry :: "ptr \<Rightarrow> nat \<Rightarrow> ptr" where
  "msix_entry table i = table + of_nat (16 * i)"

definition msix_clear :: "ptr \<Rightarrow> nat \<Rightarrow> memory \<Rightarrow> memory" where
  "msix_clear table i m = store32 (msix_entry table i + 12) 1 (store32 (msix_entry table i) 0 m)"

definition enable_msix ::
  "bool \<Rightarrow> pci_dev \<Rightarrow> memory \<Rightarrow> 'z irq_manager_scheme \<Rightarrow> kerror_t \<times> pci_dev \<times> memory \<times> 'z irq_manager_scheme" where
  "enable_msix enable p m h =
     (if msix_table p \<noteq> NULL then (E_OK, p, m, h)
      else let msix_cap = get_cap p PCI_CAP_ID_MSIX
      in if msix_cap = 0 then (E_NODEV, p, m, h)
      else let (message_control, h) = cfg_read32 p msix_cap h
      in if \<not> enable then (E_OK, p, m, cfg_write32 p msix_cap (message_control AND NOT (push_bit 31 1)) h)
      else
        let h = cfg_write32 p msix_cap (message_control OR push_bit 31 1) h;
            (command_status, h) = cfg_read32 p PCI_REG_STATUS_COMMAND h;
            h = cfg_write32 p PCI_REG_STATUS_COMMAND (command_status OR push_bit 10 1) h;
            (table_addr, h) = cfg_read32 p (msix_cap + 0x04) h;
            base_addr = pci_bar p (table_addr AND 0x7) AND NOT 0xf;
            p = p\<lparr>msix_table := ucast (base_addr + (table_addr AND NOT 0x7))\<rparr>;
            p = p\<lparr>msix_table_size := ucast ((drop_bit 16 message_control AND 0x3FF) + 1)\<rparr>;
            m = fold (msix_clear (msix_table p)) [0..<unat (msix_table_size p)] m;
            (v, h) = cfg_read32 p msix_cap h
        in (E_OK, p, m, cfg_write32 p msix_cap (v AND NOT (push_bit 30 1)) h))"

definition request_msix ::
  "ptr \<Rightarrow> ptr \<Rightarrow> ptr \<Rightarrow> pci_dev \<Rightarrow> memory \<Rightarrow> 'z irq_manager_scheme \<Rightarrow> (kerror_t \<times> u16) \<times> memory \<times> 'z irq_manager_scheme" where
  "request_msix fn owner ctx p m h =
     (if fn = NULL then ((E_INVAL, 0xFFFF), m, h)
      else case find (\<lambda>i. load32 m (msix_entry (msix_table p) i) = 0) [0..<unat (msix_table_size p)] of
        None \<Rightarrow> ((E_NOMEM, 0xFFFF), m, h)
      | Some i \<Rightarrow>
        if of_nat i = (0xFFFF :: u16) then ((E_NOMEM, 0xFFFF), m, h)
        else
          let (ret, h) = request_irq fn owner ctx h;
              irq = (of_int ret :: u8);
              e = msix_entry (msix_table p) i;
              m = store32 (e + 12) 1 m;
              (apic, h) = lapic_id h;
              m = store32 e (0xFEE00000 OR push_bit 12 apic) m;
              m = store32 (e + 4) 0 m;
              m = store32 (e + 8) (ucast irq) m;
              m = store32 (e + 12) 0 m
          in ((E_OK, of_nat i), m, h))"

definition free_msix :: "u16 \<Rightarrow> pci_dev \<Rightarrow> memory \<Rightarrow> memory" where
  "free_msix vector p m =
     (if vector \<ge> msix_table_size p then m
      else
        let e = msix_entry (msix_table p) (unat vector);
            m = store32 (e + 12) 1 m;
            m = store32 e 0 m
        in store32 (e + 8) 0 m)"

subsection \<open>The host bridge\<close>

text \<open>
  Configuration mechanism 1: a write to the address port selects a register, the data port reads and writes the selected one.
  \<open>cfg_space init L\<close> is the contents of the registers after the events \<open>L\<close>, for registers that keep what is written.
\<close>

fun cfg_select :: "hw_event list \<Rightarrow> u32" where
  "cfg_select [] = 0"
| "cfg_select (Io_out w q v # L) = (if q = PCI_CFG_ADDR then v else cfg_select L)"
| "cfg_select (_ # L) = cfg_select L"

fun cfg_space :: "(u32 \<Rightarrow> u32) \<Rightarrow> hw_event list \<Rightarrow> u32 \<Rightarrow> u32" where
  "cfg_space init [] = init"
| "cfg_space init (Io_out w q v # L) = (if q = PCI_CFG_DATA then (cfg_space init L)(cfg_select L := v) else cfg_space init L)"
| "cfg_space init (_ # L) = cfg_space init L"

definition pci_host :: "(u32 \<Rightarrow> u32) \<Rightarrow> 'z hw_scheme \<Rightarrow> bool" where
  "pci_host init h \<longleftrightarrow> (\<forall>L. port_value h L 4 PCI_CFG_DATA = cfg_space init L (cfg_select L))"

definition cfg_regs :: "(u32 \<Rightarrow> u32) \<Rightarrow> 'z hw_scheme \<Rightarrow> u32 \<Rightarrow> u32" where
  "cfg_regs init h = cfg_space init (hw_log h)"

text \<open>Byte \<open>a\<close> of the configuration space of a function.\<close>

definition cfg_byte :: "(u32 \<Rightarrow> u32) \<Rightarrow> u8 \<Rightarrow> u8 \<Rightarrow> u8 \<Rightarrow> u8 \<Rightarrow> u8" where
  "cfg_byte regs bus d f a = ucast (drop_bit (unat (a AND 3) * 8) (regs (PCI_CFG_REG bus d f a)))"

lemma take_bit_32_word [simp]: "take_bit 32 (v :: u32) = v"
  by (rule bit_eqI) (simp add: bit_take_bit_iff)

lemma pci_config_read32_host:
  assumes "pci_host init h"
  shows "\<exists>L. pci_config_read32 bus d f reg h = (cfg_regs init h (PCI_CFG_REG bus d f reg), h\<lparr>hw_log := L\<rparr>) \<and> cfg_space init L = cfg_regs init h"
  using assms
  by (intro exI [of _ "Io_in 4 PCI_CFG_DATA (cfg_regs init h (PCI_CFG_REG bus d f reg)) # Io_out 4 PCI_CFG_ADDR (PCI_CFG_REG bus d f reg) # hw_log h"])
    (simp add: pci_config_read32_def arch_irq_save_def arch_disable_interrupts_def arch_io_write32_def arch_io_read32_def io_out_def io_in_def
    arch_irq_restore_def Let_def pci_host_def cfg_regs_def PCI_CFG_ADDR_def PCI_CFG_DATA_def)

lemma pci_config_write32_host:
  "\<exists>L. pci_config_write32 bus d f reg v h = h\<lparr>hw_log := L\<rparr> \<and> cfg_space init L = (cfg_regs init h)(PCI_CFG_REG bus d f reg := v)"
  by (intro exI [of _ "Io_out 4 PCI_CFG_DATA v # Io_out 4 PCI_CFG_ADDR (PCI_CFG_REG bus d f reg) # hw_log h"])
    (simp add: pci_config_write32_def arch_irq_save_def arch_disable_interrupts_def arch_io_write32_def io_out_def
    arch_irq_restore_def Let_def cfg_regs_def PCI_CFG_ADDR_def PCI_CFG_DATA_def)

lemma cfg_masks: "(0xFC :: u32) = mask 8 AND NOT (mask 2)" "(3 :: u8) = mask 2" "(0xFF :: u32) = mask 8" "(0x1F :: u32) = mask 5" "(3 :: u32) = mask 2"
  by (simp_all add: mask_eq_exp_minus_1)

lemma PCI_CFG_REG_aligned [simp]: "PCI_CFG_REG bus d f (a AND NOT 3) = PCI_CFG_REG bus d f a"
proof -
  have "ucast (a AND NOT 3) AND (0xFC :: u32) = ucast a AND 0xFC"
    unfolding cfg_masks by (rule bit_eqI) (auto simp: bit_and_iff bit_ucast_iff bit_not_iff bit_mask_iff)
  then show ?thesis by (simp add: PCI_CFG_REG_def PCI_CFG_REG_NUMBER_def)
qed

lemma PCI_CFG_REG_aligned' [simp]: "PCI_CFG_REG bus d f (a AND - 4) = PCI_CFG_REG bus d f a"
  using PCI_CFG_REG_aligned [of bus d f a] by simp

lemma bit_above_2:
  assumes "drop_bit 2 a = drop_bit 2 (b :: u8)" "2 \<le> n"
  shows "bit a n = bit b n"
proof -
  have "bit x n = bit (drop_bit 2 x) (n - 2)" for x :: u8 using assms(2) unfolding bit_drop_bit_eq o_def by (simp only: le_add_diff_inverse)
  then show ?thesis using assms(1) by simp
qed

text \<open>The address of a register determines the register number: no other field of the address reaches its bits.\<close>

lemma PCI_CFG_REG_eq: "PCI_CFG_REG bus d f a = PCI_CFG_REG bus d f b \<longleftrightarrow> drop_bit 2 a = drop_bit 2 b"
proof
  assume e: "PCI_CFG_REG bus d f a = PCI_CFG_REG bus d f b"
  have en: "bit PCI_CFG_ADDR_ENABLE n \<longleftrightarrow> n = 31" for n
    unfolding PCI_CFG_ADDR_ENABLE_def bit_push_bit_iff bit_1_iff by auto
  have l: "bit (PCI_CFG_REG bus d f x) n \<longleftrightarrow> bit x n" if "2 \<le> n" "n < 8" for x n
    using that unfolding PCI_CFG_REG_def PCI_CFG_REG_NUMBER_def PCI_CFG_BUS_NUMBER_def PCI_CFG_DEV_NUMBER_def PCI_CFG_FUN_NUMBER_def cfg_masks
    by (auto simp: en bit_or_iff bit_and_iff bit_ucast_iff bit_not_iff bit_mask_iff bit_push_bit_iff)
  show "drop_bit 2 a = drop_bit 2 b"
  proof (rule bit_eqI)
    fix n assume "possible_bit TYPE(u8) n"
    show "bit (drop_bit 2 a) n = bit (drop_bit 2 b) n"
      using l [of "2 + n" a] l [of "2 + n" b] e bit_imp_le_length [of a "2 + n"] bit_imp_le_length [of b "2 + n"] by (auto simp: bit_drop_bit_eq)
  qed
next
  assume e: "drop_bit 2 a = drop_bit 2 b"
  have "a AND NOT 3 = b AND NOT 3"
  proof (rule bit_eqI)
    fix n
    show "bit (a AND NOT 3) n = bit (b AND NOT 3) n"
      using bit_above_2 [OF e, of n] unfolding cfg_masks
      by (cases "2 \<le> n") (auto simp: bit_and_iff bit_not_iff bit_mask_iff)
  qed
  then show "PCI_CFG_REG bus d f a = PCI_CFG_REG bus d f b" by (metis PCI_CFG_REG_aligned)
qed

lemma ucast_low_byte [simp]: "ucast (x AND 0xFF) = (ucast (x :: u32) :: u8)"
  unfolding cfg_masks by (rule bit_eqI) (auto simp: bit_and_iff bit_ucast_iff bit_mask_iff)

lemma pci_config_read8_host:
  assumes "pci_host init h"
  shows "\<exists>L. pci_config_read8 bus d f a h = (cfg_byte (cfg_regs init h) bus d f a, h\<lparr>hw_log := L\<rparr>) \<and> cfg_space init L = cfg_regs init h"
  using pci_config_read32_host [OF assms, of bus d f "a AND NOT 3"] by (auto simp: pci_config_read8_def cfg_byte_def)

text \<open>Replacing one byte of a register.\<close>

lemma byte_of_put_byte:
  fixes data :: u32
  assumes "i < 4" "j < 4"
  shows "(ucast (drop_bit (j * 8) ((data AND NOT (push_bit (i * 8) 0xff)) OR push_bit (i * 8) (ucast (v :: u8)))) :: u8) =
    (if j = i then v else ucast (drop_bit (j * 8) data))"
proof (rule bit_eqI)
  fix n assume "possible_bit TYPE(u8) n"
  then have n: "n < 8" by simp
  have lim: "j * 8 + n < 32" using assms n by auto
  have "j = i \<longleftrightarrow> i * 8 \<le> j * 8 + n \<and> j * 8 + n - i * 8 < 8" using n by auto
  then show "bit (ucast (drop_bit (j * 8) ((data AND NOT (push_bit (i * 8) 0xff)) OR push_bit (i * 8) (ucast v))) :: u8) n =
      bit (if j = i then v else ucast (drop_bit (j * 8) data)) n"
    using n lim bit_imp_le_length [of v "j * 8 + n - i * 8"] unfolding cfg_masks
    by (auto simp: bit_or_iff bit_and_iff bit_ucast_iff bit_not_iff bit_mask_iff bit_push_bit_iff bit_drop_bit_eq)
qed

lemma word_eq_parts: "a = b \<longleftrightarrow> drop_bit 2 a = drop_bit 2 b \<and> a AND 3 = (b AND 3 :: u8)"
proof (intro iffI conjI)
  assume e: "drop_bit 2 a = drop_bit 2 b \<and> a AND 3 = b AND 3"
  show "a = b"
  proof (rule bit_eqI)
    fix n
    show "bit a n = bit b n"
      using bit_above_2 [OF conjunct1 [OF e], of n] arg_cong [OF conjunct2 [OF e], of "\<lambda>x. bit x n"] unfolding cfg_masks
      by (cases "2 \<le> n") (auto simp: bit_and_iff bit_mask_iff)
  qed
qed simp_all

lemma low_bits_lt4: "unat (a AND 3 :: u8) < 4"
proof -
  have "unat (take_bit 2 a) < 2 ^ 2" unfolding unsigned_take_bit_eq by (rule take_bit_nat_less_exp)
  then show ?thesis by (simp add: cfg_masks(2) take_bit_eq_mask [symmetric])
qed

lemma pci_config_write8_host:
  assumes "pci_host init h"
  shows "\<exists>L. pci_config_write8 bus d f a v h = h\<lparr>hw_log := L\<rparr> \<and>
    (\<forall>b. cfg_byte (cfg_space init L) bus d f b = (if b = a then v else cfg_byte (cfg_regs init h) bus d f b))"
proof -
  let ?r = "PCI_CFG_REG bus d f a"
  obtain L1 where r: "pci_config_read32 bus d f (a AND NOT 3) h = (cfg_regs init h ?r, h\<lparr>hw_log := L1\<rparr>)"
      "cfg_space init L1 = cfg_regs init h"
    using pci_config_read32_host [OF assms, of bus d f "a AND NOT 3"] by auto
  define new where "new = (cfg_regs init h ?r AND NOT (push_bit (unat (a AND 3) * 8) 0xff)) OR push_bit (unat (a AND 3) * 8) (ucast v)"
  obtain L where w: "pci_config_write32 bus d f (a AND NOT 3) new (h\<lparr>hw_log := L1\<rparr>) = h\<lparr>hw_log := L\<rparr>"
      "cfg_space init L = (cfg_regs init h)(?r := new)"
    using pci_config_write32_host [of bus d f "a AND NOT 3" new "h\<lparr>hw_log := L1\<rparr>" init] r(2) by (auto simp: cfg_regs_def)
  have "cfg_byte (cfg_space init L) bus d f b = (if b = a then v else cfg_byte (cfg_regs init h) bus d f b)" for b
  proof (cases "PCI_CFG_REG bus d f b = ?r")
    case True
    then have "b = a \<longleftrightarrow> unat (b AND 3) = unat (a AND 3)" using word_eq_parts [of b a] PCI_CFG_REG_eq [of bus d f b a] by (simp add: word_unat_eq_iff)
    then show ?thesis
      using byte_of_put_byte [OF low_bits_lt4 [of a] low_bits_lt4 [of b], of "cfg_regs init h ?r" v] True by (simp add: cfg_byte_def w(2) new_def)
  qed (auto simp: cfg_byte_def w(2))
  moreover have "pci_config_write8 bus d f a v h = h\<lparr>hw_log := L\<rparr>"
    unfolding pci_config_write8_def Let_def r(1) split_conv using w(1) by (simp add: new_def)
  ultimately show ?thesis by blast
qed


definition demo_host :: hw where
  "demo_host = \<lparr>hw_log = [], port_value = (\<lambda>L w p. cfg_space (\<lambda>_. 0x44332211) L (cfg_select L)), msr_value = (\<lambda>_ _. 0), rflags = 0x202\<rparr>"

lemma demo_host_pci: "pci_host (\<lambda>_. 0x44332211) demo_host"
  by (simp add: pci_host_def demo_host_def)


text \<open>The 16-bit read of the upper half of a register gives the lower half.\<close>

lemma pci_config_read16_upper_half:
  assumes "pci_host init h"
  shows "fst (pci_config_read16 bus d f 2 h) = ucast (cfg_regs init h (PCI_CFG_REG bus d f 0))"
proof -
  have m: "(0xFFFF :: u32) = mask 16" by (simp add: mask_eq_exp_minus_1)
  have "ucast (x AND 0xFFFF) = (ucast (x :: u32) :: u16)" for x
    unfolding m by (rule bit_eqI) (auto simp: bit_and_iff bit_ucast_iff bit_mask_iff)
  moreover have "PCI_CFG_REG bus d f (2 AND NOT 3) = PCI_CFG_REG bus d f 0" by simp
  ultimately show ?thesis
    using pci_config_read32_host [OF assms, of bus d f "2 AND NOT 3"] by (auto simp: pci_config_read16_def)
qed

subsection \<open>Capabilities\<close>

text \<open>The capability list of a device: identifiers and offsets, linked from \<open>off\<close> on.\<close>

fun cap_chain :: "(u8 \<Rightarrow> u8) \<Rightarrow> u8 \<Rightarrow> (u8 \<times> u8) list \<Rightarrow> bool" where
  "cap_chain byte off [] \<longleftrightarrow> False"
| "cap_chain byte off (c # ks) \<longleftrightarrow> c = (byte off, off) \<and> byte off \<noteq> 0 \<and>
     (if ks = [] then byte (off + 1) = 0 else byte (off + 1) \<noteq> 0 \<and> cap_chain byte (byte (off + 1)) ks)"

abbreviation dev_byte :: "(u32 \<Rightarrow> u32) \<Rightarrow> pci_dev \<Rightarrow> u8 \<Rightarrow> u8" where
  "dev_byte regs p \<equiv> cfg_byte regs (pci_bus p) (pci_slot p) (pci_function p)"

lemma cfg_read8_host:
  assumes "pci_host init h"
  shows "\<exists>L. cfg_read8 p off h = (dev_byte (cfg_regs init h) p off, h\<lparr>hw_log := L\<rparr>) \<and> cfg_space init L = cfg_regs init h"
  using pci_config_read8_host [OF assms] by (simp add: cfg_read8_def)

text \<open>One turn of the loop.\<close>

lemma read_capabilities_loop_step:
  assumes "pci_host init h" "byte = dev_byte (cfg_regs init h) p"
  shows "\<exists>L. cfg_space init L = cfg_regs init h \<and> read_capabilities_loop cap off p h =
    (let q = p\<lparr>capabilities := (capabilities p)[cap := (byte off, off)]\<rparr>; cap = (if byte off \<noteq> 0 then cap + 1 else cap)
     in if byte (off + 1) \<noteq> 0 \<and> cap < MAX_CAPABILITIES then read_capabilities_loop cap (byte (off + 1)) q (h\<lparr>hw_log := L\<rparr>)
        else Some (q, h\<lparr>hw_log := L\<rparr>))"
proof -
  obtain L1 where 1: "cfg_read8 p off h = (byte off, h\<lparr>hw_log := L1\<rparr>)" "cfg_space init L1 = cfg_regs init h"
    using cfg_read8_host [OF assms(1), of p off] assms(2) by auto
  define q where "q = p\<lparr>capabilities := (capabilities p)[cap := (byte off, off)]\<rparr>"
  have "pci_host init (h\<lparr>hw_log := L1\<rparr>)" using assms(1) by (simp add: pci_host_def)
  from cfg_read8_host [OF this, of q "off + 1"]
  obtain L2 where 2: "cfg_read8 q (off + 1) (h\<lparr>hw_log := L1\<rparr>) = (byte (off + 1), h\<lparr>hw_log := L2\<rparr>)" "cfg_space init L2 = cfg_regs init h"
    using 1(2) assms(2) by (auto simp: cfg_regs_def q_def)
  have "read_capabilities_loop cap off p h =
    (let cap = (if byte off \<noteq> 0 then cap + 1 else cap)
     in if byte (off + 1) \<noteq> 0 \<and> cap < MAX_CAPABILITIES then read_capabilities_loop cap (byte (off + 1)) q (h\<lparr>hw_log := L2\<rparr>)
        else Some (q, h\<lparr>hw_log := L2\<rparr>))"
    by (subst read_capabilities_loop.simps) (simp add: 1(1) 2(1) q_def [symmetric] Let_def)
  then show ?thesis using 2(2) unfolding q_def by (intro exI [of _ L2]) (simp add: Let_def)
qed

lemma read_capabilities_loop_chain:
  assumes "pci_host init h" "byte = dev_byte (cfg_regs init h) p" "cap_chain byte off ks"
    "cap + length ks \<le> MAX_CAPABILITIES" "length (capabilities p) = MAX_CAPABILITIES"
  shows "\<exists>L. read_capabilities_loop cap off p h =
    Some (p\<lparr>capabilities := take cap (capabilities p) @ ks @ drop (cap + length ks) (capabilities p)\<rparr>, h\<lparr>hw_log := L\<rparr>) \<and>
    cfg_space init L = cfg_regs init h"
  using assms
proof (induction ks arbitrary: cap off p h)
  case (Cons c ks)
  define q where "q = p\<lparr>capabilities := (capabilities p)[cap := (byte off, off)]\<rparr>"
  have c: "c = (byte off, off)" "byte off \<noteq> 0" using Cons.prems(3) by simp_all
  have cap: "cap < length (capabilities p)" using Cons.prems(4,5) by simp
  have upd: "(capabilities p)[cap := c] = take cap (capabilities p) @ c # drop (Suc cap) (capabilities p)" using cap by (simp add: upd_conv_take_nth_drop)
  obtain L where L: "cfg_space init L = cfg_regs init h" "read_capabilities_loop cap off p h =
      (if byte (off + 1) \<noteq> 0 \<and> cap + 1 < MAX_CAPABILITIES then read_capabilities_loop (cap + 1) (byte (off + 1)) q (h\<lparr>hw_log := L\<rparr>)
       else Some (q, h\<lparr>hw_log := L\<rparr>))"
    using read_capabilities_loop_step [OF Cons.prems(1,2), of cap off] c(2) unfolding q_def by (auto simp: Let_def)
  show ?case
  proof (cases "ks = []")
    case True
    then have "read_capabilities_loop cap off p h = Some (q, h\<lparr>hw_log := L\<rparr>)" using Cons.prems(3) L(2) by simp
    then show ?thesis using True upd c(1) L(1) by (auto simp: q_def)
  next
    case False
    then have n: "byte (off + 1) \<noteq> 0" "cap_chain byte (byte (off + 1)) ks" "cap + 1 < MAX_CAPABILITIES"
      using Cons.prems(3,4) by (auto simp: Suc_le_eq neq_Nil_conv)
    have "\<exists>L'. read_capabilities_loop (cap + 1) (byte (off + 1)) q (h\<lparr>hw_log := L\<rparr>) =
        Some (q\<lparr>capabilities := take (cap + 1) (capabilities q) @ ks @ drop (cap + 1 + length ks) (capabilities q)\<rparr>, h\<lparr>hw_log := L\<rparr>\<lparr>hw_log := L'\<rparr>) \<and>
        cfg_space init L' = cfg_regs init (h\<lparr>hw_log := L\<rparr>)"
      by (rule Cons.IH) (use Cons.prems L(1) n in \<open>simp_all add: pci_host_def cfg_regs_def q_def\<close>)
    then obtain L' where "read_capabilities_loop cap off p h =
        Some (q\<lparr>capabilities := take (cap + 1) (capabilities q) @ ks @ drop (cap + 1 + length ks) (capabilities q)\<rparr>, h\<lparr>hw_log := L'\<rparr>)"
        "cfg_space init L' = cfg_regs init h"
      using L n by (auto simp: cfg_regs_def)
    moreover have "take (cap + 1) (capabilities q) @ ks @ drop (cap + 1 + length ks) (capabilities q) =
        take cap (capabilities p) @ (c # ks) @ drop (cap + length (c # ks)) (capabilities p)"
      using cap by (simp add: q_def c(1) [symmetric] take_Suc_conv_app_nth)
    ultimately show ?thesis by (auto simp: q_def)
  qed
qed simp


definition demo_pci :: pci_dev where
  "demo_pci = \<lparr>pci_bus = 0, pci_slot = 3, pci_function = 0, device_id = 0x1000, vendor_id = 0x1af4,
     capabilities = replicate MAX_CAPABILITIES (0, 0), bars = [0xc000, 0xfebd1000, 0, 0, 0, 0], msix_table = NULL, msix_table_size = 0\<rparr>"

text \<open>A device with the capabilities 9 at 0x40 and MSI-X at 0x50.\<close>

definition demo_regs :: "u32 \<Rightarrow> u32" where
  "demo_regs a =
     (if a = PCI_CFG_REG 0 3 0 0x34 then 0x40 else if a = PCI_CFG_REG 0 3 0 0x40 then 0x5009
      else if a = PCI_CFG_REG 0 3 0 0x50 then 0x00010011 else if a = PCI_CFG_REG 0 3 0 0x54 then 0x1 else 0)"

definition demo_bus :: hw where
  "demo_bus = demo_host\<lparr>port_value := (\<lambda>L w p. cfg_space demo_regs L (cfg_select L))\<rparr>"


subsection \<open>Message signalled interrupts\<close>


definition demo_msix :: pci_dev where
  "demo_msix = demo_pci\<lparr>msix_table := 0xfebd1000, msix_table_size := 3\<rparr>"


end
