(* ===== verification/Virtio.thy ===== *)
theory Virtio
  imports Pci Arp "HOL-Library.Multiset"
begin

text \<open>
  Virtio devices and their queues: dev/virtio.cpp and dev/include/dev/virtio.hpp.

  The descriptor table and the two rings are bytes of the memory, which the device shares; the queue objects are records in a store
  from addresses. The virtual functions of a device class are a record of operations. What the completion handler of a queue does is
  a parameter. \<open>None\<close> is a division by a queue size of 0 or a loop that does not end.
\<close>

subsection \<open>State\<close>

record virtq =
  vq_index :: u32
  vq_size :: u16
  allocated_mem :: ptr
  desc_table :: ptr
  avail_ring_hdr :: ptr
  avail_ring :: ptr
  used_ring_hdr :: ptr
  used_ring :: ptr
  desc_ctx :: ptr
  used_idx :: u16
  num_free_descriptors :: u32
  free_list :: u32
  vq_irq_handler :: ptr
  vq_irq_handler_ctx :: ptr

record dev_state = net_state +
  irqs :: irq_manager
  vqs :: "ptr \<Rightarrow> virtq"
  handle_vq_irq_addr :: ptr
  vq_owner_addr :: ptr

record virtio_ops =
  op_read_reg :: "pci_dev \<Rightarrow> u16 \<Rightarrow> irq_manager \<Rightarrow> u32 \<times> irq_manager"
  op_write_reg :: "pci_dev \<Rightarrow> u16 \<Rightarrow> u32 \<Rightarrow> irq_manager \<Rightarrow> irq_manager"
  op_negotiate :: "u32 \<Rightarrow> u32"

record virtio_dev =
  vd_pci :: pci_dev
  vd_valid :: bool
  vd_features :: u32

definition VIRTIO_PCI_VENDOR_ID :: u16 where "VIRTIO_PCI_VENDOR_ID = 0x1af4"
definition VIRTIO_F_EVENT_IDX :: nat where "VIRTIO_F_EVENT_IDX = 29"
definition VIRTQ_DESC_F_WRITE :: u16 where "VIRTQ_DESC_F_WRITE = 2"
definition VIRTQ_USED_F_NO_NOTIFY :: u16 where "VIRTQ_USED_F_NO_NOTIFY = 1"

definition STATUS_acknowledge :: u32 where "STATUS_acknowledge = 1"
definition STATUS_driver :: u32 where "STATUS_driver = 2"
definition STATUS_features_ok :: u32 where "STATUS_features_ok = 8"
definition STATUS_driver_ok :: u32 where "STATUS_driver_ok = 4"

definition device_features :: u16 where "device_features = 0x00"
definition driver_features :: u16 where "driver_features = 0x04"
definition queue_address :: u16 where "queue_address = 0x08"
definition queue_size :: u16 where "queue_size = 0x0c"
definition queue_select :: u16 where "queue_select = 0x0e"
definition queue_notify :: u16 where "queue_notify = 0x10"
definition device_status :: u16 where "device_status = 0x12"
definition isr_status :: u16 where "isr_status = 0x13"
definition config_msix_vector :: u16 where "config_msix_vector = 0x14"
definition queue_msix_vector :: u16 where "queue_msix_vector = 0x16"

subsection \<open>Registers\<close>

definition reg_port :: "pci_dev \<Rightarrow> u16 \<Rightarrow> u16" where
  "reg_port p reg = ucast (pci_bar p 0 + ucast reg)"

definition virtio_read_reg :: "pci_dev \<Rightarrow> u16 \<Rightarrow> 'z hw_scheme \<Rightarrow> u32 \<times> 'z hw_scheme" where
  "virtio_read_reg p reg h =
     (if reg \<in> {device_features, driver_features, queue_address} then arch_io_read32 (reg_port p reg) h
      else if reg \<in> {queue_size, queue_select, queue_notify} then let (v, h) = arch_io_read16 (reg_port p reg) h in (ucast v, h)
      else if reg \<in> {device_status, isr_status} then let (v, h) = arch_io_read8 (reg_port p reg) h in (ucast v, h)
      else if reg \<in> {config_msix_vector, queue_msix_vector} then let (v, h) = arch_io_read16 (reg_port p reg) h in (ucast v, h)
      else (0, h))"

definition virtio_write_reg :: "pci_dev \<Rightarrow> u16 \<Rightarrow> u32 \<Rightarrow> 'z hw_scheme \<Rightarrow> 'z hw_scheme" where
  "virtio_write_reg p reg v h =
     (if reg \<in> {device_features, driver_features, queue_address} then arch_io_write32 (reg_port p reg) v h
      else if reg \<in> {queue_size, queue_select, queue_notify} then arch_io_write16 (reg_port p reg) (ucast v) h
      else if reg \<in> {device_status, isr_status} then arch_io_write8 (reg_port p reg) (ucast v) h
      else if reg \<in> {config_msix_vector, queue_msix_vector} then arch_io_write16 (reg_port p reg) (ucast v) h
      else h)"

definition virtio_negotiate_features :: "u32 \<Rightarrow> u32" where
  "virtio_negotiate_features feats = feats AND NOT (push_bit VIRTIO_F_EVENT_IDX 1)"

definition virtio_base :: virtio_ops where
  "virtio_base = \<lparr>op_read_reg = virtio_read_reg, op_write_reg = virtio_write_reg, op_negotiate = virtio_negotiate_features\<rparr>"

text \<open>Registers of a device whose class has the operations \<open>ops\<close>, in the state with the memory.\<close>

definition dev_read_reg :: "virtio_ops \<Rightarrow> virtio_dev \<Rightarrow> u16 \<Rightarrow> 'z dev_state_scheme \<Rightarrow> u32 \<times> 'z dev_state_scheme" where
  "dev_read_reg ops d reg s = (let (v, h) = op_read_reg ops (vd_pci d) reg (irqs s) in (v, s\<lparr>irqs := h\<rparr>))"

definition dev_write_reg :: "virtio_ops \<Rightarrow> virtio_dev \<Rightarrow> u16 \<Rightarrow> u32 \<Rightarrow> 'z dev_state_scheme \<Rightarrow> 'z dev_state_scheme" where
  "dev_write_reg ops d reg v s = s\<lparr>irqs := op_write_reg ops (vd_pci d) reg v (irqs s)\<rparr>"

definition begin_init :: "virtio_ops \<Rightarrow> virtio_dev \<Rightarrow> 'z dev_state_scheme \<Rightarrow> virtio_dev \<times> 'z dev_state_scheme" where
  "begin_init ops d s =
     (if vendor_id (vd_pci d) \<noteq> VIRTIO_PCI_VENDOR_ID then (d, s)
      else
        let (_, h) = enable_bus_mastering (vd_pci d) True (irqs s);
            (e, p, m, h) = enable_msix True (vd_pci d) (mem s) h;
            d = d\<lparr>vd_pci := p\<rparr>;
            s = s\<lparr>irqs := h, mem := m\<rparr>
        in if e \<noteq> E_OK then (d, s)
           else
             let d = d\<lparr>vd_valid := True\<rparr>;
                 s = dev_write_reg ops d device_status 0 s;
                 s = dev_write_reg ops d device_status (STATUS_acknowledge OR STATUS_driver) s;
                 (v, s) = dev_read_reg ops d device_features s;
                 d = d\<lparr>vd_features := op_negotiate ops v\<rparr>
             in (d, dev_write_reg ops d driver_features (vd_features d) s))"

definition init_finished :: "virtio_ops \<Rightarrow> virtio_dev \<Rightarrow> 'z dev_state_scheme \<Rightarrow> 'z dev_state_scheme" where
  "init_finished ops d s =
     (let (v, s) = dev_read_reg ops d device_status s
      in dev_write_reg ops d device_status (v OR STATUS_driver_ok OR STATUS_features_ok) s)"

text \<open>
  \<open>print_info\<close> selects the queues one after the other until one has no descriptors; what it prints are the values it reads.
\<close>

partial_function (option) print_info_loop :: "virtio_ops \<Rightarrow> virtio_dev \<Rightarrow> u32 \<Rightarrow> 'z dev_state_scheme \<Rightarrow> 'z dev_state_scheme option" where
  "print_info_loop ops d queue_idx s =
     (let s = dev_write_reg ops d queue_select queue_idx s;
          (v, s) = dev_read_reg ops d queue_size s;
          q_size = (ucast v :: u16)
      in if q_size = 0 then Some s
         else let queue_idx = queue_idx + 1 in if queue_idx \<noteq> 0 then print_info_loop ops d queue_idx s else Some s)"

definition virtio_print_info :: "virtio_ops \<Rightarrow> virtio_dev \<Rightarrow> 'z dev_state_scheme \<Rightarrow> 'z dev_state_scheme option" where
  "virtio_print_info ops d s = (let (_, s) = dev_read_reg ops d device_status s in print_info_loop ops d 0 s)"

subsection \<open>Queues\<close>

definition VIRTQ_OBJ_SIZE :: u64 where "VIRTQ_OBJ_SIZE = 96"

definition vq_align :: "u64 \<Rightarrow> u64" where
  "vq_align a = (a + 4095) AND NOT 4095"

definition desc_at :: "virtq \<Rightarrow> nat \<Rightarrow> ptr" where
  "desc_at q i = desc_table q + of_nat (16 * i)"

text \<open>An \<open>int\<close> used as an index.\<close>

definition int_index :: "u32 \<Rightarrow> nat" where
  "int_index i = unat (scast i :: u64)"

definition descriptor_table_size :: "u16 \<Rightarrow> u64" where
  "descriptor_table_size queue_len = 16 * ucast queue_len"

definition available_ring_size :: "u16 \<Rightarrow> u64" where
  "available_ring_size queue_len = 4 + 2 * ucast queue_len"

definition used_ring_size :: "u16 \<Rightarrow> u64" where
  "used_ring_size queue_len = 4 + 8 * ucast queue_len"

text \<open>The object of a queue over the allocated memory: the placement of the table, the rings and the contexts.\<close>

definition virtq_place :: "u16 \<Rightarrow> u16 \<Rightarrow> ptr \<Rightarrow> ptr \<Rightarrow> ptr \<Rightarrow> virtq" where
  "virtq_place index queue_len fn ctx a =
     (let desc = vq_align a;
          avail_hdr = desc + descriptor_table_size queue_len;
          used_hdr = desc + vq_align (descriptor_table_size queue_len + available_ring_size queue_len)
      in \<lparr>vq_index = ucast index, vq_size = queue_len, allocated_mem = a, desc_table = desc, avail_ring_hdr = avail_hdr,
          avail_ring = avail_hdr + 4, used_ring_hdr = used_hdr, used_ring = used_hdr + 4,
          desc_ctx = used_hdr + vq_align (used_ring_size queue_len), used_idx = 0, num_free_descriptors = ucast queue_len, free_list = 0,
          vq_irq_handler = fn, vq_irq_handler_ctx = ctx\<rparr>)"

text \<open>The loop that links the free descriptors; with a size of 0 the last store goes below the table.\<close>

definition virtq_link_free :: "virtq \<Rightarrow> memory \<Rightarrow> memory" where
  "virtq_link_free q m =
     (let m = fold (\<lambda>i m. store16 (desc_at q i + 14) (of_nat (i + 1)) m) [0..<unat (vq_size q) - 1] m
      in store16 (desc_table q + 16 * (ucast (vq_size q) - 1) + 14) (- 1) m)"

definition virtq_create ::
  "virtio_ops \<Rightarrow> virtio_dev \<Rightarrow> u16 \<Rightarrow> ptr \<Rightarrow> ptr \<Rightarrow> 'z dev_state_scheme \<Rightarrow> kerror_t \<times> ptr option \<times> 'z dev_state_scheme" where
  "virtq_create ops d index fn ctx s =
     (let s = dev_write_reg ops d queue_select (ucast index) s;
          (v, s) = dev_read_reg ops d queue_size s;
          queue_len = (ucast v :: u16);
          virtq_size = vq_align (descriptor_table_size queue_len + available_ring_size queue_len) + vq_align (used_ring_size queue_len) +
            8 * ucast queue_len;
          (p_vq, s) = otrix_alloc VIRTQ_OBJ_SIZE s
      in if p_vq = NULL then (E_NOMEM, None, s)
         else
           let alloc_size = virtq_size + 4095;
               (a, s) = otrix_alloc alloc_size s
           in if a = NULL then (E_NOMEM, None, s\<lparr>freed := freed s @ [Free p_vq]\<rparr>)
              else
                let m = write_bytes a (replicate (unat alloc_size) 0) (mem s);
                    q = virtq_place index queue_len fn ctx a;
                    s = s\<lparr>mem := virtq_link_free q m, vqs := (vqs s)(p_vq := q)\<rparr>;
                    s = dev_write_reg ops d queue_address (ucast (drop_bit 12 (desc_table q))) s;
                    ((e, msix_vector), m, h) = request_msix (handle_vq_irq_addr s) (vq_owner_addr s) p_vq (vd_pci d) (mem s) (irqs s);
                    s = s\<lparr>mem := m, irqs := h\<rparr>;
                    s = (if e = E_OK then dev_write_reg ops d queue_msix_vector (ucast msix_vector) s else s);
                    (_, s) = dev_read_reg ops d queue_msix_vector s
                in (E_OK, Some p_vq, s))"

definition virtq_destroy :: "virtio_ops \<Rightarrow> virtio_dev \<Rightarrow> ptr \<Rightarrow> 'z dev_state_scheme \<Rightarrow> kerror_t \<times> 'z dev_state_scheme" where
  "virtq_destroy ops d p_vq s =
     (if p_vq = NULL then (E_INVAL, s)
      else
        let s = dev_write_reg ops d queue_select (vq_index (vqs s p_vq)) s;
            s = dev_write_reg ops d queue_address 0 s
        in (E_OK, s\<lparr>freed := freed s @ [Free (allocated_mem (vqs s p_vq)), Free p_vq]\<rparr>))"

text \<open>
  The parts of \<open>virtq_send_buffer\<close>: a descriptor is taken from the free list, is filled, and is made available to the device. The
  first and the last part run with interrupts off.
\<close>

definition virtq_take :: "virtq \<Rightarrow> memory \<Rightarrow> nat \<times> virtq" where
  "virtq_take q m =
     (let idx = int_index (free_list q)
      in (idx, q\<lparr>free_list := ucast (load16 m (desc_at q idx + 14))\<rparr>))"

definition virtq_fill :: "nat \<Rightarrow> ptr \<Rightarrow> u32 \<Rightarrow> bool \<Rightarrow> ptr \<Rightarrow> virtq \<Rightarrow> memory \<Rightarrow> virtq \<times> memory" where
  "virtq_fill idx p_buffer n device_writable buf_ctx q m =
     (let m = store64 (desc_ctx q + of_nat (8 * idx)) buf_ctx m;
          q = q\<lparr>num_free_descriptors := num_free_descriptors q - 1\<rparr>;
          m = store64 (desc_at q idx) p_buffer m;
          m = store32 (desc_at q idx + 8) n m;
          m = store16 (desc_at q idx + 12) (if device_writable then VIRTQ_DESC_F_WRITE else 0) m
      in (q, store16 (desc_at q idx + 14) 0 m))"

definition virtq_publish :: "nat \<Rightarrow> virtq \<Rightarrow> memory \<Rightarrow> memory option" where
  "virtq_publish idx q m =
     (if vq_size q = 0 then None
      else
        let m = store16 (avail_ring q + of_nat (2 * (unat (load16 m (avail_ring_hdr q + 2)) mod unat (vq_size q)))) (of_nat idx) m;
            avail_index = load16 m (avail_ring_hdr q + 2) + 1
        in Some (store16 (avail_ring_hdr q + 2) avail_index m))"

definition virtq_send_buffer ::
  "virtio_ops \<Rightarrow> virtio_dev \<Rightarrow> ptr \<Rightarrow> ptr \<Rightarrow> u32 \<Rightarrow> bool \<Rightarrow> ptr \<Rightarrow> 'z dev_state_scheme \<Rightarrow> (kerror_t \<times> 'z dev_state_scheme) option" where
  "virtq_send_buffer ops d p_vq p_buffer n device_writable buf_ctx s =
     (if p_vq = NULL \<or> p_buffer = NULL \<or> n = 0 then Some (E_INVAL, s)
      else if free_list (vqs s p_vq) = - 1 \<or> num_free_descriptors (vqs s p_vq) = 0 then Some (E_NOMEM, s)
      else do {
        let (flags, h) = arch_irq_save (irqs s);
        let (idx, q) = virtq_take (vqs s p_vq) (mem s);
        let s = s\<lparr>vqs := (vqs s)(p_vq := q), irqs := arch_irq_restore flags h\<rparr>;
        let (q, m) = virtq_fill idx p_buffer n device_writable buf_ctx q (mem s);
        let s = s\<lparr>vqs := (vqs s)(p_vq := q), mem := m\<rparr>;
        let (flags, h) = arch_irq_save (irqs s);
        m \<leftarrow> virtq_publish idx q (mem s);
        let s = s\<lparr>mem := m, irqs := arch_irq_restore flags h\<rparr>;
        let s = (if load16 (mem s) (used_ring_hdr q) AND VIRTQ_USED_F_NO_NOTIFY = 0 then dev_write_reg ops d queue_notify (vq_index q) s else s);
        Some (E_OK, s)
      })"

text \<open>The completion interrupt: \<open>call fn ctx data_ctx data len\<close> is the effect of the handler of the queue.\<close>

definition vq_complete ::
  "(ptr \<Rightarrow> ptr \<Rightarrow> ptr \<Rightarrow> ptr \<Rightarrow> u64 \<Rightarrow> 'z dev_state_scheme \<Rightarrow> 'z dev_state_scheme option) \<Rightarrow> ptr \<Rightarrow> 'z dev_state_scheme \<Rightarrow>
   'z dev_state_scheme option" where
  "vq_complete call p_vq s =
     (let q = vqs s p_vq
      in if vq_size q = 0 then None
         else do {
           let elem_id = load32 (mem s) (used_ring q + of_nat (8 * (unat (used_idx q) mod unat (vq_size q))));
           let desc_id = int_index elem_id;
           let p_desc = desc_at q desc_id;
           s \<leftarrow> (if vq_irq_handler q \<noteq> NULL
             then call (vq_irq_handler q) (vq_irq_handler_ctx q) (load64 (mem s) (desc_ctx q + of_nat (8 * desc_id)))
               (load64 (mem s) p_desc) (ucast (load32 (mem s) (p_desc + 8))) s
             else Some s);
           let q = vqs s p_vq;
           let s = s\<lparr>mem := store16 (p_desc + 14) (ucast (free_list q)) (mem s)\<rparr>;
           Some (s\<lparr>vqs := (vqs s)(p_vq := q\<lparr>free_list := elem_id, used_idx := used_idx q + 1,
             num_free_descriptors := num_free_descriptors q + 1\<rparr>)\<rparr>)
         })"

partial_function (option) handle_vq_irq ::
  "(ptr \<Rightarrow> ptr \<Rightarrow> ptr \<Rightarrow> ptr \<Rightarrow> u64 \<Rightarrow> 'z dev_state_scheme \<Rightarrow> 'z dev_state_scheme option) \<Rightarrow> ptr \<Rightarrow> 'z dev_state_scheme \<Rightarrow>
   'z dev_state_scheme option" where
  "handle_vq_irq call p_vq s =
     (if used_idx (vqs s p_vq) \<noteq> load16 (mem s) (used_ring_hdr (vqs s p_vq) + 2) then do {
        s \<leftarrow> vq_complete call p_vq s;
        handle_vq_irq call p_vq s
      } else Some s)"

subsection \<open>Layout\<close>

text \<open>The offsets of the used ring and of the contexts from the descriptor table, for \<open>n\<close> descriptors.\<close>

definition vq_up :: "nat \<Rightarrow> nat" where
  "vq_up a = (a + 4095) div 4096 * 4096"

definition used_off :: "nat \<Rightarrow> nat" where
  "used_off n = vq_up (18 * n + 4)"

definition ctx_off :: "nat \<Rightarrow> nat" where
  "ctx_off n = used_off n + vq_up (8 * n + 4)"

definition vq_layout :: "virtq \<Rightarrow> nat \<Rightarrow> bool" where
  "vq_layout q n \<longleftrightarrow> n = unat (vq_size q) \<and> 0 < n \<and> avail_ring_hdr q = desc_table q + of_nat (16 * n) \<and>
     avail_ring q = desc_table q + of_nat (16 * n + 4) \<and> used_ring_hdr q = desc_table q + of_nat (used_off n) \<and>
     used_ring q = desc_table q + of_nat (used_off n + 4) \<and> desc_ctx q = desc_table q + of_nat (ctx_off n)"

lemma vq_up_bounds: "a \<le> vq_up a" "vq_up a \<le> a + 4095" "4096 dvd vq_up a"
proof -
  have "(a + 4095) div 4096 * 4096 + (a + 4095) mod 4096 = a + 4095" by (rule div_mult_mod_eq)
  moreover have "(a + 4095) mod 4096 < 4096" by simp
  ultimately show "a \<le> vq_up a" "vq_up a \<le> a + 4095" unfolding vq_up_def by linarith+
qed (simp add: vq_up_def)

lemma vq_align_of_nat:
  assumes "a < 2 ^ 63"
  shows "vq_align (of_nat a) = of_nat (vq_up a)"
proof -
  have m: "(4095 :: u64) = mask 12" by (simp add: mask_eq_exp_minus_1)
  have "x AND NOT (mask 12) = push_bit 12 (drop_bit 12 x)" for x :: u64
    by (rule bit_eqI) (auto simp: bit_and_iff bit_not_iff bit_mask_iff bit_push_bit_iff bit_drop_bit_eq not_less)
  moreover have "drop_bit 12 (of_nat a + 4095 :: u64) = of_nat ((a + 4095) div 4096)"
  proof (rule word_unat_eq_iff [THEN iffD2])
    have "unat (of_nat a + 4095 :: u64) = a + 4095" using unat_of_nat64 [of "a + 4095"] assms by simp
    then show "unat (drop_bit 12 (of_nat a + 4095 :: u64)) = unat (of_nat ((a + 4095) div 4096) :: u64)"
      using assms by (simp add: drop_bit_eq_div unat_div unat_of_nat64)
  qed
  ultimately show ?thesis unfolding vq_align_def m by (simp add: push_bit_eq_mult vq_up_def)
qed

lemma ucast_nat: "n = unat (w :: u16) \<Longrightarrow> (ucast w :: u64) = of_nat n"
  by simp

lemma virtq_sizes:
  assumes n: "n = unat queue_len"
  shows "descriptor_table_size queue_len = of_nat (16 * n)" "available_ring_size queue_len = of_nat (2 * n + 4)"
    "used_ring_size queue_len = of_nat (8 * n + 4)"
    and "vq_align (descriptor_table_size queue_len + available_ring_size queue_len) = of_nat (used_off n)"
    and "vq_align (used_ring_size queue_len) = of_nat (vq_up (8 * n + 4))"
proof -
  have b: "n < 2 ^ 16" using unat_less [of queue_len] n by simp
  show sz: "descriptor_table_size queue_len = of_nat (16 * n)" "available_ring_size queue_len = of_nat (2 * n + 4)"
      "used_ring_size queue_len = of_nat (8 * n + 4)"
    unfolding descriptor_table_size_def available_ring_size_def used_ring_size_def ucast_nat [OF n] by simp_all
  have "descriptor_table_size queue_len + available_ring_size queue_len = of_nat (18 * n + 4)"
    unfolding sz of_nat_add [symmetric] by (rule arg_cong [where f = of_nat]) simp
  then show "vq_align (descriptor_table_size queue_len + available_ring_size queue_len) = of_nat (used_off n)"
    using vq_align_of_nat [of "18 * n + 4"] b by (simp only: used_off_def) simp
  show "vq_align (used_ring_size queue_len) = of_nat (vq_up (8 * n + 4))"
    unfolding sz by (rule vq_align_of_nat) (use b in simp)
qed

lemma virtq_place_layout:
  assumes "n = unat queue_len" "0 < n"
  shows "vq_layout (virtq_place index queue_len fn ctx a) n"
  using assms unfolding vq_layout_def virtq_place_def Let_def virtq_sizes(4,5) [OF assms(1)]
  unfolding virtq_sizes(1-3) [OF assms(1)] by (simp add: ctx_off_def)

text \<open>The table starts at the next page boundary, which is less than a page behind the start of the allocation.\<close>

lemma vq_align_offset:
  obtains k where "vq_align a = a + of_nat k" "k \<le> 4095"
proof -
  have m: "(4095 :: u64) = mask 12" by (simp add: mask_eq_exp_minus_1)
  have e: "x AND NOT (mask 12) = push_bit 12 (drop_bit 12 x)" for x :: u64
    by (rule bit_eqI) (auto simp: bit_and_iff bit_not_iff bit_mask_iff bit_push_bit_iff bit_drop_bit_eq not_less)
  define t where "t = take_bit 12 (a + 4095)"
  have t: "unat t \<le> 4095" unfolding t_def unsigned_take_bit_eq using take_bit_nat_less_exp [of 12 "unat (a + 4095)"] by simp
  have "vq_align a + t = a + 4095" using bits_ident [of 12 "a + 4095"] unfolding vq_align_def t_def m e by simp
  then have "vq_align a = a + (4095 - t)" by (simp add: algebra_simps)
  also have "4095 - t = of_nat (4095 - unat t)" using t by (simp add: of_nat_diff)
  finally show ?thesis using that [of "4095 - unat t"] by simp
qed

subsection \<open>Addresses inside a queue\<close>

lemma vq_offsets:
  assumes "vq_layout q n"
  shows "desc_at q i = desc_table q + of_nat (16 * i)"
    and "desc_at q i + 8 = desc_table q + of_nat (16 * i + 8)"
    and "desc_at q i + 12 = desc_table q + of_nat (16 * i + 12)"
    and "desc_at q i + 14 = desc_table q + of_nat (16 * i + 14)"
    and "avail_ring_hdr q + 2 = desc_table q + of_nat (16 * n + 2)"
    and "avail_ring q + of_nat (2 * k) = desc_table q + of_nat (16 * n + 4 + 2 * k)"
    and "used_ring_hdr q = desc_table q + of_nat (used_off n)"
    and "used_ring_hdr q + 2 = desc_table q + of_nat (used_off n + 2)"
    and "used_ring q + of_nat (8 * k) = desc_table q + of_nat (used_off n + 4 + 8 * k)"
    and "used_ring q + of_nat (8 * k) + 4 = desc_table q + of_nat (used_off n + 4 + 8 * k + 4)"
    and "desc_ctx q + of_nat (8 * i) = desc_table q + of_nat (ctx_off n + 8 * i)"
    and "unat (vq_size q) = n" "0 < n" "vq_size q \<noteq> 0" "n < 2 ^ 16"
  using assms unat_less [of "vq_size q"] by (auto simp: vq_layout_def desc_at_def unat_eq_0 [symmetric])

lemma vq_regions:
  assumes "n < 2 ^ 16"
  shows "18 * n + 4 \<le> used_off n" "used_off n + 8 * n + 4 \<le> ctx_off n" "ctx_off n + 8 * n \<le> 2 ^ 62"
  using assms vq_up_bounds [of "18 * n + 4"] vq_up_bounds [of "8 * n + 4"] unfolding ctx_off_def used_off_def by simp_all

lemma int_index_of_nat:
  assumes "i < 2 ^ 16"
  shows "int_index (of_nat i) = i"
proof -
  have b: "n < 16" if "bit (of_nat i :: u32) n" for n
  proof (rule ccontr)
    assume n: "\<not> n < 16"
    then have "(2 :: nat) ^ 16 \<le> 2 ^ n" by (intro power_increasing) simp_all
    then have "i div 2 ^ n = 0" using assms by simp
    moreover have "bit i n" using that by (simp only: bit_of_nat_iff)
    ultimately show False by (simp add: bit_iff_odd)
  qed
  have "(scast (of_nat i :: u32) :: u64) = ucast (of_nat i :: u32)"
  proof (rule bit_eqI)
    fix k assume "possible_bit TYPE(u64) k"
    have "\<not> bit (of_nat i :: u32) 31" "\<not> bit (of_nat i :: u32) k" if "32 \<le> k" using b [of 31] b [of k] that by auto
    then show "bit (scast (of_nat i :: u32) :: u64) k = bit (ucast (of_nat i :: u32) :: u64) k"
      by (cases "k < 31") (auto simp: bit_word_scast_iff bit_ucast_iff min_def split: if_splits)
  qed
  then show ?thesis using assms by (simp add: int_index_def unsigned_ucast_eq unat_of_nat take_bit_nat_eq_self)
qed

lemma of_nat16_inj: "(of_nat i :: u16) = of_nat j \<Longrightarrow> i < 2 ^ 16 \<Longrightarrow> j < 2 ^ 16 \<Longrightarrow> i = j"
  by (drule arg_cong [where f = unat]) (simp add: unat_of_nat take_bit_nat_eq_self)

lemma ucast_of_nat16: "j < 2 ^ 16 \<Longrightarrow> (ucast (of_nat j :: u16) :: u32) = of_nat j"
  unfolding word_unat_eq_iff unsigned_ucast_eq unsigned_take_bit_eq by (simp add: unat_of_nat take_bit_nat_eq_self)

lemma ucast_of_nat32: "j < 2 ^ 16 \<Longrightarrow> (ucast (of_nat j :: u32) :: u16) = of_nat j"
  unfolding word_unat_eq_iff unsigned_ucast_eq unsigned_take_bit_eq by (simp add: unat_of_nat take_bit_nat_eq_self)

subsection \<open>Who owns a descriptor\<close>

text \<open>
  A view of a queue names the owner of every descriptor: free, in the available ring, held by the device, or in the used ring and
  not yet taken back. The descriptors that are not free hold a buffer of the driver. \<open>vw_seen\<close> is the index up to which the device
  has read the available ring.
\<close>

record vq_buf =
  vb_addr :: ptr
  vb_len :: u32
  vb_writable :: bool
  vb_ctx :: ptr

record vq_view =
  vw_free :: "nat list"
  vw_avail :: "nat list"
  vw_dev :: "nat list"
  vw_used :: "nat list"
  vw_seen :: u16
  vw_buf :: "nat \<Rightarrow> vq_buf"

definition vw_owned :: "vq_view \<Rightarrow> nat list" where
  "vw_owned v = vw_avail v @ vw_dev v @ vw_used v"

fun linked :: "memory \<Rightarrow> virtq \<Rightarrow> nat list \<Rightarrow> bool" where
  "linked m q (i # j # fl) \<longleftrightarrow> load16 m (desc_at q i + 14) = of_nat j \<and> linked m q (j # fl)"
| "linked m q _ \<longleftrightarrow> True"

definition vq_free :: "memory \<Rightarrow> virtq \<Rightarrow> nat list \<Rightarrow> bool" where
  "vq_free m q fl \<longleftrightarrow> num_free_descriptors q = of_nat (length fl) \<and> (fl \<noteq> [] \<longrightarrow> free_list q = of_nat (hd fl)) \<and> linked m q fl"

definition desc_holds :: "memory \<Rightarrow> virtq \<Rightarrow> nat \<Rightarrow> vq_buf \<Rightarrow> bool" where
  "desc_holds m q i b \<longleftrightarrow> load64 m (desc_at q i) = vb_addr b \<and> load32 m (desc_at q i + 8) = vb_len b \<and>
     load16 m (desc_at q i + 12) = (if vb_writable b then VIRTQ_DESC_F_WRITE else 0) \<and> load64 m (desc_ctx q + of_nat (8 * i)) = vb_ctx b"

definition avail_slot :: "nat \<Rightarrow> vq_view \<Rightarrow> nat \<Rightarrow> nat" where
  "avail_slot n v k = unat (vw_seen v + of_nat k) mod n"

definition used_slot :: "nat \<Rightarrow> virtq \<Rightarrow> nat \<Rightarrow> nat" where
  "used_slot n q k = unat (used_idx q + of_nat k) mod n"

definition vq_rings :: "nat \<Rightarrow> memory \<Rightarrow> virtq \<Rightarrow> vq_view \<Rightarrow> bool" where
  "vq_rings n m q v \<longleftrightarrow> load16 m (avail_ring_hdr q + 2) = vw_seen v + of_nat (length (vw_avail v)) \<and>
     (\<forall>k<length (vw_avail v). load16 m (avail_ring q + of_nat (2 * avail_slot n v k)) = of_nat (vw_avail v ! k)) \<and>
     load16 m (used_ring_hdr q + 2) = used_idx q + of_nat (length (vw_used v)) \<and>
     (\<forall>k<length (vw_used v). load32 m (used_ring q + of_nat (8 * used_slot n q k)) = of_nat (vw_used v ! k))"

definition vq_inv :: "nat \<Rightarrow> memory \<Rightarrow> virtq \<Rightarrow> vq_view \<Rightarrow> bool" where
  "vq_inv n m q v \<longleftrightarrow> vq_layout q n \<and> n dvd 2 ^ 16 \<and> distinct (vw_free v @ vw_owned v) \<and> set (vw_free v @ vw_owned v) = {..<n} \<and>
     vq_free m q (vw_free v) \<and> (\<forall>i\<in>set (vw_owned v). desc_holds m q i (vw_buf v i)) \<and> vq_rings n m q v"

lemma linked_cong:
  "(\<And>i. i \<in> set fl \<Longrightarrow> load16 m (desc_at q i + 14) = load16 m' (desc_at q' i + 14)) \<Longrightarrow> linked m q fl \<longleftrightarrow> linked m' q' fl"
  by (induction m q fl rule: linked.induct) auto

lemma linked_tl: "linked m q (i # fl) \<Longrightarrow> linked m q fl"
  by (cases fl) auto

text \<open>The slots of a ring of \<open>n\<close> elements, \<open>n\<close> a power of two, do not collide when the index wraps.\<close>

lemma slot_inj:
  assumes "n dvd 2 ^ 16" "i < n" "j < n" "unat (x + of_nat i :: u16) mod n = unat (x + of_nat j :: u16) mod n"
  shows "i = j"
proof -
  have "unat (x + of_nat k :: u16) mod n = (unat x + k) mod n" for k
    using assms(1) by (simp add: unat_word_ariths unat_of_nat take_bit_eq_mod mod_mod_cancel mod_simps)
  then have "(unat x + i) mod n = (unat x + j) mod n" using assms(4) by simp
  then have "i mod n = j mod n" by (simp add: mod_add_left_eq nat_mod_eq_iff)
  then show ?thesis using assms by simp
qed

text \<open>What \<open>virtq_fill\<close> and \<open>virtq_publish\<close> do to the memory of the queue: the descriptor and its place in the ring, and nothing else.\<close>

definition put_clear :: "nat \<Rightarrow> nat \<Rightarrow> nat \<Rightarrow> nat \<Rightarrow> nat \<Rightarrow> bool" where
  "put_clear n i k off len \<longleftrightarrow> apart (16 * i) 16 off len \<and> apart (ctx_off n + 8 * i) 8 off len \<and> apart (16 * n + 2) 2 off len \<and>
     apart (16 * n + 4 + 2 * k) 2 off len"

lemma desc_apart:
  assumes "apart (16 * i) 16 off len"
  shows "apart (16 * i) 8 off len" "apart (16 * i + 8) 4 off len" "apart (16 * i + 12) 2 off len" "apart (16 * i + 14) 2 off len"
  using assms by (auto simp: apart_def)

lemma put_clear_apart:
  assumes "put_clear n i k off len"
  shows "apart (16 * i) 8 off len" "apart (16 * i + 8) 4 off len" "apart (16 * i + 12) 2 off len" "apart (16 * i + 14) 2 off len"
    "apart (ctx_off n + 8 * i) 8 off len" "apart (16 * n + 2) 2 off len" "apart (16 * n + 4 + 2 * k) 2 off len"
  using assms desc_apart [of i off len] by (auto simp: put_clear_def)

lemma desc_fields_apart:
  assumes "16 * i + 16 \<le> 2 ^ 63"
  shows "apart (16 * i + 14) 2 (16 * i) 8" "apart (16 * i + 14) 2 (16 * i + 8) 4" "apart (16 * i + 14) 2 (16 * i + 12) 2"
    "apart (16 * i + 12) 2 (16 * i) 8" "apart (16 * i + 12) 2 (16 * i + 8) 4" "apart (16 * i + 8) 4 (16 * i) 8"
  using assms by (simp_all add: apart_def)

lemma virtq_put_effect:
  assumes L: "vq_layout q n" and i: "i < n" and f: "virtq_fill i p len w c q m = (q', m1)" and k: "k = unat (load16 m (avail_ring_hdr q + 2)) mod n"
  obtains m' where "virtq_publish i q' m1 = Some m'" "desc_holds m' q i \<lparr>vb_addr = p, vb_len = len, vb_writable = w, vb_ctx = c\<rparr>"
    "load16 m' (avail_ring_hdr q + 2) = load16 m (avail_ring_hdr q + 2) + 1" "load16 m' (avail_ring q + of_nat (2 * k)) = of_nat i"
    "\<And>off len. put_clear n i k off len \<Longrightarrow> read_bytes m' (desc_table q + of_nat off) len = read_bytes m (desc_table q + of_nat off) len"
    "q' = q\<lparr>num_free_descriptors := num_free_descriptors q - 1\<rparr>"
proof -
  note o = vq_offsets [OF L]
  note r = vq_regions [OF o(15)]
  have kn: "k < n" using o(13) k by simp
  define B where "B = desc_table q"
  have q': "q' = q\<lparr>num_free_descriptors := num_free_descriptors q - 1\<rparr>" using f by (simp add: virtq_fill_def Let_def)
  have o': "desc_at q' i = desc_at q i" "avail_ring_hdr q' = avail_ring_hdr q" "avail_ring q' = avail_ring q" "vq_size q' = vq_size q"
    unfolding q' by (simp_all add: desc_at_def)
  define m2 where "m2 = store16 (B + of_nat (16 * i + 14)) 0 (store16 (B + of_nat (16 * i + 12)) (if w then VIRTQ_DESC_F_WRITE else 0)
    (store32 (B + of_nat (16 * i + 8)) len (store64 (B + of_nat (16 * i)) p (store64 (B + of_nat (ctx_off n + 8 * i)) c m))))"
  have m1: "m1 = m2" using f unfolding virtq_fill_def Let_def m2_def B_def o(1-11) [symmetric] by (auto simp: desc_at_def)
  have ap: "apart (16 * i) 16 (16 * n + 2) 2" "apart (ctx_off n + 8 * i) 8 (16 * n + 2) 2" "apart (16 * n + 4 + 2 * k) 2 (16 * n + 2) 2"
      "apart (16 * i) 16 (ctx_off n + 8 * i) 8" "16 * i + 16 \<le> 2 ^ 63" "apart (16 * n + 2) 2 (16 * n + 4 + 2 * k) 2"
    using i r kn by (simp_all add: apart_def)
  have ap2: "apart (16 * n + 2) 2 (ctx_off n + 8 * i) 8" "apart (16 * n + 4 + 2 * k) 2 (ctx_off n + 8 * i) 8"
      "apart (16 * n + 2) 2 (16 * i) 8" "apart (16 * n + 4 + 2 * k) 2 (16 * i) 8" "apart (16 * n + 2) 2 (16 * i + 8) 4"
      "apart (16 * n + 4 + 2 * k) 2 (16 * i + 8) 4" "apart (16 * n + 2) 2 (16 * i + 12) 2" "apart (16 * n + 4 + 2 * k) 2 (16 * i + 12) 2"
    using i r kn by (simp_all add: apart_def)
  note ap = ap ap2 desc_apart [OF ap(1)] desc_apart [OF ap(4)] desc_fields_apart [OF ap(5)]
  have a: "load16 m2 (B + of_nat (16 * n + 2)) = load16 m (B + of_nat (16 * n + 2))"
    unfolding m2_def by (simp only: load_store_apart ap)
  have a2: "load16 (store16 (B + of_nat (16 * n + 4 + 2 * k)) x m2) (B + of_nat (16 * n + 2)) = load16 m2 (B + of_nat (16 * n + 2))" for x
    by (simp only: load_store_apart ap)
  define m' where "m' = store16 (B + of_nat (16 * n + 2)) (load16 m (B + of_nat (16 * n + 2)) + 1) (store16 (B + of_nat (16 * n + 4 + 2 * k)) (of_nat i) m2)"
  have ks: "avail_ring q + of_nat (2 * (unat (load16 m2 (avail_ring_hdr q + 2)) mod unat (vq_size q))) = B + of_nat (16 * n + 4 + 2 * k)"
    unfolding k o B_def [symmetric] a by simp
  have "virtq_publish i q' m1 = Some m'"
    unfolding virtq_publish_def o' m1 ks Let_def m'_def using o(14) a a2 by (simp only: o B_def [symmetric] if_False)
  moreover have "desc_holds m' q i \<lparr>vb_addr = p, vb_len = len, vb_writable = w, vb_ctx = c\<rparr>"
    unfolding desc_holds_def o(2-11) unfolding o(1) B_def [symmetric] m'_def m2_def by (simp only: load_store_apart ap load64_store64_same load32_store32 load16_store16) simp
  moreover have "load16 m' (avail_ring_hdr q + 2) = load16 m (avail_ring_hdr q + 2) + 1" "load16 m' (avail_ring q + of_nat (2 * k)) = of_nat i"
    unfolding o B_def [symmetric] m'_def by (simp_all only: load_store_apart ap load16_store16)
  moreover have "read_bytes m' (desc_table q + of_nat off) len = read_bytes m (desc_table q + of_nat off) len" if "put_clear n i k off len" for off len
    unfolding m'_def m2_def B_def [symmetric] using put_clear_apart [OF that] by (simp only: read_store_apart)
  ultimately show ?thesis using q' that by blast
qed

lemma put_frame:
  assumes L: "vq_layout q n" and i: "i < n" "k < n"
    and F: "\<And>off len. put_clear n i k off len \<Longrightarrow> read_bytes m' (desc_table q + of_nat off) len = read_bytes m (desc_table q + of_nat off) len"
  shows "j < n \<Longrightarrow> j \<noteq> i \<Longrightarrow> load16 m' (desc_at q j + 14) = load16 m (desc_at q j + 14)"
    and "j < n \<Longrightarrow> j \<noteq> i \<Longrightarrow> desc_holds m' q j b = desc_holds m q j b"
    and "l < n \<Longrightarrow> l \<noteq> k \<Longrightarrow> load16 m' (avail_ring q + of_nat (2 * l)) = load16 m (avail_ring q + of_nat (2 * l))"
    and "load16 m' (used_ring_hdr q + 2) = load16 m (used_ring_hdr q + 2)" "load16 m' (used_ring_hdr q) = load16 m (used_ring_hdr q)"
    and "l < n \<Longrightarrow> load32 m' (used_ring q + of_nat (8 * l)) = load32 m (used_ring q + of_nat (8 * l))"
proof -
  note o = vq_offsets [OF L]
  note r = vq_regions [OF o(15)]
  show a: "load16 m' (desc_at q j + 14) = load16 m (desc_at q j + 14)" if "j < n" "j \<noteq> i"
    unfolding o(2-6,8-11) load16_def by (subst F) (use i r that in \<open>auto simp: put_clear_def apart_def\<close>)
  show "desc_holds m' q j b = desc_holds m q j b" if "j < n" "j \<noteq> i"
    unfolding desc_holds_def o(2-11) unfolding o(1) load64_def load32_def load16_def
    by (subst F, use i r that in \<open>(auto simp: put_clear_def apart_def)[1]\<close>)+ simp
  show "load16 m' (avail_ring q + of_nat (2 * l)) = load16 m (avail_ring q + of_nat (2 * l))" if "l < n" "l \<noteq> k"
    unfolding o(2-6,8-11) load16_def by (subst F) (use i r that in \<open>auto simp: put_clear_def apart_def\<close>)
  show "load16 m' (used_ring_hdr q + 2) = load16 m (used_ring_hdr q + 2)"
    unfolding o(2-6,8-11) load16_def by (subst F) (use i r in \<open>auto simp: put_clear_def apart_def\<close>)
  show "load16 m' (used_ring_hdr q) = load16 m (used_ring_hdr q)"
    unfolding o(7) load16_def by (subst F) (use i r in \<open>auto simp: put_clear_def apart_def\<close>)
  show "load32 m' (used_ring q + of_nat (8 * l)) = load32 m (used_ring q + of_nat (8 * l))" if "l < n"
    unfolding o(2-6,8-11) load32_def by (subst F) (use i r that in \<open>auto simp: put_clear_def apart_def\<close>)
qed

subsection \<open>Sending a buffer\<close>

definition vw_send :: "vq_buf \<Rightarrow> vq_view \<Rightarrow> vq_view" where
  "vw_send b v = v\<lparr>vw_free := tl (vw_free v), vw_avail := vw_avail v @ [hd (vw_free v)], vw_buf := (vw_buf v)(hd (vw_free v) := b)\<rparr>"

lemma vq_inv_bounds:
  assumes "vq_inv n m q v"
  shows "i \<in> set (vw_free v) \<union> set (vw_owned v) \<Longrightarrow> i < n" "length (vw_free v) + length (vw_owned v) = n" "n < 2 ^ 16" "vq_layout q n" "0 < n"
proof -
  have *: "distinct (vw_free v @ vw_owned v)" "set (vw_free v @ vw_owned v) = {..<n}" "vq_layout q n" using assms by (auto simp: vq_inv_def)
  show "i < n" if "i \<in> set (vw_free v) \<union> set (vw_owned v)" using that *(2) by auto
  show "length (vw_free v) + length (vw_owned v) = n" using distinct_card [OF *(1)] unfolding *(2) by simp
  show "n < 2 ^ 16" "vq_layout q n" "0 < n" using vq_offsets(13,15) [OF *(3)] *(3) by auto
qed

lemma virtq_take_inv:
  assumes I: "vq_inv n m q v" and f: "vw_free v = i # fl"
  shows "virtq_take q m = (i, q\<lparr>free_list := ucast (load16 m (desc_at q i + 14))\<rparr>)"
    and "fl \<noteq> [] \<Longrightarrow> ucast (load16 m (desc_at q i + 14)) = (of_nat (hd fl) :: u32)"
    and "free_list q \<noteq> - 1" "num_free_descriptors q \<noteq> 0" "num_free_descriptors q - 1 = of_nat (length fl)"
proof -
  have b: "i < 2 ^ 16" using vq_inv_bounds(1) [OF I, of i] vq_inv_bounds(3) [OF I] f by simp
  have b: "i < 2 ^ 16" "length (i # fl) < 2 ^ 16" using b vq_inv_bounds(2,3) [OF I] f by (simp_all, linarith?)
  have F: "num_free_descriptors q = of_nat (length (i # fl))" "free_list q = of_nat i" "linked m q (i # fl)"
    using I f by (auto simp: vq_inv_def vq_free_def)
  show "virtq_take q m = (i, q\<lparr>free_list := ucast (load16 m (desc_at q i + 14))\<rparr>)"
    using F b by (simp add: virtq_take_def int_index_of_nat)
  show "ucast (load16 m (desc_at q i + 14)) = (of_nat (hd fl) :: u32)" if ne: "fl \<noteq> []"
  proof -
    obtain j fl' where fl: "fl = j # fl'" using ne by (cases fl) auto
    have "j < 2 ^ 16" using vq_inv_bounds(1,3) [OF I] f fl by fastforce
    then show ?thesis using F(3) fl by (simp add: ucast_of_nat16)
  qed
  have "unat (free_list q) = i" "unat (num_free_descriptors q) = length (i # fl)"
    using b F(1,2) by (simp_all add: unat_of_nat take_bit_nat_eq_self del: of_nat_Suc)
  then show "free_list q \<noteq> - 1" "num_free_descriptors q \<noteq> 0" using b by (auto simp: unsigned_minus_1_eq_mask mask_eq_exp_minus_1)
  show "num_free_descriptors q - 1 = of_nat (length fl)" using F(1) by simp
qed

text \<open>The ring part of the invariant when one more descriptor is made available.\<close>

lemma put_rings:
  assumes R: "vq_rings n m q v" and d: "n dvd 2 ^ 16" and free: "vw_free v = i # fl" and len: "length (vw_free v) + length (vw_owned v) = n"
    and k: "k = unat (load16 m (avail_ring_hdr q + 2)) mod n"
    and q': "avail_ring_hdr q' = avail_ring_hdr q" "avail_ring q' = avail_ring q" "used_ring_hdr q' = used_ring_hdr q" "used_ring q' = used_ring q"
      "used_idx q' = used_idx q"
    and new: "load16 m' (avail_ring_hdr q + 2) = load16 m (avail_ring_hdr q + 2) + 1" "load16 m' (avail_ring q + of_nat (2 * k)) = of_nat i"
    and fr: "\<And>l. l < n \<Longrightarrow> l \<noteq> k \<Longrightarrow> load16 m' (avail_ring q + of_nat (2 * l)) = load16 m (avail_ring q + of_nat (2 * l))"
      "load16 m' (used_ring_hdr q + 2) = load16 m (used_ring_hdr q + 2)"
      "\<And>l. l < n \<Longrightarrow> load32 m' (used_ring q + of_nat (8 * l)) = load32 m (used_ring q + of_nat (8 * l))"
  shows "vq_rings n m' q' (vw_send b v)"
proof -
  have n: "0 < n" "length (vw_avail v) < n" using len free by (auto simp: vw_owned_def)
  have av: "load16 m (avail_ring_hdr q + 2) = vw_seen v + of_nat (length (vw_avail v))" using R by (simp add: vq_rings_def)
  have k: "k = avail_slot n v (length (vw_avail v))" unfolding k av avail_slot_def by simp
  have slot: "avail_slot n (vw_send b v) j = avail_slot n v j" "used_slot n q' j = used_slot n q j" "used_slot n q j < n" "avail_slot n v j < n" for j
    using n by (simp_all add: avail_slot_def used_slot_def vw_send_def q')
  have "load16 m' (avail_ring q + of_nat (2 * avail_slot n v j)) = of_nat ((vw_avail v @ [i]) ! j)" if "j < length (vw_avail v @ [i])" for j
  proof (cases "j = length (vw_avail v)")
    case True
    then show ?thesis using new(2) k by simp
  next
    case False
    then have "avail_slot n v j \<noteq> k" using slot_inj [OF d, of j "length (vw_avail v)" "vw_seen v"] that n by (auto simp: k avail_slot_def)
    then show ?thesis using fr(1) [OF slot(4)] R that False by (simp add: vq_rings_def nth_append)
  qed
  then show ?thesis
    using R new(1) fr(2) av free fr(3) [OF slot(3)] unfolding vq_rings_def slot q' by (simp add: vw_send_def add_ac)
qed

lemma virtq_put_inv:
  assumes I: "vq_inv n m q v" and f: "vw_free v = i # fl" and q1: "q1 = q\<lparr>free_list := ucast (load16 m (desc_at q i + 14))\<rparr>"
    and fill: "virtq_fill i p len w c q1 m = (q', m1)"
  obtains m' where "virtq_publish i q' m1 = Some m'" "load16 m' (used_ring_hdr q') = load16 m (used_ring_hdr q')"
    "vq_inv n m' q' (vw_send \<lparr>vb_addr = p, vb_len = len, vb_writable = w, vb_ctx = c\<rparr> v)"
    "vq_index q' = vq_index q"
proof -
  note b = vq_inv_bounds [OF I]
  have i: "i < n" using b(1) f by auto
  have L: "vq_layout q1 n" using b(4) unfolding q1 by (simp add: vq_layout_def)
  define a where "a = load16 m (avail_ring_hdr q1 + 2)"
  define k where "k = unat a mod n"
  have k: "k = unat (load16 m (avail_ring_hdr q1 + 2)) mod n" "k < n" using b(5) by (simp_all add: k_def a_def)
  obtain m' where m': "virtq_publish i q' m1 = Some m'" "desc_holds m' q1 i \<lparr>vb_addr = p, vb_len = len, vb_writable = w, vb_ctx = c\<rparr>"
      "load16 m' (avail_ring_hdr q1 + 2) = a + 1" "load16 m' (avail_ring q1 + of_nat (2 * k)) = of_nat i"
      "\<And>off len. put_clear n i k off len \<Longrightarrow> read_bytes m' (desc_table q1 + of_nat off) len = read_bytes m (desc_table q1 + of_nat off) len"
      and q': "q' = q1\<lparr>num_free_descriptors := num_free_descriptors q1 - 1\<rparr>"
    using virtq_put_effect [OF L i fill k(1)] unfolding a_def [symmetric] by metis
  note fr = put_frame [OF L i k(2) m'(5)]
  have same: "desc_at q' = desc_at q1" "desc_holds m'' q' = desc_holds m'' q1" "desc_at q = desc_at q1" "desc_holds m'' q = desc_holds m'' q1" for m''
    by (auto simp: q' q1 desc_at_def desc_holds_def fun_eq_iff)
  show ?thesis
  proof (rule that [OF m'(1)])
    show "load16 m' (used_ring_hdr q') = load16 m (used_ring_hdr q')" "vq_index q' = vq_index q" using fr(5) by (simp_all add: q' q1)
    have old: "distinct (i # fl @ vw_owned v)" "set (i # fl @ vw_owned v) = {..<n}" "n dvd 2 ^ 16" "linked m q (i # fl)"
        "\<And>j. j \<in> set (vw_owned v) \<Longrightarrow> desc_holds m q1 j (vw_buf v j)" "vq_rings n m q v"
      using I f by (auto simp: vq_inv_def vq_free_def same)
    have lt: "j < n" if "j \<in> set (i # fl @ vw_owned v)" for j using that unfolding old(2) by simp
    have "linked m' q' fl"
      using linked_tl [OF old(4)] old(1) lt by (subst linked_cong [where m' = m and q' = q]) (auto simp: same intro!: fr(1))
    then have free: "vq_free m' q' fl"
      using virtq_take_inv(2,5) [OF I f] by (simp add: vq_free_def q' q1)
    have owned: "desc_holds m' q' j (vw_buf (vw_send \<lparr>vb_addr = p, vb_len = len, vb_writable = w, vb_ctx = c\<rparr> v) j)"
      if "j \<in> set (vw_owned v @ [i])" for j
      using that m'(2) old(1,5) fr(2) lt by (auto simp: same vw_send_def f)
    have rings: "vq_rings n m' q' (vw_send \<lparr>vb_addr = p, vb_len = len, vb_writable = w, vb_ctx = c\<rparr> v)"
      using old(3,6) b f fr(3-6) m'(3,4) k by (intro put_rings [where q = q]) (auto simp: q' q1 a_def)
    show "vq_inv n m' q' (vw_send \<lparr>vb_addr = p, vb_len = len, vb_writable = w, vb_ctx = c\<rparr> v)"
      unfolding vq_inv_def
    proof (intro conjI)
      show "vq_layout q' n" using L by (simp add: q' vq_layout_def)
    qed (use old(1-3) free owned rings in \<open>auto simp: vw_send_def vw_owned_def f\<close>)
  qed
qed

text \<open>Memory outside the queue is left alone.\<close>

lemma store_outside:
  assumes "N \<le> unat (x - a)"
  shows "off + 8 \<le> N \<Longrightarrow> store64 (a + of_nat off) v m x = m x"
    and "off + 4 \<le> N \<Longrightarrow> store32 (a + of_nat off) w m x = m x"
    and "off + 2 \<le> N \<Longrightarrow> store16 (a + of_nat off) y m x = m x"
proof -
  have *: "\<not> unat (x - (a + of_nat off)) < k" if "off + k \<le> N" "0 < k" for k
    using assms that unat_less64 [of "x - a"] by (subst unat_minus_offset) auto
  show "store64 (a + of_nat off) v m x = m x" if "off + 8 \<le> N" using * [OF that] by (simp add: store64_def write_bytes_def)
  show "store32 (a + of_nat off) w m x = m x" if "off + 4 \<le> N" using * [OF that] by (simp add: store32_def write_bytes_def)
  show "store16 (a + of_nat off) y m x = m x" if "off + 2 \<le> N" using * [OF that] by (simp add: store16_def write_bytes_def)
qed

lemma virtq_put_outside:
  assumes L: "vq_layout q n" and i: "i < n" and f: "virtq_fill i p len w c q m = (q', m1)" and pu: "virtq_publish i q' m1 = Some m'"
    and x: "ctx_off n + 8 * n \<le> unat (x - desc_table q)"
  shows "m' x = m x"
proof -
  note o = vq_offsets [OF L]
  note r = vq_regions [OF o(15)]
  have q': "q' = q\<lparr>num_free_descriptors := num_free_descriptors q - 1\<rparr>" using f by (simp add: virtq_fill_def Let_def)
  have d: "desc_at (q\<lparr>num_free_descriptors := y\<rparr>) = desc_at q" for y by (simp add: desc_at_def fun_eq_iff)
  define k where "k = unat (load16 m1 (avail_ring_hdr q + 2)) mod n"
  have k: "k < n" using o(13) by (simp add: k_def)
  note st = store_outside [OF x]
  have a: "store64 (desc_at q i) v1 mm x = mm x" "store64 (desc_ctx q + of_nat (8 * i)) v1 mm x = mm x" "store32 (desc_at q i + 8) v2 mm x = mm x"
      "store16 (desc_at q i + 12) v3 mm x = mm x" "store16 (desc_at q i + 14) v3 mm x = mm x" "store16 (avail_ring_hdr q + 2) v3 mm x = mm x"
      "store16 (avail_ring q + of_nat (2 * k)) v3 mm x = mm x" for mm v1 v2 v3
    unfolding o(2-6,8-11) unfolding o(1) by (rule st; use i k r in simp)+
  have "m1 x = m x" using f unfolding virtq_fill_def Let_def d by (auto simp: a simp del: of_nat_mult)
  moreover have "m' x = m1 x" using pu o(14) unfolding virtq_publish_def Let_def q' by (auto simp: o(12) k_def [symmetric] a simp del: of_nat_mult)
  ultimately show ?thesis by simp
qed

lemma irq_save_restore: "arch_irq_save h = (flags, h') \<Longrightarrow> arch_irq_restore flags h' = h"
  by (auto simp: arch_irq_save_def arch_irq_restore_def arch_disable_interrupts_def Let_def)

lemma dev_write_reg_state:
  "mem (dev_write_reg ops d reg x s) = mem s" "vqs (dev_write_reg ops d reg x s) = vqs s"
  by (simp_all add: dev_write_reg_def)

lemma virtq_send_buffer_ok:
  assumes I: "vq_inv n (mem s) (vqs s p) v" and f: "vw_free v \<noteq> []" and a: "p \<noteq> NULL" "buf \<noteq> NULL" "len \<noteq> 0"
  obtains q' m' where "vq_inv n m' q' (vw_send \<lparr>vb_addr = buf, vb_len = len, vb_writable = w, vb_ctx = c\<rparr> v)"
    "virtq_send_buffer ops d p buf len w c s =
       (let s' = s\<lparr>vqs := (vqs s)(p := q'), mem := m'\<rparr>
        in Some (E_OK, if load16 (mem s) (used_ring_hdr q') AND VIRTQ_USED_F_NO_NOTIFY = 0
          then dev_write_reg ops d queue_notify (vq_index (vqs s p)) s' else s'))"
    "vq_irq_handler q' = vq_irq_handler (vqs s p)" "vq_irq_handler_ctx q' = vq_irq_handler_ctx (vqs s p)"
    "\<And>x. ctx_off n + 8 * n \<le> unat (x - desc_table (vqs s p)) \<Longrightarrow> m' x = mem s x"
proof -
  obtain i fl where fl: "vw_free v = i # fl" using f by (cases "vw_free v") auto
  define q1 where "q1 = (vqs s p)\<lparr>free_list := ucast (load16 (mem s) (desc_at (vqs s p) i + 14))\<rparr>"
  obtain q' m1 where fill: "virtq_fill i buf len w c q1 (mem s) = (q', m1)" by fastforce
  obtain m' where m': "virtq_publish i q' m1 = Some m'" "load16 m' (used_ring_hdr q') = load16 (mem s) (used_ring_hdr q')"
    "vq_inv n m' q' (vw_send \<lparr>vb_addr = buf, vb_len = len, vb_writable = w, vb_ctx = c\<rparr> v)" "vq_index q' = vq_index (vqs s p)"
    by (rule virtq_put_inv [OF I fl q1_def fill])
  obtain flags h where sv: "arch_irq_save (irqs s) = (flags, h)" by fastforce
  note t = virtq_take_inv [OF I fl]
  have "virtq_send_buffer ops d p buf len w c s =
       (let s' = s\<lparr>vqs := (vqs s)(p := q'), mem := m'\<rparr>
        in Some (E_OK, if load16 (mem s) (used_ring_hdr q') AND VIRTQ_USED_F_NO_NOTIFY = 0
          then dev_write_reg ops d queue_notify (vq_index (vqs s p)) s' else s'))"
    using a t(3,4) t(1) [folded q1_def] fill m' sv irq_save_restore [OF sv] by (simp add: virtq_send_buffer_def Let_def)
  moreover have "vq_irq_handler q' = vq_irq_handler (vqs s p)" "vq_irq_handler_ctx q' = vq_irq_handler_ctx (vqs s p)"
    using fill by (auto simp: virtq_fill_def Let_def q1_def)
  moreover have "m' x = mem s x" if "ctx_off n + 8 * n \<le> unat (x - desc_table (vqs s p))" for x
  proof (rule virtq_put_outside [OF _ _ fill m'(1)])
    show "vq_layout q1 n" using vq_inv_bounds(4) [OF I] by (simp add: q1_def vq_layout_def)
    show "i < n" using vq_inv_bounds(1) [OF I] fl by simp
  qed (use that in \<open>simp add: q1_def\<close>)
  ultimately show ?thesis using m'(3) that by blast
qed

lemma virtq_send_buffer_full:
  assumes I: "vq_inv n (mem s) (vqs s p) v" and f: "vw_free v = []"
  shows "virtq_send_buffer ops d p buf len w c s = Some (if p = NULL \<or> buf = NULL \<or> len = 0 then E_INVAL else E_NOMEM, s)"
  using assms by (simp add: virtq_send_buffer_def vq_inv_def vq_free_def)

subsection \<open>Completion\<close>

definition vw_complete :: "vq_view \<Rightarrow> vq_view" where
  "vw_complete v = v\<lparr>vw_used := tl (vw_used v), vw_free := hd (vw_used v) # vw_free v\<rparr>"

definition vq_give_back :: "nat \<Rightarrow> virtq \<Rightarrow> virtq" where
  "vq_give_back i q = q\<lparr>free_list := of_nat i, used_idx := used_idx q + 1, num_free_descriptors := num_free_descriptors q + 1\<rparr>"

lemma link_frame:
  assumes L: "vq_layout q n" and i: "i < n" and m': "m' = store16 (desc_at q i + 14) x m"
  shows "load16 m' (desc_at q i + 14) = x"
    and "j < n \<Longrightarrow> j \<noteq> i \<Longrightarrow> load16 m' (desc_at q j + 14) = load16 m (desc_at q j + 14)"
    and "j < n \<Longrightarrow> j \<noteq> i \<Longrightarrow> desc_holds m' q j b = desc_holds m q j b"
    and "load16 m' (avail_ring_hdr q + 2) = load16 m (avail_ring_hdr q + 2)"
    and "l < n \<Longrightarrow> load16 m' (avail_ring q + of_nat (2 * l)) = load16 m (avail_ring q + of_nat (2 * l))"
    and "load16 m' (used_ring_hdr q + 2) = load16 m (used_ring_hdr q + 2)"
    and "l < n \<Longrightarrow> load32 m' (used_ring q + of_nat (8 * l)) = load32 m (used_ring q + of_nat (8 * l))"
proof -
  note o = vq_offsets [OF L]
  note r = vq_regions [OF o(15)]
  have F: "load64 m' (desc_table q + of_nat off) = load64 m (desc_table q + of_nat off)" if "apart (16 * i + 14) 2 off 8" for off
    unfolding m' o(4) using that by (rule load_store_apart)
  have G: "load32 m' (desc_table q + of_nat off) = load32 m (desc_table q + of_nat off)" if "apart (16 * i + 14) 2 off 4" for off
    unfolding m' o(4) using that by (rule load_store_apart)
  have H: "load16 m' (desc_table q + of_nat off) = load16 m (desc_table q + of_nat off)" if "apart (16 * i + 14) 2 off 2" for off
    unfolding m' o(4) using that by (rule load_store_apart)
  show "load16 m' (desc_at q i + 14) = x" by (simp add: m')
  show "load16 m' (desc_at q j + 14) = load16 m (desc_at q j + 14)" if "j < n" "j \<noteq> i"
    unfolding o(4) by (rule H) (use i r that in \<open>auto simp: apart_def\<close>)
  show "desc_holds m' q j b = desc_holds m q j b" if j: "j < n" "j \<noteq> i"
  proof -
    have "apart (16 * i + 14) 2 (16 * j) 8" "apart (16 * i + 14) 2 (16 * j + 8) 4" "apart (16 * i + 14) 2 (16 * j + 12) 2"
        "apart (16 * i + 14) 2 (ctx_off n + 8 * j) 8"
      using j i r by (cases "i < j", simp_all add: apart_def)+
    then show ?thesis unfolding desc_holds_def o(2-6,8-11) unfolding o(1) by (simp only: F G H)
  qed
  show "load16 m' (avail_ring_hdr q + 2) = load16 m (avail_ring_hdr q + 2)" "load16 m' (used_ring_hdr q + 2) = load16 m (used_ring_hdr q + 2)"
    unfolding o(2-6,8-11) by (rule H, use i r in \<open>simp add: apart_def\<close>)+
  show "load16 m' (avail_ring q + of_nat (2 * l)) = load16 m (avail_ring q + of_nat (2 * l))"
      "load32 m' (used_ring q + of_nat (8 * l)) = load32 m (used_ring q + of_nat (8 * l))" if "l < n"
    unfolding o(2-6,8-11) by (rule H G, use i r that in \<open>simp add: apart_def\<close>)+
qed

lemma used_head:
  assumes I: "vq_inv n m q v" and u: "vw_used v = i # us"
  shows "load32 m (used_ring q + of_nat (8 * (unat (used_idx q) mod unat (vq_size q)))) = of_nat i"
    and "used_idx q \<noteq> load16 m (used_ring_hdr q + 2)" "i < n" "i \<in> set (vw_owned v)" "int_index (of_nat i) = i" "desc_holds m q i (vw_buf v i)"
proof -
  note b = vq_inv_bounds [OF I]
  have R: "vq_rings n m q v" using I by (simp add: vq_inv_def)
  show "load32 m (used_ring q + of_nat (8 * (unat (used_idx q) mod unat (vq_size q)))) = of_nat i"
    using R u vq_offsets(12) [OF b(4)] by (force simp: vq_rings_def used_slot_def)
  define l where "l = length (vw_used v)"
  have l: "0 < l" "l < 2 ^ 16" using b(2,3) u by (simp_all add: l_def vw_owned_def)
  then have "(of_nat l :: u16) \<noteq> 0" using of_nat16_inj [of l 0] by auto
  then show "used_idx q \<noteq> load16 m (used_ring_hdr q + 2)" using R by (simp add: vq_rings_def l_def [symmetric])
  show "i \<in> set (vw_owned v)" using u by (simp add: vw_owned_def)
  then show "i < n" "desc_holds m q i (vw_buf v i)" using b(1) I by (auto simp: vq_inv_def)
  then show "int_index (of_nat i) = i" using b(3) by (intro int_index_of_nat) simp
qed

lemma give_back_inv:
  assumes I: "vq_inv n m q v" and u: "vw_used v = i # us" and m': "m' = store16 (desc_at q i + 14) (ucast (free_list q)) m"
  shows "vq_inv n m' (vq_give_back i q) (vw_complete v)"
proof -
  note b = vq_inv_bounds [OF I]
  note h = used_head [OF I u]
  note fr = link_frame [OF b(4) h(3) m']
  have old: "distinct (vw_free v @ vw_owned v)" "set (vw_free v @ vw_owned v) = {..<n}" "n dvd 2 ^ 16" "vq_free m q (vw_free v)"
      "\<And>j. j \<in> set (vw_owned v) \<Longrightarrow> desc_holds m q j (vw_buf v j)" "vq_rings n m q v"
    using I by (auto simp: vq_inv_def)
  have ni: "i \<notin> set (vw_free v)" using old(1) h(4) by auto
  have same: "desc_at (vq_give_back i q) = desc_at q" "desc_holds m'' (vq_give_back i q) = desc_holds m'' q" for m''
    by (auto simp: vq_give_back_def desc_at_def desc_holds_def fun_eq_iff)
  have "linked m' (vq_give_back i q) (vw_free v)"
    using old(4) ni b(1) by (subst linked_cong [where m' = m and q' = q]) (auto simp: same vq_free_def intro!: fr(2))
  moreover have "load16 m' (desc_at q i + 14) = of_nat (hd (vw_free v))" if "vw_free v \<noteq> []"
  proof -
    have "hd (vw_free v) < 2 ^ 16" using b(1) [of "hd (vw_free v)"] b(3) that by simp
    then show ?thesis using fr(1) old(4) that by (simp add: vq_free_def ucast_of_nat32)
  qed
  ultimately have "linked m' (vq_give_back i q) (i # vw_free v)" by (cases "vw_free v") (auto simp: same)
  then have free: "vq_free m' (vq_give_back i q) (i # vw_free v)"
    using old(4) unfolding vq_free_def by (intro conjI) (simp_all add: vq_give_back_def)
  have slot: "used_slot n (vq_give_back i q) k = used_slot n q (Suc k)" "avail_slot n (vw_complete v) k = avail_slot n v k"
      "used_slot n q k < n" "avail_slot n v k < n" for k
    using b(5) by (simp_all add: used_slot_def avail_slot_def vq_give_back_def vw_complete_def add_ac)
  have "load32 m (used_ring q + of_nat (8 * used_slot n q (Suc k))) = of_nat (us ! k)" if "k < length us" for k
    using old(6) that u by (auto simp: vq_rings_def dest!: spec [of _ "Suc k"])
  then have rings: "vq_rings n m' (vq_give_back i q) (vw_complete v)"
    using old(6) fr(4,6) fr(5) [OF slot(4)] fr(7) [OF slot(3)] u
    unfolding vq_rings_def slot by (simp add: vq_give_back_def vw_complete_def add_ac)
  show ?thesis unfolding vq_inv_def
  proof (intro conjI)
    show "vq_layout (vq_give_back i q) n" using b(4) by (simp add: vq_give_back_def vq_layout_def)
    show "\<forall>j\<in>set (vw_owned (vw_complete v)). desc_holds m' (vq_give_back i q) j (vw_buf (vw_complete v) j)"
      using old(1,5) u fr(3) b(1) by (auto simp: same vw_complete_def vw_owned_def)
  qed (use old(1-3) free rings u in \<open>auto simp: vw_complete_def vw_owned_def\<close>)
qed

text \<open>
  What the completion interrupt relies on of the handler of the queue \<open>p\<close>: while it is ready for \<open>k\<close> more completions it returns,
  leaves the queue and its memory alone, and notes what it was given.
\<close>

locale vq_client =
  fixes call :: "ptr \<Rightarrow> ptr \<Rightarrow> ptr \<Rightarrow> ptr \<Rightarrow> u64 \<Rightarrow> 'z dev_state_scheme \<Rightarrow> 'z dev_state_scheme option"
    and fn :: ptr and hctx :: ptr and p :: ptr
    and ready :: "nat \<Rightarrow> 'z dev_state_scheme \<Rightarrow> bool"
    and noted :: "'z dev_state_scheme \<Rightarrow> 'e list"
    and note_of :: "ptr \<Rightarrow> ptr \<Rightarrow> u64 \<Rightarrow> 'e list"
  assumes call_returns: "ready (Suc k) s \<Longrightarrow>
      \<exists>s'. call fn hctx c a l s = Some s' \<and> ready k s' \<and> vqs s' p = vqs s p \<and> mem s' = mem s \<and> noted s' = noted s @ note_of c a l"
    and ready_queue: "ready k (s\<lparr>mem := m, vqs := (vqs s)(p := q)\<rparr>) = ready k s"
    and noted_queue: "noted (s\<lparr>mem := m, vqs := (vqs s)(p := q)\<rparr>) = noted s"
begin

lemma vq_complete_step:
  assumes I: "vq_inv n (mem s) (vqs s p) v" and u: "vw_used v = i # us" and fn: "fn \<noteq> NULL" "vq_irq_handler (vqs s p) = fn" "vq_irq_handler_ctx (vqs s p) = hctx"
    and r: "ready (Suc k) s"
  obtains s' where "vq_complete call p s = Some s'" "vq_inv n (mem s') (vqs s' p) (vw_complete v)" "ready k s'"
    "noted s' = noted s @ note_of (vb_ctx (vw_buf v i)) (vb_addr (vw_buf v i)) (ucast (vb_len (vw_buf v i)))"
    "vq_irq_handler (vqs s' p) = fn" "vq_irq_handler_ctx (vqs s' p) = hctx"
proof -
  note h = used_head [OF I u]
  define q where "q = vqs s p"
  obtain s1 where s1: "call fn hctx (vb_ctx (vw_buf v i)) (vb_addr (vw_buf v i)) (ucast (vb_len (vw_buf v i))) s = Some s1"
      "ready k s1" "vqs s1 p = q" "mem s1 = mem s"
      "noted s1 = noted s @ note_of (vb_ctx (vw_buf v i)) (vb_addr (vw_buf v i)) (ucast (vb_len (vw_buf v i)))"
    using call_returns [OF r] unfolding q_def by blast
  define s' where "s' = s1\<lparr>mem := store16 (desc_at q i + 14) (ucast (free_list q)) (mem s1), vqs := (vqs s1)(p := vq_give_back i q)\<rparr>"
  have "vq_size q \<noteq> 0" using vq_offsets(14) [OF vq_inv_bounds(4) [OF I]] by (simp add: q_def)
  then have "vq_complete call p s = Some s'"
    using h s1 fn unfolding vq_complete_def desc_holds_def Let_def
    by (simp add: q_def [symmetric] s'_def vq_give_back_def)
  moreover have "vq_inv n (mem s') (vqs s' p) (vw_complete v)"
    using give_back_inv [OF I u refl] s1(4) by (simp add: s'_def q_def)
  moreover have "ready k s'" "noted s' = noted s1" unfolding s'_def using ready_queue noted_queue s1(2) by auto
  moreover have "vq_irq_handler (vqs s' p) = fn" "vq_irq_handler_ctx (vqs s' p) = hctx" using fn by (simp_all add: s'_def vq_give_back_def q_def)
  ultimately show ?thesis using that s1(5) by metis
qed

lemma handle_vq_irq_returns:
  assumes "vq_inv n (mem s) (vqs s p) v" "fn \<noteq> NULL" "vq_irq_handler (vqs s p) = fn" "vq_irq_handler_ctx (vqs s p) = hctx"
    "ready (length (vw_used v) + k) s"
  shows "\<exists>s'. handle_vq_irq call p s = Some s' \<and> ready k s' \<and>
    vq_inv n (mem s') (vqs s' p) (v\<lparr>vw_used := [], vw_free := rev (vw_used v) @ vw_free v\<rparr>) \<and>
    noted s' = noted s @ concat (map (\<lambda>i. note_of (vb_ctx (vw_buf v i)) (vb_addr (vw_buf v i)) (ucast (vb_len (vw_buf v i)))) (vw_used v)) \<and>
    vq_irq_handler (vqs s' p) = fn \<and> vq_irq_handler_ctx (vqs s' p) = hctx"
  using assms
proof (induction "vw_used v" arbitrary: s v)
  case Nil
  then have "used_idx (vqs s p) = load16 (mem s) (used_ring_hdr (vqs s p) + 2)" by (simp add: vq_inv_def vq_rings_def flip: Nil(1))
  moreover have e: "v\<lparr>vw_used := []\<rparr> = v" using Nil(1) by (cases v) simp
  ultimately show ?case using Nil by (simp add: handle_vq_irq.simps e)
next
  case (Cons i us)
  have r: "ready (Suc (length us + k)) s" using Cons.prems(5) Cons.hyps(2) by (metis add_Suc length_Cons)
  obtain s1 where s1: "vq_complete call p s = Some s1" "vq_inv n (mem s1) (vqs s1 p) (vw_complete v)" "ready (length us + k) s1"
    "noted s1 = noted s @ note_of (vb_ctx (vw_buf v i)) (vb_addr (vw_buf v i)) (ucast (vb_len (vw_buf v i)))"
    "vq_irq_handler (vqs s1 p) = fn" "vq_irq_handler_ctx (vqs s1 p) = hctx"
    using vq_complete_step [OF Cons.prems(1) Cons.hyps(2) [symmetric] Cons.prems(2-4) r] by metis
  have w: "vw_used (vw_complete v) = us" "vw_buf (vw_complete v) = vw_buf v" "vw_free (vw_complete v) = i # vw_free v"
      "(vw_complete v)\<lparr>vw_used := [], vw_free := rev us @ i # vw_free v\<rparr> = v\<lparr>vw_used := [], vw_free := rev (i # us) @ vw_free v\<rparr>"
    using Cons.hyps(2) by (simp_all add: vw_complete_def flip: Cons.hyps(2))
  have "handle_vq_irq call p s = handle_vq_irq call p s1"
    using used_head(2) [OF Cons.prems(1) Cons.hyps(2) [symmetric]] s1(1) by (subst handle_vq_irq.simps) simp
  then show ?case
    using Cons.hyps(1) [of "vw_complete v" s1] s1 Cons.prems(2) w by (simp flip: Cons.hyps(2))
qed

end

subsection \<open>The device\<close>

text \<open>
  The other side of the queue, as the virtio specification describes it: the device takes the next entry of the available ring, and
  returns a descriptor it holds by an entry of the used ring.
\<close>

definition dev_entry :: "nat \<Rightarrow> virtq \<Rightarrow> vq_view \<Rightarrow> memory \<Rightarrow> nat" where
  "dev_entry n q v m = unat (load16 m (avail_ring q + of_nat (2 * avail_slot n v 0)))"

definition vw_fetch :: "nat \<Rightarrow> vq_view \<Rightarrow> vq_view" where
  "vw_fetch i v = v\<lparr>vw_avail := tl (vw_avail v), vw_dev := vw_dev v @ [i], vw_seen := vw_seen v + 1\<rparr>"

definition dev_return :: "nat \<Rightarrow> virtq \<Rightarrow> nat \<Rightarrow> u32 \<Rightarrow> memory \<Rightarrow> memory" where
  "dev_return n q i len m =
     (let idx = load16 m (used_ring_hdr q + 2);
          e = used_ring q + of_nat (8 * (unat idx mod n));
          m = store32 e (of_nat i) m;
          m = store32 (e + 4) len m
      in store16 (used_ring_hdr q + 2) (idx + 1) m)"

definition vw_return :: "nat \<Rightarrow> vq_view \<Rightarrow> vq_view" where
  "vw_return i v = v\<lparr>vw_dev := remove1 i (vw_dev v), vw_used := vw_used v @ [i]\<rparr>"

lemma vw_fetch_inv:
  assumes I: "vq_inv n m q v" and a: "load16 m (avail_ring_hdr q + 2) \<noteq> vw_seen v"
  shows "\<exists>av. vw_avail v = dev_entry n q v m # av" "vq_inv n m q (vw_fetch (dev_entry n q v m) v)"
proof -
  note b = vq_inv_bounds [OF I]
  have R: "vq_rings n m q v" using I by (simp add: vq_inv_def)
  then obtain i av where av: "vw_avail v = i # av" using a by (cases "vw_avail v") (auto simp: vq_rings_def)
  have "i < 2 ^ 16" using b(1) [of i] b(3) av by (simp add: vw_owned_def)
  then have i: "dev_entry n q v m = i" using R av by (force simp: vq_rings_def dev_entry_def unat_of_nat take_bit_nat_eq_self)
  show "\<exists>av. vw_avail v = dev_entry n q v m # av" using av i by simp
  have slot: "avail_slot n (vw_fetch i v) k = avail_slot n v (Suc k)" for k by (simp add: avail_slot_def vw_fetch_def add_ac)
  have "load16 m (avail_ring q + of_nat (2 * avail_slot n v (Suc k))) = of_nat (av ! k)" if "k < length av" for k
    using R that av by (auto simp: vq_rings_def dest!: spec [of _ "Suc k"])
  then have "vq_rings n m q (vw_fetch i v)"
    using R av unfolding vq_rings_def slot by (simp add: vw_fetch_def add_ac)
  then show "vq_inv n m q (vw_fetch (dev_entry n q v m) v)"
    using I av unfolding vq_inv_def i by (auto simp: vw_fetch_def vw_owned_def)
qed

lemma return_frame:
  assumes L: "vq_layout q n" and k: "k = unat (load16 m (used_ring_hdr q + 2)) mod n" and m': "m' = dev_return n q i len m"
  shows "load16 m' (used_ring_hdr q + 2) = load16 m (used_ring_hdr q + 2) + 1"
    and "load32 m' (used_ring q + of_nat (8 * k)) = of_nat i"
    and "l < n \<Longrightarrow> l \<noteq> k \<Longrightarrow> load32 m' (used_ring q + of_nat (8 * l)) = load32 m (used_ring q + of_nat (8 * l))"
    and "j < n \<Longrightarrow> load16 m' (desc_at q j + 14) = load16 m (desc_at q j + 14)"
    and "j < n \<Longrightarrow> desc_holds m' q j b = desc_holds m q j b"
    and "load16 m' (avail_ring_hdr q + 2) = load16 m (avail_ring_hdr q + 2)"
    and "l < n \<Longrightarrow> load16 m' (avail_ring q + of_nat (2 * l)) = load16 m (avail_ring q + of_nat (2 * l))"
proof -
  note o = vq_offsets [OF L]
  note r = vq_regions [OF o(15)]
  have kn: "k < n" using k o(13) by simp
  define B where "B = desc_table q"
  have e: "m' = store16 (B + of_nat (used_off n + 2)) (load16 m (used_ring_hdr q + 2) + 1)
      (store32 (B + of_nat (used_off n + 4 + 8 * k + 4)) len (store32 (B + of_nat (used_off n + 4 + 8 * k)) (of_nat i) m))"
    unfolding m' dev_return_def Let_def k [symmetric] unfolding o(10) unfolding o(8,9) B_def ..
  have ap: "apart (used_off n + 2) 2 (used_off n + 4 + 8 * k) 4" "apart (used_off n + 4 + 8 * k + 4) 4 (used_off n + 4 + 8 * k) 4"
    using kn r by (simp_all add: apart_def)
  show "load16 m' (used_ring_hdr q + 2) = load16 m (used_ring_hdr q + 2) + 1" unfolding e o(8) B_def by (rule load16_store16)
  show "load32 m' (used_ring q + of_nat (8 * k)) = of_nat i"
    unfolding e o(9) B_def [symmetric] by (simp only: load_store_apart ap load32_store32)
  have F: "read_bytes m' (desc_table q + of_nat off) sz = read_bytes m (desc_table q + of_nat off) sz"
    if "apart (used_off n + 2) 2 off sz" "apart (used_off n + 4 + 8 * k + 4) 4 off sz" "apart (used_off n + 4 + 8 * k) 4 off sz" for off sz
    unfolding e B_def [symmetric] using that by (simp only: read_store_apart)
  show "load32 m' (used_ring q + of_nat (8 * l)) = load32 m (used_ring q + of_nat (8 * l))" if "l < n" "l \<noteq> k"
    unfolding o(9) load32_def by (subst F) (use kn r that in \<open>auto simp: apart_def\<close>)
  show "load16 m' (desc_at q j + 14) = load16 m (desc_at q j + 14)" if "j < n"
    unfolding o(4) load16_def by (subst F) (use kn r that in \<open>auto simp: apart_def\<close>)
  show "desc_holds m' q j b = desc_holds m q j b" if "j < n"
    unfolding desc_holds_def o(2-6,8-11) unfolding o(1) load64_def load32_def load16_def
    by (subst F, use kn r that in \<open>(auto simp: apart_def)[3]\<close>)+ simp
  show "load16 m' (avail_ring_hdr q + 2) = load16 m (avail_ring_hdr q + 2)"
    unfolding o(5) load16_def by (subst F) (use kn r in \<open>auto simp: apart_def\<close>)
  show "load16 m' (avail_ring q + of_nat (2 * l)) = load16 m (avail_ring q + of_nat (2 * l))" if "l < n"
    unfolding o(6) load16_def by (subst F) (use kn r that in \<open>auto simp: apart_def\<close>)
qed

lemma vw_return_inv:
  assumes I: "vq_inv n m q v" and i: "i \<in> set (vw_dev v)"
  shows "vq_inv n (dev_return n q i len m) q (vw_return i v)"
proof -
  note b = vq_inv_bounds [OF I]
  define k where "k = unat (load16 m (used_ring_hdr q + 2)) mod n"
  define m' where "m' = dev_return n q i len m"
  note fr = return_frame [OF b(4) k_def m'_def]
  have old: "distinct (vw_free v @ vw_owned v)" "set (vw_free v @ vw_owned v) = {..<n}" "n dvd 2 ^ 16" "vq_free m q (vw_free v)"
      "\<And>j. j \<in> set (vw_owned v) \<Longrightarrow> desc_holds m q j (vw_buf v j)" "vq_rings n m q v"
    using I by (auto simp: vq_inv_def)
  have free: "vq_free m' q (vw_free v)"
  proof -
    have "linked m' q (vw_free v) = linked m q (vw_free v)" by (rule linked_cong) (use b(1) in \<open>auto intro!: fr(4)\<close>)
    then show ?thesis using old(4) by (simp add: vq_free_def)
  qed
  have len: "length (vw_used v) < n" using b(2) i by (auto simp: vw_owned_def neq_Nil_conv dest!: split_list)
  have k: "k = used_slot n q (length (vw_used v))" using old(6) by (simp add: k_def used_slot_def vq_rings_def)
  have slot: "used_slot n q j < n" "avail_slot n v j < n" "avail_slot n (vw_return i v) j = avail_slot n v j" for j
    using b(5) by (simp_all add: used_slot_def avail_slot_def vw_return_def)
  have "load32 m' (used_ring q + of_nat (8 * used_slot n q j)) = of_nat ((vw_used v @ [i]) ! j)" if "j < length (vw_used v @ [i])" for j
  proof (cases "j = length (vw_used v)")
    case True
    then show ?thesis using fr(2) k by simp
  next
    case False
    then have "used_slot n q j \<noteq> k" using slot_inj [OF old(3), of j "length (vw_used v)" "used_idx q"] that len by (auto simp: k used_slot_def)
    then show ?thesis using fr(3) [OF slot(1)] old(6) that False by (simp add: vq_rings_def nth_append)
  qed
  then have rings: "vq_rings n m' q (vw_return i v)"
    using old(6) fr(1,6) fr(7) [OF slot(2)] unfolding vq_rings_def slot by (simp add: vw_return_def add_ac)
  have sets: "mset (vw_free v @ vw_owned (vw_return i v)) = mset (vw_free v @ vw_owned v)"
    using i by (simp add: vw_owned_def vw_return_def)
  have "set (vw_free v @ vw_owned (vw_return i v)) = {..<n}" "distinct (vw_free v @ vw_owned (vw_return i v))"
    using mset_eq_setD [OF sets] mset_eq_imp_distinct_iff [OF sets] old(1,2) by simp_all
  moreover have "vw_free (vw_return i v) = vw_free v" "vw_buf (vw_return i v) = vw_buf v" by (simp_all add: vw_return_def)
  ultimately show ?thesis
    using b(4) old(3,5) free rings fr(5) b(1) mset_eq_setD [OF sets] unfolding vq_inv_def m'_def [symmetric]
    by auto
qed

subsection \<open>Creation\<close>

lemma linked_upt:
  "linked m q [a..<b] \<longleftrightarrow> (\<forall>i. a \<le> i \<and> Suc i < b \<longrightarrow> load16 m (desc_at q i + 14) = of_nat (Suc i))"
proof (induction "b - a" arbitrary: a)
  case (Suc k)
  show ?case
  proof (cases "Suc a < b")
    case True
    then have "linked m q [a..<b] \<longleftrightarrow> load16 m (desc_at q a + 14) = of_nat (Suc a) \<and> linked m q [Suc a..<b]"
      by (simp add: upt_conv_Cons del: of_nat_Suc)
    also have "\<dots> \<longleftrightarrow> load16 m (desc_at q a + 14) = of_nat (Suc a) \<and>
        (\<forall>i. Suc a \<le> i \<and> Suc i < b \<longrightarrow> load16 m (desc_at q i + 14) = of_nat (Suc i))"
      using Suc.hyps(1) [of "Suc a"] Suc.hyps(2) by (simp del: of_nat_Suc)
    also have "\<dots> \<longleftrightarrow> (\<forall>i. a \<le> i \<and> Suc i < b \<longrightarrow> load16 m (desc_at q i + 14) = of_nat (Suc i))"
      using True by (metis Suc_le_eq le_eq_less_or_eq order_refl)
    finally show ?thesis .
  next
    case False
    then have "[a..<b] = [a]" using Suc.hyps(2) by (simp add: upt_conv_Cons)
    then show ?thesis using False by auto
  qed
qed auto

lemma link_free_fold:
  assumes L: "vq_layout q n" and k: "k \<le> n - 1" and m': "m' = fold (\<lambda>i m. store16 (desc_at q i + 14) (of_nat (i + 1)) m) [0..<k] m"
  shows "i < k \<Longrightarrow> load16 m' (desc_at q i + 14) = of_nat (Suc i)"
    and "16 * n \<le> off \<Longrightarrow> off + 2 \<le> 2 ^ 63 \<Longrightarrow> load16 m' (desc_table q + of_nat off) = load16 m (desc_table q + of_nat off)"
  using k m'
proof (induction k arbitrary: m')
  case (Suc k)
  {
    case 1
    define m1 where "m1 = fold (\<lambda>i m. store16 (desc_at q i + 14) (of_nat (i + 1)) m) [0..<k] m"
    have m': "m' = store16 (desc_at q k + 14) (of_nat (Suc k)) m1" using 1 by (simp add: m1_def)
    show ?case
    proof (cases "i = k")
      case False
      then have "i < k" using 1(1) by simp
      then show ?thesis using Suc.IH(1) [of m1] 1 link_frame(2) [OF L _ m', of i] by (simp add: m1_def)
    qed (simp add: m')
  next
    case 2
    define m1 where "m1 = fold (\<lambda>i m. store16 (desc_at q i + 14) (of_nat (i + 1)) m) [0..<k] m"
    have m': "m' = store16 (desc_table q + of_nat (16 * k + 14)) (of_nat (Suc k)) m1" using 2 vq_offsets(4) [OF L, of k] by (simp add: m1_def)
    have "apart (16 * k + 14) 2 off 2" using 2 vq_offsets(15) [OF L] by (auto simp: apart_def)
    then have "load16 m' (desc_table q + of_nat off) = load16 m1 (desc_table q + of_nat off)" unfolding m' by (rule load_store_apart)
    then show ?case using Suc.IH(2) [of m1] 2 by (simp add: m1_def)
  }
qed simp_all

lemma virtq_link_free_linked:
  assumes L: "vq_layout q n" and m': "m' = virtq_link_free q m"
  shows "linked m' q [0..<n]"
    and "16 * n \<le> off \<Longrightarrow> off + 2 \<le> 2 ^ 63 \<Longrightarrow> load16 m' (desc_table q + of_nat off) = load16 m (desc_table q + of_nat off)"
proof -
  note o = vq_offsets [OF L]
  define m1 where "m1 = fold (\<lambda>i m. store16 (desc_at q i + 14) (of_nat (i + 1)) m) [0..<n - 1] m"
  have "(ucast (vq_size q) :: u64) = of_nat n" using ucast_nat [of n "vq_size q"] o(12) by simp
  then have "desc_table q + 16 * (ucast (vq_size q) - 1) + 14 = desc_at q (n - 1) + 14" using o(13) by (simp add: desc_at_def of_nat_diff)
  then have m': "m' = store16 (desc_at q (n - 1) + 14) (- 1) m1" unfolding m' virtq_link_free_def m1_def Let_def o(12) by (simp only:)
  have n1: "n - 1 < n" using o(13) by simp
  note fo = link_free_fold [OF L order_refl m1_def]
  have "load16 m' (desc_at q i + 14) = of_nat (Suc i)" if "Suc i < n" for i
    using fo(1) [of i] link_frame(2) [OF L n1 m', of i] that by simp
  then show "linked m' q [0..<n]" by (simp add: linked_upt)
  show "load16 m' (desc_table q + of_nat off) = load16 m (desc_table q + of_nat off)" if "16 * n \<le> off" "off + 2 \<le> 2 ^ 63"
  proof -
    have "apart (16 * (n - 1) + 14) 2 off 2" using that o(13,15) by (cases n) (auto simp: apart_def)
    then have "load16 m' (desc_table q + of_nat off) = load16 m1 (desc_table q + of_nat off)" unfolding m' o(4) by (rule load_store_apart)
    then show ?thesis using fo(2) that by simp
  qed
qed

text \<open>Programming an entry of the MSI-X table changes nothing outside the table.\<close>

lemma request_msix_mem:
  assumes r: "request_msix fn owner ctx pd m h = (r, m', h')" and x: "16 * unat (msix_table_size pd) \<le> unat (x - msix_table pd)"
  shows "m' x = m x"
proof -
  define t where "t = msix_table pd"
  have st: "store32 (t + of_nat (16 * i + k)) w m'' x = m'' x" if i: "i < unat (msix_table_size pd)" "k \<le> 12" for i k w and m'' :: memory
  proof -
    have "16 * i + k + 4 \<le> unat (x - t)" "16 * i + k < 2 ^ 64" using i x unat_less [of "msix_table_size pd"] by (auto simp: t_def)
    then have "\<not> unat (x - (t + of_nat (16 * i + k))) < 4" by (subst unat_minus_offset) simp_all
    then show ?thesis by (simp add: store32_def write_bytes_def)
  qed
  have "store32 (msix_entry t i) w m'' x = m'' x" "store32 (msix_entry t i + 4) w m'' x = m'' x" "store32 (msix_entry t i + 8) w m'' x = m'' x"
      "store32 (msix_entry t i + 12) w m'' x = m'' x" if "i < unat (msix_table_size pd)" for i w and m'' :: memory
    using st [OF that, of 0] st [OF that, of 4] st [OF that, of 8] st [OF that, of 12] by (simp_all add: msix_entry_def add.assoc)
  then show ?thesis
    using r by (auto simp: request_msix_def Let_def t_def [symmetric] find_Some_iff split: if_splits option.splits prod.splits)
qed

definition vw_fresh :: "nat \<Rightarrow> (nat \<Rightarrow> vq_buf) \<Rightarrow> vq_view" where
  "vw_fresh n B = \<lparr>vw_free = [0..<n], vw_avail = [], vw_dev = [], vw_used = [], vw_seen = 0, vw_buf = B\<rparr>"

lemma fresh_inv:
  assumes n: "n = unat queue_len" "0 < n" "n dvd 2 ^ 16" and q: "q = virtq_place index queue_len fn ctx a"
    and m: "linked m q [0..<n]" "load16 m (avail_ring_hdr q + 2) = 0" "load16 m (used_ring_hdr q + 2) = 0"
  shows "vq_inv n m q (vw_fresh n B)"
proof -
  have "num_free_descriptors q = of_nat n" "free_list q = 0" "used_idx q = 0"
    using n(1) by (simp_all add: q virtq_place_def Let_def)
  then have "vq_free m q [0..<n]" using m(1) n(2) by (simp add: vq_free_def)
  then show ?thesis
    using virtq_place_layout [OF n(1,2), of index fn ctx a] n m(2,3) \<open>used_idx q = 0\<close>
    by (auto simp: vq_inv_def vw_fresh_def vw_owned_def vq_rings_def q)
qed

lemma create_memory:
  assumes n: "n = unat queue_len" "0 < n" "n dvd 2 ^ 16" and q: "q = virtq_place index queue_len fn ctx a"
    and N: "N = ctx_off n + 8 * n + 4095" and m1: "m1 = virtq_link_free q (write_bytes a (replicate N 0) m)"
    and far: "\<And>i. i < N \<Longrightarrow> m2 (a + of_nat i) = m1 (a + of_nat i)"
  shows "vq_inv n m2 q (vw_fresh n B)"
proof -
  have L: "vq_layout q n" unfolding q by (rule virtq_place_layout [OF n(1,2)])
  note o = vq_offsets [OF L]
  note r = vq_regions [OF o(15)]
  have d: "desc_table q = vq_align a" by (simp add: q virtq_place_def Let_def)
  obtain k where k: "vq_align a = a + of_nat k" "k \<le> 4095" by (rule vq_align_offset)
  have off: "load16 m2 (desc_table q + of_nat off) = load16 m1 (desc_table q + of_nat off)" if "off + 2 \<le> ctx_off n" for off
  proof -
    have "m2 (desc_table q + of_nat off + of_nat j) = m1 (desc_table q + of_nat off + of_nat j)" if "j < 2" for j
      using far [of "k + off + j"] k(2) that \<open>off + 2 \<le> ctx_off n\<close> unfolding N d k(1) by (simp add: add.assoc)
    then show ?thesis unfolding load16_def read_bytes_def by (intro arg_cong [where f = le_word] map_cong) auto
  qed
  have zero: "load16 (write_bytes a (replicate N 0) m) (desc_table q + of_nat off) = 0" if "off + 2 \<le> ctx_off n" for off
  proof -
    have "read_bytes (write_bytes a (replicate N 0) m) (a + of_nat (k + off)) 2 = take 2 (drop (k + off) (replicate N 0))"
      by (rule read_write_within) (use k(2) that r N in simp_all)
    also have "take 2 (drop (k + off) (replicate N 0)) = [0, 0 :: u8]" using that k(2) N by (simp add: min_def numeral_2_eq_2 replicate_Suc)
    finally show ?thesis unfolding d k(1) load16_def by (simp add: add.assoc)
  qed
  note lf = virtq_link_free_linked [OF L m1]
  show ?thesis
  proof (rule fresh_inv [OF n q])
    show "linked m2 q [0..<n]"
      using lf(1) by (subst linked_cong [where m' = m1 and q' = q]) (use r in \<open>auto simp: o(4) simp del: of_nat_add of_nat_mult intro!: off\<close>)
    have z: "load16 m2 (desc_table q + of_nat off) = 0" if "16 * n \<le> off" "off + 2 \<le> ctx_off n" for off
      using off lf(2) zero that r by simp
    show "load16 m2 (avail_ring_hdr q + 2) = 0" "load16 m2 (used_ring_hdr q + 2) = 0"
      unfolding o(5,8) by (rule z; use r in simp)+
  qed
qed

lemma virtq_create_ok:
  assumes w: "fst (dev_read_reg ops d queue_size (dev_write_reg ops d queue_select (ucast index) s)) = w"
    and n: "n = unat (ucast w :: u16)" "0 < n" "n dvd 2 ^ 16"
    and al: "p = alloc_result s (alloc_calls s)" "a = alloc_result s (Suc (alloc_calls s))" "p \<noteq> NULL" "a \<noteq> NULL"
    and sep: "separate (msix_table (vd_pci d)) (16 * unat (msix_table_size (vd_pci d))) a (ctx_off n + 8 * n + 4095)"
  obtains s' where "virtq_create ops d index fn hctx s = (E_OK, Some p, s')" "vq_inv n (mem s') (vqs s' p) (vw_fresh n B)"
    "vq_irq_handler (vqs s' p) = fn" "vq_irq_handler_ctx (vqs s' p) = hctx" "desc_table (vqs s' p) = vq_align a"
proof -
  define N where "N = ctx_off n + 8 * n + 4095"
  define ql where "ql = (ucast w :: u16)"
  define q where "q = virtq_place index ql fn hctx a"
  note n' = n(1) [folded ql_def]
  have N64: "N < 2 ^ 64" using vq_regions(3) [of n] unat_less [of ql] n' by (simp add: N_def)
  have sz: "vq_align (descriptor_table_size ql + available_ring_size ql) + vq_align (used_ring_size ql) + 8 * ucast ql + 4095 = of_nat N"
    unfolding virtq_sizes(4,5) [OF n'] ucast_nat [OF n'] N_def by (simp add: ctx_off_def)
  have unat: "unat (vq_align (descriptor_table_size ql + available_ring_size ql) + vq_align (used_ring_size ql) + 8 * ucast ql + 4095) = N"
    unfolding sz by (rule unat_of_nat64 [OF N64])
  obtain v h1 where rd: "op_read_reg ops (vd_pci d) queue_size (op_write_reg ops (vd_pci d) queue_select (ucast index) (irqs s)) = (v, h1)"
    by fastforce
  have v: "v = w" using w rd by (simp add: dev_read_reg_def dev_write_reg_def)
  define m1 where "m1 = virtq_link_free q (write_bytes a (replicate N 0) (mem s))"
  define h2 where "h2 = op_write_reg ops (vd_pci d) queue_address (ucast (drop_bit 12 (desc_table q))) h1"
  obtain e mv m2 h3 where mx: "request_msix (handle_vq_irq_addr s) (vq_owner_addr s) p (vd_pci d) m1 h2 = ((e, mv), m2, h3)"
    by (metis prod.collapse)
  have far: "m2 (a + of_nat i) = m1 (a + of_nat i)" if "i < N" for i
    using request_msix_mem [OF mx] separate_offset [OF sep] that by (simp add: N_def)
  have inv: "vq_inv n m2 q (vw_fresh n B)"
    by (rule create_memory [OF n' n(2,3) q_def N_def m1_def far])
  define s' where "s' = snd (snd (virtq_create ops d index fn hctx s))"
  have "virtq_create ops d index fn hctx s = (E_OK, Some p, s') \<and> mem s' = m2 \<and> vqs s' = (vqs s)(p := q)"
    unfolding s'_def virtq_create_def dev_read_reg_def dev_write_reg_def otrix_alloc_def Let_def
    by (simp add: al(1,2) [symmetric] al(3,4) rd v ql_def [symmetric] unat q_def [symmetric] m1_def [symmetric] h2_def [symmetric] mx split: prod.split)
  moreover have "vq_irq_handler q = fn" "vq_irq_handler_ctx q = hctx" "desc_table q = vq_align a" by (simp_all add: q_def virtq_place_def Let_def)
  ultimately show ?thesis using that [of s'] inv by simp
qed

subsection \<open>Every interleaving of driver and device\<close>

text \<open>
  The driver sends buffers and handles the completion interrupt, the device fetches and returns descriptors, and anything else may
  happen that leaves the queue object and its memory alone. The handler of the queue is \<open>call\<close>.
\<close>

definition vq_bytes_same :: "nat \<Rightarrow> virtq \<Rightarrow> memory \<Rightarrow> memory \<Rightarrow> bool" where
  "vq_bytes_same n q m m' \<longleftrightarrow> (\<forall>i<ctx_off n + 8 * n. m' (desc_table q + of_nat i) = m (desc_table q + of_nat i))"

inductive vq_step ::
  "(ptr \<Rightarrow> ptr \<Rightarrow> ptr \<Rightarrow> ptr \<Rightarrow> u64 \<Rightarrow> 'z dev_state_scheme \<Rightarrow> 'z dev_state_scheme option) \<Rightarrow> virtio_ops \<Rightarrow> virtio_dev \<Rightarrow> nat \<Rightarrow> ptr \<Rightarrow>
   'z dev_state_scheme \<times> vq_view \<Rightarrow> 'z dev_state_scheme \<times> vq_view \<Rightarrow> bool"
  for call ops d n p where
  Send: "virtq_send_buffer ops d p buf len w c s = Some (E_OK, s') \<Longrightarrow>
    vq_step call ops d n p (s, v) (s', vw_send \<lparr>vb_addr = buf, vb_len = len, vb_writable = w, vb_ctx = c\<rparr> v)"
| Fetch: "load16 (mem s) (avail_ring_hdr (vqs s p) + 2) \<noteq> vw_seen v \<Longrightarrow>
    vq_step call ops d n p (s, v) (s, vw_fetch (dev_entry n (vqs s p) v (mem s)) v)"
| Return: "i \<in> set (vw_dev v) \<Longrightarrow> vq_step call ops d n p (s, v) (s\<lparr>mem := dev_return n (vqs s p) i len (mem s)\<rparr>, vw_return i v)"
| Irq: "handle_vq_irq call p s = Some s' \<Longrightarrow>
    vq_step call ops d n p (s, v) (s', v\<lparr>vw_used := [], vw_free := rev (vw_used v) @ vw_free v\<rparr>)"
| Other: "vqs s' p = vqs s p \<Longrightarrow> vq_bytes_same n (vqs s p) (mem s) (mem s') \<Longrightarrow> vq_step call ops d n p (s, v) (s', v)"

lemma bytes_same_read:
  assumes "vq_bytes_same n q m m'" "off + len \<le> ctx_off n + 8 * n"
  shows "read_bytes m' (desc_table q + of_nat off) len = read_bytes m (desc_table q + of_nat off) len"
  unfolding read_bytes_def
proof (intro map_cong refl)
  fix i assume "i \<in> set [0..<len]"
  then have "off + i < ctx_off n + 8 * n" using assms(2) by simp
  then have "m' (desc_table q + of_nat (off + i)) = m (desc_table q + of_nat (off + i))" using assms(1) unfolding vq_bytes_same_def by blast
  then show "m' (desc_table q + of_nat off + of_nat i) = m (desc_table q + of_nat off + of_nat i)" by (simp add: add.assoc)
qed

lemma vq_inv_bytes:
  assumes I: "vq_inv n m q v" and s: "vq_bytes_same n q m m'"
  shows "vq_inv n m' q v"
proof -
  note b = vq_inv_bounds [OF I]
  note o = vq_offsets [OF b(4)]
  note r = vq_regions [OF b(3)]
  note F = bytes_same_read [OF s]
  have next': "load16 m' (desc_at q j + 14) = load16 m (desc_at q j + 14)" if "j < n" for j
    unfolding o(4) load16_def by (subst F) (use r that in auto)
  have holds: "desc_holds m' q j c = desc_holds m q j c" if "j < n" for j c
    unfolding desc_holds_def o(2-6,8-11) unfolding o(1) load64_def load32_def load16_def
    by (subst F, use r that in \<open>simp; fail\<close>)+ simp
  have idx: "load16 m' (avail_ring_hdr q + 2) = load16 m (avail_ring_hdr q + 2)" "load16 m' (used_ring_hdr q + 2) = load16 m (used_ring_hdr q + 2)"
    unfolding o(5,8) load16_def by (subst F; use r in simp)+
  have ring: "load16 m' (avail_ring q + of_nat (2 * l)) = load16 m (avail_ring q + of_nat (2 * l))"
      "load32 m' (used_ring q + of_nat (8 * l)) = load32 m (used_ring q + of_nat (8 * l))" if "l < n" for l
    unfolding o(6,9) load16_def load32_def by (subst F; use r that in simp)+
  have slot: "used_slot n q j < n" "avail_slot n v j < n" for j using b(5) by (simp_all add: used_slot_def avail_slot_def)
  have "linked m' q (vw_free v) = linked m q (vw_free v)" by (rule linked_cong) (use b(1) in \<open>auto intro!: next'\<close>)
  moreover have "\<forall>i\<in>set (vw_owned v). desc_holds m' q i (vw_buf v i)" using I holds b(1) unfolding vq_inv_def by blast
  ultimately show ?thesis using I idx ring(1) [OF slot(2)] ring(2) [OF slot(1)] by (simp add: vq_inv_def vq_free_def vq_rings_def)
qed

definition quiet_handler :: "(ptr \<Rightarrow> ptr \<Rightarrow> ptr \<Rightarrow> ptr \<Rightarrow> u64 \<Rightarrow> 'z dev_state_scheme \<Rightarrow> 'z dev_state_scheme option) \<Rightarrow> ptr \<Rightarrow> bool" where
  "quiet_handler call p \<longleftrightarrow> (\<forall>fn h c a l s. \<exists>s'. call fn h c a l s = Some s' \<and> vqs s' p = vqs s p \<and> mem s' = mem s)"

definition vq_good :: "nat \<Rightarrow> ptr \<Rightarrow> ptr \<Rightarrow> ptr \<Rightarrow> 'z dev_state_scheme \<times> vq_view \<Rightarrow> bool" where
  "vq_good n p fn h = (\<lambda>(s, v). vq_inv n (mem s) (vqs s p) v \<and> vq_irq_handler (vqs s p) = fn \<and> vq_irq_handler_ctx (vqs s p) = h)"

lemma quiet_irq_returns:
  assumes q: "quiet_handler call p" and g: "vq_good n p fn h (s, v)" and fn: "fn \<noteq> NULL"
  obtains s' where "handle_vq_irq call p s = Some s'" "vq_good n p fn h (s', v\<lparr>vw_used := [], vw_free := rev (vw_used v) @ vw_free v\<rparr>)"
proof -
  have c: "vq_client call fn h p (\<lambda>_ _. True) (\<lambda>_. []) (\<lambda>_ _ _. [])"
    by unfold_locales (use q in \<open>auto simp: quiet_handler_def\<close>)
  show ?thesis
    using vq_client.handle_vq_irq_returns [OF c, where n = n and s = s and v = v] g fn that by (auto simp: vq_good_def)
qed

lemma virtq_send_good:
  assumes g: "vq_good n p fn h (s, v)" and e: "virtq_send_buffer ops d p buf len w c s = Some (E_OK, s')"
  shows "vq_good n p fn h (s', vw_send \<lparr>vb_addr = buf, vb_len = len, vb_writable = w, vb_ctx = c\<rparr> v)"
proof -
  have I: "vq_inv n (mem s) (vqs s p) v" using g by (simp add: vq_good_def)
  have a: "p \<noteq> NULL" "buf \<noteq> NULL" "len \<noteq> 0" using e by (auto simp: virtq_send_buffer_def split: if_splits)
  have f: "vw_free v \<noteq> []" using virtq_send_buffer_full [OF I, of ops d buf len w c] e by (auto split: if_splits)
  obtain q' m' where q': "vq_inv n m' q' (vw_send \<lparr>vb_addr = buf, vb_len = len, vb_writable = w, vb_ctx = c\<rparr> v)"
    "virtq_send_buffer ops d p buf len w c s =
       (let s' = s\<lparr>vqs := (vqs s)(p := q'), mem := m'\<rparr>
        in Some (E_OK, if load16 (mem s) (used_ring_hdr q') AND VIRTQ_USED_F_NO_NOTIFY = 0
          then dev_write_reg ops d queue_notify (vq_index (vqs s p)) s' else s'))"
    "vq_irq_handler q' = vq_irq_handler (vqs s p)" "vq_irq_handler_ctx q' = vq_irq_handler_ctx (vqs s p)"
    by (rule virtq_send_buffer_ok [OF I f a])
  then show ?thesis using g e by (auto simp: vq_good_def Let_def dev_write_reg_state split: if_splits)
qed

lemma vq_step_good:
  assumes "vq_step call ops d n p x y" "vq_good n p fn h x" "quiet_handler call p" "fn \<noteq> NULL"
  shows "vq_good n p fn h y"
  using assms
proof (induction rule: vq_step.induct)
  case (Send buf len w c s s' v)
  then show ?case by (intro virtq_send_good)
next
  case (Fetch s v)
  then show ?case using vw_fetch_inv(2) by (auto simp: vq_good_def)
next
  case (Return i v s len)
  then show ?case using vw_return_inv by (auto simp: vq_good_def)
next
  case (Irq s s' v)
  then show ?case using quiet_irq_returns by (metis option.inject)
next
  case (Other s' s v)
  then show ?case using vq_inv_bytes by (auto simp: vq_good_def)
qed

lemma vq_run_good:
  assumes "(vq_step call ops d n p)\<^sup>*\<^sup>* x y" "vq_good n p fn h x" "quiet_handler call p" "fn \<noteq> NULL"
  shows "vq_good n p fn h y"
  using assms by (induction rule: rtranclp_induct) (auto intro: vq_step_good)


definition demo_vdev :: virtio_dev where
  "demo_vdev = \<lparr>vd_pci = demo_msix, vd_valid = True, vd_features = 0\<rparr>"

definition demo_dev :: dev_state where
  "demo_dev = net_state.extend (demo_net\<lparr>alloc_result := (\<lambda>n. 0x10000 + of_nat n * 0x10000)\<rparr>)
     \<lparr>irqs = demo_irqs\<lparr>port_value := (\<lambda>_ _ _. 8)\<rparr>, vqs = (\<lambda>_. virtq_place 0 0 0 0 0), handle_vq_irq_addr = 0x7000, vq_owner_addr = 0x7100\<rparr>"

lemma demo_dev_setup:
  "fst (dev_read_reg virtio_base demo_vdev queue_size (dev_write_reg virtio_base demo_vdev queue_select (ucast (1 :: u16)) demo_dev)) = 8"
  "0x10000 = alloc_result demo_dev (alloc_calls demo_dev)" "0x20000 = alloc_result demo_dev (Suc (alloc_calls demo_dev))"
  "separate (msix_table (vd_pci demo_vdev)) (16 * unat (msix_table_size (vd_pci demo_vdev))) 0x20000 (ctx_off 8 + 8 * 8 + 4095)"
proof -
  show "fst (dev_read_reg virtio_base demo_vdev queue_size (dev_write_reg virtio_base demo_vdev queue_select (ucast (1 :: u16)) demo_dev)) = 8"
    by (simp add: dev_read_reg_def dev_write_reg_def virtio_base_def virtio_read_reg_def virtio_write_reg_def arch_io_read16_def
      arch_io_write16_def io_in_def io_out_def queue_size_def queue_select_def queue_address_def driver_features_def device_features_def
      queue_notify_def demo_dev_def net_state.defs Let_def take_bit_eq_mod)
  show "0x10000 = alloc_result demo_dev (alloc_calls demo_dev)" "0x20000 = alloc_result demo_dev (Suc (alloc_calls demo_dev))"
    by (simp_all add: demo_dev_def net_state.defs demo_net_def wait_state.defs)
  show "separate (msix_table (vd_pci demo_vdev)) (16 * unat (msix_table_size (vd_pci demo_vdev))) 0x20000 (ctx_off 8 + 8 * 8 + 4095)"
    by (simp add: separate_def demo_vdev_def demo_msix_def ctx_off_def used_off_def vq_up_def)
qed


end
