(* ===== verification/Virtio_Net.thy ===== *)
theory Virtio_Net
  imports Virtio Msgq Ipv4
begin

text \<open>
  The virtio network device: dev/virtio_net.cpp and dev/include/dev/virtio_net.hpp, the link interface of the network stack.

  The object is the extension of the device state. Socket buffers that live on the heap are in a store from addresses; \<open>operator new\<close>
  for them returns what the state says. The free function of a zero-copy buffer is the lambda of \<open>rx_handler\<close>. The receive
  thread is cut into the steps between two reads of its message queue. \<open>None\<close> is a call through a null pointer, a fault of a called
  operation, or a loop that does not end.
\<close>

subsection \<open>State\<close>

record vnet_state = dev_state +
  vn_dev :: virtio_dev
  tx_q :: ptr
  rx_q :: ptr
  vn_rx_handlers :: "(u16 \<times> ptr \<times> ptr) list"
  rx_packet_queue :: msgq
  rx_thread_addr :: ptr
  num_rx_buffers :: u64
  vn_addr :: mac_t
  vn_this :: ptr
  skb_store :: "ptr \<Rightarrow> sockbuf"
  skb_new_result :: "nat \<Rightarrow> ptr"
  skb_new_calls :: nat
  skb_free_func_addr :: ptr
  tx_completion_addr :: ptr
  rx_handler_addr :: ptr

definition VIRTIO_NET_F_MAC :: nat where "VIRTIO_NET_F_MAC = 5"
definition VIRTIO_NET_F_STATUS :: nat where "VIRTIO_NET_F_STATUS = 16"
definition VIRTIO_NET_HDR_SIZE :: u64 where "VIRTIO_NET_HDR_SIZE = 10"
definition ETHERNET_HDR_SIZE :: u64 where "ETHERNET_HDR_SIZE = 14"
definition ETHERTYPE_UNKNOWN :: u16 where "ETHERTYPE_UNKNOWN = 0"
definition VNET_MAX_RX_HANDLERS :: nat where "VNET_MAX_RX_HANDLERS = 2"
definition RX_QUEUE_SIZE :: nat where "RX_QUEUE_SIZE = 16"
definition MTU :: u64 where "MTU = 1514"

definition mac_0 :: u16 where "mac_0 = 0x18"
definition mac_1 :: u16 where "mac_1 = 0x19"
definition mac_2 :: u16 where "mac_2 = 0x1a"
definition mac_3 :: u16 where "mac_3 = 0x1b"
definition mac_4 :: u16 where "mac_4 = 0x1c"
definition mac_5 :: u16 where "mac_5 = 0x1d"
definition net_status :: u16 where "net_status = 0x1e"
definition max_virtqueue_pairs :: u16 where "max_virtqueue_pairs = 0x20"

definition is_virtio_net_device :: "pci_dev option \<Rightarrow> bool" where
  "is_virtio_net_device p = (case p of None \<Rightarrow> False | Some p \<Rightarrow> vendor_id p = 0x1af4 \<and> device_id p = 0x1000)"

subsection \<open>Registers and features\<close>

definition net_read_reg :: "pci_dev \<Rightarrow> u16 \<Rightarrow> 'z hw_scheme \<Rightarrow> u32 \<times> 'z hw_scheme" where
  "net_read_reg p reg h =
     (if reg \<in> {mac_0, mac_1, mac_2, mac_3, mac_4, mac_5} then let (v, h) = arch_io_read8 (reg_port p reg) h in (ucast v, h)
      else if reg \<in> {net_status, max_virtqueue_pairs} then let (v, h) = arch_io_read16 (reg_port p reg) h in (ucast v, h)
      else virtio_read_reg p reg h)"

definition net_write_reg :: "pci_dev \<Rightarrow> u16 \<Rightarrow> u32 \<Rightarrow> 'z hw_scheme \<Rightarrow> 'z hw_scheme" where
  "net_write_reg p reg v h =
     (if reg \<in> {mac_0, mac_1, mac_2, mac_3, mac_4, mac_5} then arch_io_write8 (reg_port p reg) (ucast v) h
      else if reg \<in> {net_status, max_virtqueue_pairs} then arch_io_write16 (reg_port p reg) (ucast v) h
      else virtio_write_reg p reg v h)"

definition net_negotiate_features :: "u32 \<Rightarrow> u32" where
  "net_negotiate_features feats =
     (let supported_features = push_bit VIRTIO_NET_F_MAC 1 OR push_bit VIRTIO_NET_F_STATUS 1
      in (feats AND 0xFF000000) OR (feats AND supported_features))"

definition net_ops :: virtio_ops where
  "net_ops = \<lparr>op_read_reg = net_read_reg, op_write_reg = net_write_reg, op_negotiate = net_negotiate_features\<rparr>"

subsection \<open>Construction\<close>

definition read_mac :: "'z vnet_state_scheme \<Rightarrow> mac_t \<times> 'z vnet_state_scheme" where
  "read_mac s =
     (let (a0, s) = dev_read_reg net_ops (vn_dev s) mac_0 s;
          (a1, s) = dev_read_reg net_ops (vn_dev s) mac_1 s;
          (a2, s) = dev_read_reg net_ops (vn_dev s) mac_2 s;
          (a3, s) = dev_read_reg net_ops (vn_dev s) mac_3 s;
          (a4, s) = dev_read_reg net_ops (vn_dev s) mac_4 s;
          (a5, s) = dev_read_reg net_ops (vn_dev s) mac_5 s
      in ([ucast a0, ucast a1, ucast a2, ucast a3, ucast a4, ucast a5], s))"

text \<open>A queue whose creation fails leaves its member as it was; the caller goes on in any case.\<close>

definition virtio_net_new :: "pci_dev \<Rightarrow> 'z vnet_state_scheme \<Rightarrow> 'z vnet_state_scheme option" where
  "virtio_net_new pdev s = do {
     let s = s\<lparr>vn_dev := (vn_dev s)\<lparr>vd_pci := pdev\<rparr>,
       vn_rx_handlers := replicate VNET_MAX_RX_HANDLERS (ETHERTYPE_UNKNOWN, NULL, NULL),
       rx_packet_queue := msgq_new RX_QUEUE_SIZE 8\<rparr>;
     s \<leftarrow> kthread_create (rx_thread_addr s) 3 s;
     let s = s\<lparr>num_rx_buffers := 0\<rparr>;
     let (d, s) = begin_init net_ops (vn_dev s) s;
     let s = s\<lparr>vn_dev := d\<rparr>;
     let (e, q, s) = virtq_create net_ops (vn_dev s) 1 (tx_completion_addr s) (vn_this s) s;
     let s = (case q of Some p_vq \<Rightarrow> s\<lparr>tx_q := p_vq\<rparr> | None \<Rightarrow> s);
     let (e, q, s) = virtq_create net_ops (vn_dev s) 0 (rx_handler_addr s) (vn_this s) s;
     let s = (case q of Some p_vq \<Rightarrow> s\<lparr>rx_q := p_vq\<rparr> | None \<Rightarrow> s);
     let s = init_finished net_ops (vn_dev s) s;
     let (mac, s) = read_mac s;
     let s = s\<lparr>vn_addr := mac\<rparr>;
     (_, s) \<leftarrow> add_thread (rx_thread_addr s) s;
     Some s
   }"

definition virtio_net_destroy :: "'z vnet_state_scheme \<Rightarrow> 'z vnet_state_scheme" where
  "virtio_net_destroy s =
     (let s = (if tx_q s \<noteq> NULL then snd (virtq_destroy net_ops (vn_dev s) (tx_q s) s) else s)
      in if rx_q s \<noteq> NULL then snd (virtq_destroy net_ops (vn_dev s) (rx_q s) s) else s)"

subsection \<open>The link interface\<close>

definition vnet_get_mac :: "'z vnet_state_scheme \<Rightarrow> mac_t" where
  "vnet_get_mac s = vn_addr s"

definition vnet_print_info :: "'z vnet_state_scheme \<Rightarrow> 'z vnet_state_scheme option" where
  "vnet_print_info s = do {
     s \<leftarrow> virtio_print_info net_ops (vn_dev s) s;
     Some (snd (dev_read_reg net_ops (vn_dev s) net_status s))
   }"

definition vnet_headers_size :: u64 where
  "vnet_headers_size = VIRTIO_NET_HDR_SIZE + ETHERNET_HDR_SIZE"

definition virtio_net_write ::
  "sockbuf \<Rightarrow> mac_t \<Rightarrow> u16 \<Rightarrow> 'z vnet_state_scheme \<Rightarrow> (kerror_t \<times> sockbuf \<times> 'z vnet_state_scheme) option" where
  "virtio_net_write data dest type s = do {
     let (e_hdr, data) = add_header ETHERNET_HDR_SIZE hdr_ethernet data;
     let m = write_bytes e_hdr (take 6 dest) (mem s);
     let m = write_bytes (e_hdr + 6) (take 6 (vnet_get_mac s)) m;
     let m = store16 (e_hdr + 12) (if type = ETHERTYPE_UNKNOWN then bswap16 (ucast (sockbuf_size data - ETHERNET_HDR_SIZE)) else bswap16 type) m;
     let (v_hdr, data) = add_header VIRTIO_NET_HDR_SIZE hdr_virtio data;
     let m = write_bytes v_hdr (replicate 10 0) m;
     let s = s\<lparr>mem := m\<rparr>;
     (ret, s) \<leftarrow> virtq_send_buffer net_ops (vn_dev s) (tx_q s) (sockbuf_data data) (ucast (sockbuf_size data)) False NULL s;
     Some (ret, data, s)
   }"

fun vnet_subscribe_loop :: "u16 \<Rightarrow> ptr \<Rightarrow> ptr \<Rightarrow> (u16 \<times> ptr \<times> ptr) list \<Rightarrow> kerror_t \<times> (u16 \<times> ptr \<times> ptr) list" where
  "vnet_subscribe_loop type fn ctx [] = (E_NOMEM, [])"
| "vnet_subscribe_loop type fn ctx ((t, f, c) # hs) =
     (if t = ETHERTYPE_UNKNOWN then (E_OK, (type, fn, ctx) # hs)
      else let (e, hs) = vnet_subscribe_loop type fn ctx hs in (e, (t, f, c) # hs))"

definition subscribe_to_rx :: "u16 \<Rightarrow> ptr \<Rightarrow> ptr \<Rightarrow> 'z vnet_state_scheme \<Rightarrow> kerror_t \<times> 'z vnet_state_scheme" where
  "subscribe_to_rx type fn ctx s =
     (let (flags, h) = arch_irq_save (irqs s);
          (e, hs) = vnet_subscribe_loop type fn ctx (vn_rx_handlers s)
      in (e, s\<lparr>vn_rx_handlers := hs, irqs := arch_irq_restore flags h\<rparr>))"

subsection \<open>Completion handlers\<close>

definition skb_free_func :: "ptr \<Rightarrow> u64 \<Rightarrow> 'z vnet_state_scheme \<Rightarrow> 'z vnet_state_scheme option" where
  "skb_free_func buf n s = do {
     let (flags, h) = arch_irq_save (irqs s);
     let free_needed = num_rx_buffers s > of_nat RX_QUEUE_SIZE;
     let s = (if free_needed then s\<lparr>freed := freed s @ [Free buf]\<rparr> else s);
     let s = s\<lparr>irqs := arch_irq_restore flags h\<rparr>;
     if \<not> free_needed then do {
       (_, s) \<leftarrow> virtq_send_buffer net_ops (vn_dev s) (rx_q s) buf (ucast n) True NULL s;
       Some (s\<lparr>num_rx_buffers := num_rx_buffers s + 1\<rparr>)
     } else Some s
   }"

text \<open>\<open>delete\<close> of a heap socket buffer: its destructor, then the memory of the object.\<close>

definition delete_skb :: "ptr \<Rightarrow> 'z vnet_state_scheme \<Rightarrow> 'z vnet_state_scheme option" where
  "delete_skb p s =
     (if p = NULL then Some s
      else do {
        let b = skb_store s p;
        s \<leftarrow> (if free_func b \<noteq> NULL \<and> free_func b = skb_free_func_addr s then skb_free_func (start b) (buffer_size b) s
          else Some (sockbuf_delete b s));
        Some (s\<lparr>freed := freed s @ [Free p]\<rparr>)
      })"

definition tx_completion_event :: "ptr \<Rightarrow> 'z vnet_state_scheme \<Rightarrow> 'z vnet_state_scheme option" where
  "tx_completion_event data_ctx s = delete_skb data_ctx s"

definition rx_handler :: "ptr \<Rightarrow> u64 \<Rightarrow> 'z vnet_state_scheme \<Rightarrow> 'z vnet_state_scheme option" where
  "rx_handler data n s =
     (if msgq_full (rx_packet_queue s) then Some s
      else
        let s = s\<lparr>num_rx_buffers := num_rx_buffers s - 1\<rparr>;
            skb = skb_new_result s (skb_new_calls s);
            s = s\<lparr>skb_new_calls := skb_new_calls s + 1\<rparr>
        in if skb = NULL then Some s
           else do {
             let s = s\<lparr>skb_store := (skb_store s)(skb := sockbuf_zero_copy data n (skb_free_func_addr s) (vn_this s))\<rparr>;
             (ok, q, s) \<leftarrow> msgq_write (le_bytes 8 skb) (rx_packet_queue s) s;
             let s = s\<lparr>rx_packet_queue := q\<rparr>;
             if \<not> ok then delete_skb skb s else Some s
           })"

text \<open>The handler a queue of the device calls, by its address.\<close>

definition vnet_call :: "ptr \<Rightarrow> ptr \<Rightarrow> ptr \<Rightarrow> ptr \<Rightarrow> u64 \<Rightarrow> 'z vnet_state_scheme \<Rightarrow> 'z vnet_state_scheme option" where
  "vnet_call fn hctx data_ctx data n s =
     (if fn = tx_completion_addr s then tx_completion_event data_ctx s
      else if fn = rx_handler_addr s then rx_handler data n s
      else None)"

subsection \<open>The receive thread\<close>

definition rx_post_buffer :: "'z vnet_state_scheme \<Rightarrow> 'z vnet_state_scheme option" where
  "rx_post_buffer s = do {
     let (buf, s) = otrix_alloc (MTU + VIRTIO_NET_HDR_SIZE) s;
     (_, s) \<leftarrow> virtq_send_buffer net_ops (vn_dev s) (rx_q s) buf (ucast (MTU + VIRTIO_NET_HDR_SIZE)) True NULL s;
     Some s
   }"

definition rx_add_buffer :: "'z vnet_state_scheme \<Rightarrow> 'z vnet_state_scheme option" where
  "rx_add_buffer s = do {
     s \<leftarrow> rx_post_buffer s;
     Some (s\<lparr>num_rx_buffers := num_rx_buffers s + 1\<rparr>)
   }"

text \<open>The first buffers of the thread, which count with interrupts off.\<close>

primrec rx_fill :: "nat \<Rightarrow> 'z vnet_state_scheme \<Rightarrow> 'z vnet_state_scheme option" where
  "rx_fill 0 s = Some s"
| "rx_fill (Suc k) s = do {
     s \<leftarrow> rx_post_buffer s;
     let (flags, h) = arch_irq_save (irqs s);
     let s = s\<lparr>num_rx_buffers := num_rx_buffers s + 1\<rparr>;
     rx_fill k (s\<lparr>irqs := arch_irq_restore flags h\<rparr>)
   }"

definition rx_thread_start :: "'z vnet_state_scheme \<Rightarrow> 'z vnet_state_scheme option" where
  "rx_thread_start s = rx_fill 16 s"

partial_function (option) rx_refill :: "'z vnet_state_scheme \<Rightarrow> 'z vnet_state_scheme option" where
  "rx_refill s =
     (if num_rx_buffers s < of_nat RX_QUEUE_SIZE then do {
        s \<leftarrow> rx_add_buffer s;
        rx_refill s
      } else Some s)"

fun rx_deliver ::
  "'z vnet_state_scheme handler_call \<Rightarrow> ptr \<Rightarrow> ptr \<Rightarrow> (u16 \<times> ptr \<times> ptr) list \<Rightarrow> 'z vnet_state_scheme \<Rightarrow> 'z vnet_state_scheme option" where
  "rx_deliver call skb e_hdr [] s = Some s"
| "rx_deliver call skb e_hdr ((t, f, c) # hs) s = do {
     s \<leftarrow> (if t = bswap16 (load16 (mem s) (e_hdr + 12)) then
         if f = NULL then None
         else do {
           (b, s) \<leftarrow> call f (skb_store s skb) c s;
           Some (s\<lparr>skb_store := (skb_store s)(skb := b)\<rparr>)
         }
       else Some s);
     rx_deliver call skb e_hdr hs s
   }"

text \<open>What the thread does with a buffer it read from the queue; \<open>continue\<close> skips the refill.\<close>

definition rx_packet :: "'z vnet_state_scheme handler_call \<Rightarrow> ptr \<Rightarrow> 'z vnet_state_scheme \<Rightarrow> 'z vnet_state_scheme option" where
  "rx_packet call skb s = do {
     let b = add_parsed_header VIRTIO_NET_HDR_SIZE hdr_virtio (skb_store s skb);
     let b = add_parsed_header ETHERNET_HDR_SIZE hdr_ethernet b;
     let s = s\<lparr>skb_store := (skb_store s)(skb := b)\<rparr>;
     let e_hdr = headers b hdr_ethernet;
     let dmac = read_bytes (mem s) e_hdr 6;
     if dmac \<noteq> replicate 6 0xff \<and> dmac \<noteq> vn_addr s then delete_skb skb s
     else do {
       s \<leftarrow> rx_deliver call skb e_hdr (vn_rx_handlers s) s;
       s \<leftarrow> delete_skb skb s;
       let (flags, h) = arch_irq_save (irqs s);
       s \<leftarrow> rx_refill (s\<lparr>irqs := h\<rparr>);
       Some (s\<lparr>irqs := arch_irq_restore flags (irqs s)\<rparr>)
     }
   }"

text \<open>One round of the loop of the thread: the result says whether a buffer was taken or the thread waits.\<close>

definition rx_thread_round ::
  "'z vnet_state_scheme handler_call \<Rightarrow> clock \<Rightarrow> nat \<Rightarrow> ptr \<Rightarrow> 'z vnet_state_scheme \<Rightarrow> (bool \<times> 'z vnet_state_scheme) option" where
  "rx_thread_round call clk t ctx s = do {
     (r, q, s) \<leftarrow> msgq_read clk t (- 1) ctx (rx_packet_queue s) s;
     let s = s\<lparr>rx_packet_queue := q\<rparr>;
     case r of
       Read_waits \<Rightarrow> Some (False, s)
     | Read_done None \<Rightarrow> None
     | Read_done (Some bs) \<Rightarrow> do {
         s \<leftarrow> rx_packet call (le_word bs) s;
         Some (True, s)
       }
   }"

definition rx_thread_resume :: "'z vnet_state_scheme handler_call \<Rightarrow> ptr \<Rightarrow> 'z vnet_state_scheme \<Rightarrow> 'z vnet_state_scheme option" where
  "rx_thread_resume call ctx s = do {
     (r, q) \<leftarrow> msgq_read_end ctx (rx_packet_queue s) s;
     let s = s\<lparr>rx_packet_queue := q\<rparr>;
     case r of None \<Rightarrow> None | Some bs \<Rightarrow> rx_packet call (le_word bs) s
   }"

subsection \<open>Features\<close>

text \<open>
  The base class never accepts \<open>VIRTIO_F_EVENT_IDX\<close>, which the queues do not implement; the network device does not call the base
  class and accepts it whenever the device offers it.
\<close>

lemma net_accepts_event_idx:
  "\<not> bit (virtio_negotiate_features feats) VIRTIO_F_EVENT_IDX"
  "bit (net_negotiate_features feats) VIRTIO_F_EVENT_IDX = bit feats VIRTIO_F_EVENT_IDX"
proof -
  show "\<not> bit (virtio_negotiate_features feats) VIRTIO_F_EVENT_IDX"
    unfolding virtio_negotiate_features_def by (simp only: bit_and_iff bit_not_iff bit_push_bit_iff bit_1_iff) simp
  have "(0xFF000000 :: u32) = push_bit 24 (mask 8)" by (simp add: mask_eq_exp_minus_1)
  then show "bit (net_negotiate_features feats) VIRTIO_F_EVENT_IDX = bit feats VIRTIO_F_EVENT_IDX"
    unfolding net_negotiate_features_def Let_def VIRTIO_F_EVENT_IDX_def VIRTIO_NET_F_MAC_def VIRTIO_NET_F_STATUS_def
    by (simp only: bit_or_iff bit_and_iff bit_push_bit_iff bit_mask_iff bit_1_iff) simp
qed

subsection \<open>Sending a frame\<close>

definition vnet_frame_bytes :: "mac_t \<Rightarrow> link_frame \<Rightarrow> u8 list" where
  "vnet_frame_bytes src f = replicate 10 0 @ frame_dest f @ src @ le_bytes 2 (bswap16 (frame_type f)) @ frame_data f"

lemma vnet_headers_memory:
  assumes "length dest = 6" "length src = 6" "unat sz + 24 < 2 ^ 64"
    and m'_def: "m' = write_bytes a (replicate 10 0) (store16 (a + 22) t (write_bytes (a + 16) src (write_bytes (a + 10) dest m)))"
  shows "m' = write_bytes a (replicate 10 0 @ dest @ src @ le_bytes 2 t) m"
    and "read_bytes m' a (24 + unat sz) = replicate 10 0 @ dest @ src @ le_bytes 2 t @ read_bytes m (a + 24) (unat sz)"
proof -
  have w: "write_bytes (a + 16) src (write_bytes (a + 10) dest m) = write_bytes (a + 10) (dest @ src) m"
    using write_write_append [of dest src "a + 10" m] assms(1,2) by (simp add: add.assoc)
  have w2: "store16 (a + 22) t (write_bytes (a + 10) (dest @ src) m) = write_bytes (a + 10) (dest @ src @ le_bytes 2 t) m"
    using write_write_append [of "dest @ src" "le_bytes 2 t" "a + 10" m] assms(1,2) by (simp add: add.assoc store16_def)
  have s: "separate a (length (replicate 10 (0 :: u8))) (a + 10) (length (dest @ src @ le_bytes 2 t))"
    using separate_offsets [of 0 10 10 14 a] assms(1,2) by simp
  show m': "m' = write_bytes a (replicate 10 0 @ dest @ src @ le_bytes 2 t) m"
    unfolding m'_def w w2 using write_write_separate [OF s, of m] write_write_append [of "replicate 10 0" "dest @ src @ le_bytes 2 t" a m] assms(1,2)
    by simp
  have l: "length (replicate 10 0 @ dest @ src @ le_bytes 2 t) = 24" using assms(1,2) by simp
  have "read_bytes m' a 24 = replicate 10 0 @ dest @ src @ le_bytes 2 t"
    unfolding m' by (rule read_write_same) (use l in simp_all)
  moreover have "read_bytes m' (a + of_nat 24) (unat sz) = read_bytes m (a + of_nat 24) (unat sz)"
  proof (cases "unat sz = 0")
    case False
    have "separate a 24 (a + of_nat 24) (unat sz)"
      using assms(3) unat_minus_offset [of 24 a a] by (simp add: separate_def)
    then show ?thesis unfolding m' by (intro read_write_separate) (use l in simp)
  qed (simp add: read_bytes_def)
  ultimately show "read_bytes m' a (24 + unat sz) = replicate 10 0 @ dest @ src @ le_bytes 2 t @ read_bytes m (a + 24) (unat sz)"
    unfolding read_bytes_add by simp
qed

lemma vnet_add_headers:
  assumes ok: "skb_ok b" "unat (start b) + 24 \<le> unat (head b)" "headers b hdr_ethernet = NULL" "headers b hdr_virtio = NULL"
    and sz: "unat (sockbuf_size b) + 24 < 2 ^ 32"
  obtains b1 b2 where "add_header ETHERNET_HDR_SIZE hdr_ethernet b = (head b - 14, b1)" "add_header VIRTIO_NET_HDR_SIZE hdr_virtio b1 = (head b - 24, b2)"
    "sockbuf_data b2 = head b - 24" "sockbuf_size b2 = sockbuf_size b + 24" "head b - 24 \<noteq> NULL" "unat (sockbuf_size b2) = 24 + unat (sockbuf_size b)"
    "(ucast (sockbuf_size b2) :: u32) \<noteq> 0"
proof -
  have le: "start b \<le> head b" "start b \<noteq> NULL" using ok(1) by (simp_all add: skb_ok_def)
  have d: "unat (head b - start b) = unat (head b) - unat (start b)" using le by (simp add: unat_sub)
  have "14 \<le> head b - start b" using ok(2) d by (simp add: word_le_nat_alt)
  then have "unat (head b - start b - 14) = unat (head b) - unat (start b) - 14" using unat_sub [of 14 "head b - start b"] d by simp
  moreover have "head b - 14 - start b = head b - start b - 14" by simp
  ultimately have d2: "unat (head b - 14 - start b) = unat (head b) - unat (start b) - 14" by metis
  define b1 where "b1 = b\<lparr>head := head b - 14, headers := (headers b)(hdr_ethernet := head b - 14)\<rparr>"
  define b2 where "b2 = b1\<lparr>head := head b - 24, headers := (headers b1)(hdr_virtio := head b - 24)\<rparr>"
  have h1: "add_header ETHERNET_HDR_SIZE hdr_ethernet b = (head b - 14, b1)"
  proof -
    have "\<not> head b - start b < 14" unfolding word_less_nat_alt d using ok(2) by simp
    then show ?thesis using ok(3) by (simp add: add_header_def ETHERNET_HDR_SIZE_def b1_def)
  qed
  have h2: "add_header VIRTIO_NET_HDR_SIZE hdr_virtio b1 = (head b - 24, b2)"
  proof -
    have "\<not> head b - 14 - start b < 10" unfolding word_less_nat_alt d2 using ok(2) by simp
    then show ?thesis using ok(4) by (simp add: add_header_def VIRTIO_NET_HDR_SIZE_def b1_def b2_def)
  qed
  have "24 \<le> head b" using ok(2) by (simp add: word_le_nat_alt)
  then have "unat (head b - 24) = unat (head b) - 24" using unat_sub [of 24 "head b"] by simp
  moreover have "0 < unat (start b)" using le(2) by (simp add: unat_gt_0)
  ultimately have nn: "head b - 24 \<noteq> NULL" using ok(2) by auto
  have sz2: "sockbuf_size b2 = sockbuf_size b + 24" by (simp add: sockbuf_size_def b2_def b1_def)
  have u: "unat (sockbuf_size b2) = 24 + unat (sockbuf_size b)"
    unfolding sz2 using unat_offset [of "sockbuf_size b" 0 24] sz by simp
  have "unat (ucast (sockbuf_size b2) :: u32) = unat (sockbuf_size b2)"
    using sz u by (simp add: unsigned_ucast_eq unsigned_take_bit_eq take_bit_nat_eq_self)
  then have nz: "(ucast (sockbuf_size b2) :: u32) \<noteq> 0" using u by auto
  show ?thesis
    by (rule that [OF h1 h2 _ sz2 nn u nz]) (use le(2) in \<open>simp add: sockbuf_data_def b2_def b1_def\<close>)
qed

text \<open>Bytes the queue does not use survive sending, and bytes the queue uses survive a write elsewhere.\<close>

lemma separate_bytes_same:
  assumes "separate (desc_table q) (ctx_off n + 8 * n) a (length bs)"
  shows "vq_bytes_same n q m (write_bytes a bs m)"
  unfolding vq_bytes_same_def
proof (intro allI impI)
  fix i assume "i < ctx_off n + 8 * n"
  then have "length bs \<le> unat (desc_table q + of_nat i - a)" using assms separate_sym separate_offset by blast
  then show "write_bytes a bs m (desc_table q + of_nat i) = m (desc_table q + of_nat i)" by (simp add: write_bytes_def)
qed

lemma read_outside:
  assumes "\<And>x. N \<le> unat (x - t) \<Longrightarrow> m' x = m x" "separate t N a k" "l \<le> k"
  shows "read_bytes m' a l = read_bytes m a l"
  unfolding read_bytes_def by (intro map_cong refl assms(1) separate_offset [OF assms(2)]) (use assms(3) in simp)

text \<open>
  C26. The device implements the link interface of the network stack: a frame given to write is put into the transmit queue as one
  buffer that holds the virtio header, the Ethernet header for the destination and the type, and the bytes that the link interface
  was given; the queue stays intact.
\<close>

theorem virtio_net_write_frame:
  assumes skb: "skb_ok b" "unat (start b) + 24 \<le> unat (head b)" "headers b hdr_ethernet = NULL" "headers b hdr_virtio = NULL"
      "unat (sockbuf_size b) + 24 < 2 ^ 32"
    and frame: "length dest = 6" "length (vn_addr s) = 6" "type \<noteq> ETHERTYPE_UNKNOWN" "f = last (sent (snd (link_write b dest type s)))"
    and queue: "vq_inv n (mem s) (vqs s (tx_q s)) v" "vw_free v \<noteq> []" "tx_q s \<noteq> NULL"
    and apart: "separate (desc_table (vqs s (tx_q s))) (ctx_off n + 8 * n) (head b - 24) (24 + unat (sockbuf_size b))"
  shows "\<exists>b' s'. virtio_net_write b dest type s = Some (E_OK, b', s') \<and>
    read_bytes (mem s') (sockbuf_data b') (unat (sockbuf_size b')) = vnet_frame_bytes (vn_addr s) f \<and>
    vq_inv n (mem s') (vqs s' (tx_q s))
      (vw_send \<lparr>vb_addr = sockbuf_data b', vb_len = ucast (sockbuf_size b'), vb_writable = False, vb_ctx = NULL\<rparr> v)"
proof -
  obtain b1 b2 where h: "add_header ETHERNET_HDR_SIZE hdr_ethernet b = (head b - 14, b1)" "add_header VIRTIO_NET_HDR_SIZE hdr_virtio b1 = (head b - 24, b2)"
      and b2: "sockbuf_data b2 = head b - 24" "sockbuf_size b2 = sockbuf_size b + 24" "head b - 24 \<noteq> NULL"
        "unat (sockbuf_size b2) = 24 + unat (sockbuf_size b)" "(ucast (sockbuf_size b2) :: u32) \<noteq> 0"
    by (rule vnet_add_headers [OF skb])
  define a where "a = head b - 24"
  define m1 where "m1 = write_bytes a (replicate 10 0) (store16 (a + 22) (bswap16 type) (write_bytes (a + 16) (vn_addr s) (write_bytes (a + 10) dest (mem s))))"
  have "unat (sockbuf_size b) + 24 < 2 ^ 64" using skb(5) by simp
  note m1 = vnet_headers_memory [OF frame(1,2) this m1_def]
  define hb where "hb = replicate 10 0 @ dest @ vn_addr s @ le_bytes 2 (bswap16 type)"
  have "separate (desc_table (vqs s (tx_q s))) (ctx_off n + 8 * n) a (length hb)"
    using apart frame(1,2) by (auto simp: separate_def a_def hb_def)
  then have "vq_bytes_same n (vqs s (tx_q s)) (mem s) m1" unfolding m1(1) hb_def [symmetric] by (rule separate_bytes_same)
  then have I: "vq_inv n (mem (s\<lparr>mem := m1\<rparr>)) (vqs (s\<lparr>mem := m1\<rparr>) (tx_q s)) v" using vq_inv_bytes [OF queue(1)] by simp
  obtain q' m' where q': "vq_inv n m' q' (vw_send \<lparr>vb_addr = a, vb_len = ucast (sockbuf_size b2), vb_writable = False, vb_ctx = NULL\<rparr> v)"
      "virtq_send_buffer net_ops (vn_dev s) (tx_q s) a (ucast (sockbuf_size b2)) False NULL (s\<lparr>mem := m1\<rparr>) =
       (let s' = s\<lparr>mem := m1\<rparr>\<lparr>vqs := (vqs (s\<lparr>mem := m1\<rparr>))(tx_q s := q'), mem := m'\<rparr>
        in Some (E_OK, if load16 (mem (s\<lparr>mem := m1\<rparr>)) (used_ring_hdr q') AND VIRTQ_USED_F_NO_NOTIFY = 0
          then dev_write_reg net_ops (vn_dev s) queue_notify (vq_index (vqs (s\<lparr>mem := m1\<rparr>) (tx_q s))) s' else s'))"
      "\<And>x. ctx_off n + 8 * n \<le> unat (x - desc_table (vqs s (tx_q s))) \<Longrightarrow> m' x = m1 x"
    by (rule virtq_send_buffer_ok [OF I queue(2,3) b2(3) [folded a_def] b2(5)]) auto
  define s' where "s' = snd (the (virtq_send_buffer net_ops (vn_dev s) (tx_q s) a (ucast (sockbuf_size b2)) False NULL (s\<lparr>mem := m1\<rparr>)))"
  have send: "virtq_send_buffer net_ops (vn_dev s) (tx_q s) a (ucast (sockbuf_size b2)) False NULL (s\<lparr>mem := m1\<rparr>) = Some (E_OK, s')"
      "mem s' = m'" "vqs s' (tx_q s) = q'"
    unfolding s'_def q'(2) by (simp_all add: Let_def dev_write_reg_state)
  have addr: "head b - 14 = a + 10" "a + 10 + 6 = a + 16" "a + 10 + 12 = a + 22" by (simp_all add: a_def)
  have "virtio_net_write b dest type s = Some (E_OK, b2, s')"
    using send(1) frame(1-3) h b2(1) unfolding virtio_net_write_def
    by (simp add: addr vnet_get_mac_def a_def [symmetric] m1_def [symmetric])
  moreover have "read_bytes m' a (24 + unat (sockbuf_size b)) = read_bytes m1 a (24 + unat (sockbuf_size b))"
    by (rule read_outside [OF q'(3) apart [folded a_def]]) auto
  then have "read_bytes (mem s') (sockbuf_data b2) (unat (sockbuf_size b2)) = vnet_frame_bytes (vn_addr s) f"
    using m1(2) skb(1) unfolding b2(1,4) a_def [symmetric] send(2) frame(4)
    by (simp add: vnet_frame_bytes_def link_write_def skb_ok_def sockbuf_data_def a_def)
  ultimately show ?thesis using q'(1) send b2(1) by (auto simp: a_def)
qed

subsection \<open>Receiving\<close>

text \<open>The socket buffers in the packet queue, oldest first.\<close>

definition queued_ptrs :: "msgq \<Rightarrow> ptr list" where
  "queued_ptrs q = map (\<lambda>i. le_word (slot (msg_size q) (storage q) ((read_p q + i) mod msgq_size q))) [0..<nat (sem_count (sem q))]"

definition queued_skbs :: "'z vnet_state_scheme \<Rightarrow> sockbuf list" where
  "queued_skbs s = map (skb_store s) (queued_ptrs (rx_packet_queue s))"

text \<open>The handler can take \<open>k\<close> more packets: nobody waits at the queue, it has room, and \<open>new\<close> will return fresh objects.\<close>

definition new_skbs :: "nat \<Rightarrow> 'z vnet_state_scheme \<Rightarrow> ptr list" where
  "new_skbs k s = map (\<lambda>j. skb_new_result s (skb_new_calls s + j)) [0..<k]"

definition rx_ready :: "ptr \<Rightarrow> ptr \<Rightarrow> ptr \<Rightarrow> nat \<Rightarrow> 'z vnet_state_scheme \<Rightarrow> bool" where
  "rx_ready fn ff this k s \<longleftrightarrow> rx_handler_addr s = fn \<and> tx_completion_addr s \<noteq> fn \<and> skb_free_func_addr s = ff \<and> vn_this s = this \<and>
     msg_size (rx_packet_queue s) = 8 \<and>
     (\<exists>msgs. msgq_rep (rx_packet_queue s) msgs \<and> length msgs + k \<le> msgq_size (rx_packet_queue s)) \<and>
     NULL \<notin> set (new_skbs k s) \<and> distinct (queued_ptrs (rx_packet_queue s) @ new_skbs k s)"

lemma queued_ptrs_rep: "msgq_rep q msgs \<Longrightarrow> queued_ptrs q = map le_word msgs"
  unfolding queued_ptrs_def by (rule nth_equalityI) (auto simp: msgq_rep_def)

lemma rx_handler_accepts:
  assumes r: "rx_ready fn ff this (Suc k) s"
  obtains s' where "rx_handler a l s = Some s'" "rx_ready fn ff this k s'" "vqs s' = vqs s" "mem s' = mem s"
    "queued_skbs s' = queued_skbs s @ [sockbuf_zero_copy a l ff this]" "num_rx_buffers s' = num_rx_buffers s - 1"
proof -
  define q where "q = rx_packet_queue s"
  define skb where "skb = skb_new_result s (skb_new_calls s)"
  obtain msgs where rep: "msgq_rep q msgs" "length msgs + Suc k \<le> msgq_size q" using r by (auto simp: rx_ready_def q_def)
  have new: "new_skbs (Suc k) s = skb # map (\<lambda>j. skb_new_result s (Suc (skb_new_calls s) + j)) [0..<k]"
    unfolding new_skbs_def map_upt_Suc skb_def by simp
  have f: "msg_size q = 8" "skb \<noteq> NULL" "skb \<notin> set (queued_ptrs q)" using r new by (auto simp: rx_ready_def q_def)
  have nfull: "\<not> msgq_full q" using rep by (simp add: msgq_full_def msgq_rep_def)
  define s1 where "s1 = s\<lparr>num_rx_buffers := num_rx_buffers s - 1, skb_new_calls := skb_new_calls s + 1,
    skb_store := (skb_store s)(skb := sockbuf_zero_copy a l (skb_free_func_addr s) (vn_this s))\<rparr>"
  obtain q' where q': "msgq_write (le_bytes 8 skb) q s1 = Some (True, q', s1)" "msgq_rep q' (msgs @ [le_bytes 8 skb])"
    using msgq_write_rep [OF rep(1), of "le_bytes 8 skb" s1] f(1) rep(2) by auto
  have sz: "msgq_size q' = msgq_size q" "msg_size q' = msg_size q"
    using q'(1) by (auto simp: msgq_write_def sem_give_def Let_def split: if_splits Option.bind_splits)
  define s' where "s' = s1\<lparr>rx_packet_queue := q'\<rparr>"
  have s': "rx_handler a l s = Some s'"
    using nfull f(2) q'(1) by (simp add: rx_handler_def Let_def q_def [symmetric] skb_def [symmetric] s1_def s'_def)
  have qp: "queued_ptrs q' = queued_ptrs q @ [skb]"
    using queued_ptrs_rep [OF rep(1)] queued_ptrs_rep [OF q'(2)] by (simp add: le_word_le_bytes)
  have "queued_skbs s' = queued_skbs s @ [sockbuf_zero_copy a l ff this]"
    using qp f(3) r by (auto simp: queued_skbs_def s'_def s1_def q_def rx_ready_def)
  moreover have "rx_ready fn ff this k s'"
  proof -
    have "new_skbs k s' = map (\<lambda>j. skb_new_result s (Suc (skb_new_calls s) + j)) [0..<k]" by (simp add: new_skbs_def s'_def s1_def)
    then have "NULL \<notin> set (new_skbs k s')" "distinct (queued_ptrs q' @ new_skbs k s')"
      using r new qp by (auto simp: rx_ready_def q_def)
    moreover have "length (msgs @ [le_bytes 8 skb]) + k \<le> msgq_size q'" using rep(2) sz by simp
    moreover have "rx_packet_queue s' = q'" "rx_handler_addr s' = rx_handler_addr s" "tx_completion_addr s' = tx_completion_addr s"
        "skb_free_func_addr s' = skb_free_func_addr s" "vn_this s' = vn_this s"
      by (simp_all add: s'_def s1_def)
    ultimately show ?thesis using r q'(2) sz f(1) unfolding rx_ready_def q_def by auto
  qed
  ultimately show ?thesis using that [of s'] s' by (simp add: s'_def s1_def)
qed

interpretation rx: vq_client vnet_call fn hctx p "rx_ready fn ff this" queued_skbs "\<lambda>c a l. [sockbuf_zero_copy a l ff this]"
  for fn hctx p ff this
proof unfold_locales
  fix k c a l and s :: "'z vnet_state_scheme"
  assume r: "rx_ready fn ff this (Suc k) s"
  then have call: "vnet_call fn hctx c a l s = rx_handler a l s" by (auto simp: vnet_call_def rx_ready_def)
  show "\<exists>s'. vnet_call fn hctx c a l s = Some s' \<and> rx_ready fn ff this k s' \<and> vqs s' p = vqs s p \<and> mem s' = mem s \<and>
      queued_skbs s' = queued_skbs s @ [sockbuf_zero_copy a l ff this]"
    unfolding call by (rule rx_handler_accepts [OF r, of a l]) auto
qed (simp_all add: rx_ready_def queued_skbs_def new_skbs_def)


text \<open>Transmitted buffers are completed with the context they were sent with.\<close>

definition tx_ready :: "ptr \<Rightarrow> (ptr \<Rightarrow> sockbuf) \<Rightarrow> nat \<Rightarrow> 'z vnet_state_scheme \<Rightarrow> bool" where
  "tx_ready fn st k s \<longleftrightarrow> tx_completion_addr s = fn \<and> skb_store s = st \<and> (\<forall>p. free_func (st p) = NULL)"

definition tx_freed :: "(ptr \<Rightarrow> sockbuf) \<Rightarrow> ptr \<Rightarrow> free_event list" where
  "tx_freed st c = (if c = NULL then [] else (if start (st c) \<noteq> NULL then [Free (start (st c))] else []) @ [Free c])"

interpretation tx: vq_client vnet_call fn hctx p "tx_ready fn st" freed "\<lambda>c a l. tx_freed st c"
  for fn hctx p st
proof unfold_locales
  fix k c a l and s :: "'z vnet_state_scheme"
  assume "tx_ready fn st (Suc k) s"
  then show "\<exists>s'. vnet_call fn hctx c a l s = Some s' \<and> tx_ready fn st k s' \<and> vqs s' p = vqs s p \<and> mem s' = mem s \<and>
      freed s' = freed s @ tx_freed st c"
    by (auto simp: vnet_call_def tx_ready_def tx_completion_event_def delete_skb_def sockbuf_delete_def tx_freed_def)
qed (simp_all add: tx_ready_def)

text \<open>\<open>virtio_net_write\<close> sends every frame with a null context, so its completion frees nothing.\<close>

lemma vnet_tx_completion_leaks:
  assumes "vq_inv n (mem s) (vqs s p) v" "vq_irq_handler (vqs s p) = tx_completion_addr s" "tx_completion_addr s \<noteq> NULL"
    "\<forall>b. free_func (skb_store s b) = NULL" "\<forall>i\<in>set (vw_used v). vb_ctx (vw_buf v i) = NULL"
  shows "\<exists>s'. handle_vq_irq vnet_call p s = Some s' \<and> freed s' = freed s"
proof -
  have "tx_ready (tx_completion_addr s) (skb_store s) (length (vw_used v) + 0) s" using assms(4) by (simp add: tx_ready_def)
  moreover have "concat (map (\<lambda>i. tx_freed (skb_store s) (vb_ctx (vw_buf v i))) (vw_used v)) = []" using assms(5) by (simp add: tx_freed_def)
  ultimately show ?thesis
    using tx.handle_vq_irq_returns [OF assms(1,3,2) refl, of "skb_store s" 0] by auto
qed

subsection \<open>Recycling receive buffers\<close>

lemma virtq_send_buffer_fields:
  "virtq_send_buffer ops d p buf l w c s = Some (r, s') \<Longrightarrow> \<exists>q m h. s' = s\<lparr>vqs := q, mem := m, irqs := h\<rparr>"
proof -
  have same: "\<exists>q m h. t = t\<lparr>vqs := q, mem := m, irqs := h\<rparr>" for t :: "'z dev_state_scheme"
    by (intro exI [of _ "vqs t"] exI [of _ "mem t"] exI [of _ "irqs t"]) simp
  show "virtq_send_buffer ops d p buf l w c s = Some (r, s') \<Longrightarrow> ?thesis"
    unfolding virtq_send_buffer_def Let_def dev_write_reg_def by (auto split: if_splits prod.splits Option.bind_splits intro: same)
qed

definition vw_grows :: "vq_view \<Rightarrow> vq_view \<Rightarrow> bool" where
  "vw_grows v v' \<longleftrightarrow> (\<exists>more. vw_avail v' = vw_avail v @ more) \<and> (\<forall>i\<in>set (vw_avail v). vw_buf v' i = vw_buf v i)"

lemma vw_grows_trans: "vw_grows v v' \<Longrightarrow> vw_grows v' v'' \<Longrightarrow> vw_grows v v''"
  by (auto simp: vw_grows_def)

lemma vw_grows_send: "vq_inv n m q v \<Longrightarrow> vw_free v \<noteq> [] \<Longrightarrow> vw_grows v (vw_send b v)"
  by (cases "vw_free v") (auto simp: vw_grows_def vw_send_def vq_inv_def vw_owned_def)

lemma virtq_send_total:
  assumes I: "vq_inv n (mem s) (vqs s p) v" and p: "p \<noteq> NULL"
  obtains r s' v' where "virtq_send_buffer ops d p buf l w c s = Some (r, s')" "vq_inv n (mem s') (vqs s' p) v'" "vw_grows v v'"
    "buf \<noteq> NULL \<Longrightarrow> l \<noteq> 0 \<Longrightarrow> vw_free v \<noteq> [] \<Longrightarrow>
      r = E_OK \<and> v' = vw_send \<lparr>vb_addr = buf, vb_len = l, vb_writable = w, vb_ctx = c\<rparr> v"
proof (cases "buf \<noteq> NULL \<and> l \<noteq> 0 \<and> vw_free v \<noteq> []")
  case True
  obtain q' m' where "vq_inv n m' q' (vw_send \<lparr>vb_addr = buf, vb_len = l, vb_writable = w, vb_ctx = c\<rparr> v)"
    "virtq_send_buffer ops d p buf l w c s =
       (let s' = s\<lparr>vqs := (vqs s)(p := q'), mem := m'\<rparr>
        in Some (E_OK, if load16 (mem s) (used_ring_hdr q') AND VIRTQ_USED_F_NO_NOTIFY = 0
          then dev_write_reg ops d queue_notify (vq_index (vqs s p)) s' else s'))"
    by (rule virtq_send_buffer_ok [OF I _ p, of buf l w c ops d]) (use True in auto)
  then show ?thesis using that True vw_grows_send [OF I] by (auto simp: Let_def dev_write_reg_state)
next
  case False
  then have "\<exists>r. virtq_send_buffer ops d p buf l w c s = Some (r, s)"
    using virtq_send_buffer_full [OF I, of ops d buf l w c] by (auto simp: virtq_send_buffer_def)
  then show ?thesis using that [of _ s v] I False by (auto simp: vw_grows_def)
qed

lemma rx_add_buffer_ok:
  assumes I: "vq_inv n (mem s) (vqs s (rx_q s)) v" and p: "rx_q s \<noteq> NULL"
  obtains s' v' where "rx_add_buffer s = Some s'" "vq_inv n (mem s') (vqs s' (rx_q s')) v'" "vw_grows v v'" "rx_q s' = rx_q s"
    "num_rx_buffers s' = num_rx_buffers s + 1"
proof -
  define s1 where "s1 = snd (otrix_alloc (MTU + VIRTIO_NET_HDR_SIZE) s)"
  define buf where "buf = fst (otrix_alloc (MTU + VIRTIO_NET_HDR_SIZE) s)"
  have s1: "otrix_alloc (MTU + VIRTIO_NET_HDR_SIZE) s = (buf, s1)" by (simp add: buf_def s1_def)
  have f: "mem s1 = mem s" "vqs s1 = vqs s" "rx_q s1 = rx_q s" "num_rx_buffers s1 = num_rx_buffers s" by (simp_all add: s1_def otrix_alloc_def)
  have I1: "vq_inv n (mem s1) (vqs s1 (rx_q s)) v" using I by (simp add: f)
  obtain r s2 v2 where s2: "virtq_send_buffer net_ops (vn_dev s1) (rx_q s) buf (ucast (MTU + VIRTIO_NET_HDR_SIZE)) True NULL s1 = Some (r, s2)"
      "vq_inv n (mem s2) (vqs s2 (rx_q s)) v2" "vw_grows v v2"
    by (rule virtq_send_total [OF I1 p])
  have "rx_q s2 = rx_q s" "num_rx_buffers s2 = num_rx_buffers s" using virtq_send_buffer_fields [OF s2(1)] f by auto
  then show ?thesis
    using that [of "s2\<lparr>num_rx_buffers := num_rx_buffers s2 + 1\<rparr>" v2] s1 s2 f by (simp add: rx_add_buffer_def rx_post_buffer_def)
qed

text \<open>The refill loop ends with at least \<open>RX_QUEUE_SIZE\<close> buffers counted.\<close>

lemma rx_refill_ends:
  assumes "vq_inv n (mem s) (vqs s (rx_q s)) v" "rx_q s \<noteq> NULL"
  shows "\<exists>s' v'. rx_refill s = Some s' \<and> vq_inv n (mem s') (vqs s' (rx_q s')) v' \<and> vw_grows v v' \<and> rx_q s' = rx_q s \<and>
    of_nat RX_QUEUE_SIZE \<le> num_rx_buffers s'"
  using assms
proof (induction "16 - unat (num_rx_buffers s)" arbitrary: s v)
  case 0
  then have "\<not> num_rx_buffers s < of_nat RX_QUEUE_SIZE" by (simp add: word_less_nat_alt RX_QUEUE_SIZE_def)
  then show ?case using 0 by (subst rx_refill.simps) (auto simp: vw_grows_def)
next
  case (Suc k)
  obtain s1 v1 where s1: "rx_add_buffer s = Some s1" "vq_inv n (mem s1) (vqs s1 (rx_q s1)) v1" "vw_grows v v1" "rx_q s1 = rx_q s"
      "num_rx_buffers s1 = num_rx_buffers s + 1"
    by (rule rx_add_buffer_ok [OF Suc.prems])
  have lt: "unat (num_rx_buffers s) < 16" using Suc.hyps(2) by linarith
  then have "unat (num_rx_buffers s1) = Suc (unat (num_rx_buffers s))" using unat_offset [of "num_rx_buffers s" 0 1] s1(5) by simp
  then have "k = 16 - unat (num_rx_buffers s1)" using Suc.hyps(2) by simp
  then obtain s' v' where s': "rx_refill s1 = Some s'" "vq_inv n (mem s') (vqs s' (rx_q s')) v'" "vw_grows v1 v'" "rx_q s' = rx_q s1"
      "of_nat RX_QUEUE_SIZE \<le> num_rx_buffers s'"
    using Suc.hyps(1) [of s1 v1] s1 Suc.prems(2) by auto
  have "num_rx_buffers s < of_nat RX_QUEUE_SIZE" using lt by (simp add: word_less_nat_alt RX_QUEUE_SIZE_def)
  then have "rx_refill s = Some s'" using s1(1) s'(1) by (subst rx_refill.simps) simp
  then show ?case using s' s1(3,4) vw_grows_trans by auto
qed

text \<open>A zero-copy buffer over a receive buffer of the device, and what the thread needs to give it back.\<close>

definition holds_rx_buffer :: "sockbuf \<Rightarrow> ptr \<Rightarrow> u64 \<Rightarrow> 'z vnet_state_scheme \<Rightarrow> bool" where
  "holds_rx_buffer b data n s \<longleftrightarrow> start b = data \<and> buffer_size b = n \<and> free_func b = skb_free_func_addr s \<and> skb_free_func_addr s \<noteq> NULL \<and>
     data \<noteq> NULL \<and> (ucast n :: u32) \<noteq> 0 \<and> num_rx_buffers s \<le> of_nat RX_QUEUE_SIZE"

abbreviation rx_buf :: "ptr \<Rightarrow> u64 \<Rightarrow> vq_buf" where
  "rx_buf data n \<equiv> \<lparr>vb_addr = data, vb_len = ucast n, vb_writable = True, vb_ctx = NULL\<rparr>"

lemma delete_skb_recycles:
  assumes b: "holds_rx_buffer (skb_store s p) data n s" "p \<noteq> NULL"
    and q: "vq_inv N (mem s) (vqs s (rx_q s)) v" "vw_free v \<noteq> []" "rx_q s \<noteq> NULL"
  obtains s' where "delete_skb p s = Some s'" "vq_inv N (mem s') (vqs s' (rx_q s')) (vw_send (rx_buf data n) v)" "rx_q s' = rx_q s"
    "num_rx_buffers s' = num_rx_buffers s + 1" "freed s' = freed s @ [Free p]"
proof -
  obtain flags h where sv: "arch_irq_save (irqs s) = (flags, h)" by fastforce
  obtain r s1 v1 where s1: "virtq_send_buffer net_ops (vn_dev s) (rx_q s) data (ucast n) True NULL s = Some (r, s1)"
      "vq_inv N (mem s1) (vqs s1 (rx_q s)) (vw_send (rx_buf data n) v)"
    using b by (auto intro: virtq_send_total [OF q(1,3), of net_ops "vn_dev s" data "ucast n" True NULL] simp: holds_rx_buffer_def q(2))
  have f: "rx_q s1 = rx_q s" "num_rx_buffers s1 = num_rx_buffers s" "freed s1 = freed s" using virtq_send_buffer_fields [OF s1(1)] by auto
  have nf: "\<not> of_nat RX_QUEUE_SIZE < num_rx_buffers s" using b(1) by (simp add: holds_rx_buffer_def not_less)
  have "skb_free_func data n s = Some (s1\<lparr>num_rx_buffers := num_rx_buffers s1 + 1\<rparr>)"
    using s1(1) sv irq_save_restore [OF sv] nf by (simp add: skb_free_func_def Let_def)
  then have "delete_skb p s = Some (s1\<lparr>num_rx_buffers := num_rx_buffers s1 + 1, freed := freed s1 @ [Free p]\<rparr>)"
    using b by (simp add: delete_skb_def holds_rx_buffer_def)
  then show ?thesis using that s1(2) f by simp
qed

lemma parsed_frame:
  assumes "24 \<le> n"
  shows "headers (add_parsed_header ETHERNET_HDR_SIZE hdr_ethernet (add_parsed_header VIRTIO_NET_HDR_SIZE hdr_virtio (sockbuf_zero_copy data n ff this))) hdr_ethernet = data + 10"
    and "start (add_parsed_header k t b) = start b" "buffer_size (add_parsed_header k t b) = buffer_size b" "free_func (add_parsed_header k t b) = free_func b"
proof -
  have "\<not> n < 10" "unat (n - 10) = unat n - 10" using assms unat_sub [of 10 n] by (auto simp: word_less_nat_alt word_le_nat_alt)
  then have "\<not> n < 10" "\<not> n - 10 < 14" using assms by (auto simp: word_less_nat_alt word_le_nat_alt)
  then show "headers (add_parsed_header ETHERNET_HDR_SIZE hdr_ethernet (add_parsed_header VIRTIO_NET_HDR_SIZE hdr_virtio (sockbuf_zero_copy data n ff this))) hdr_ethernet = data + 10"
    by (simp add: add_parsed_header_def sockbuf_zero_copy_def ETHERNET_HDR_SIZE_def VIRTIO_NET_HDR_SIZE_def)
qed (simp_all add: add_parsed_header_def)

definition parse_frame :: "sockbuf \<Rightarrow> sockbuf" where
  "parse_frame b = add_parsed_header ETHERNET_HDR_SIZE hdr_ethernet (add_parsed_header VIRTIO_NET_HDR_SIZE hdr_virtio b)"

text \<open>
  A frame that is neither for this host nor a broadcast reaches no handler: its socket buffer is deleted and its receive buffer
  goes straight back to the device.
\<close>

theorem rx_foreign_frame_recycled:
  assumes skb: "skb_store s p = sockbuf_zero_copy data n (skb_free_func_addr s) this" "holds_rx_buffer (skb_store s p) data n s" "p \<noteq> NULL" "24 \<le> n"
    and q: "vq_inv N (mem s) (vqs s (rx_q s)) v" "vw_free v \<noteq> []" "rx_q s \<noteq> NULL"
    and dmac: "read_bytes (mem s) (data + 10) 6 \<noteq> replicate 6 0xff" "read_bytes (mem s) (data + 10) 6 \<noteq> vn_addr s"
  shows "\<exists>s'. rx_packet call p s = Some s' \<and> vq_inv N (mem s') (vqs s' (rx_q s')) (vw_send (rx_buf data n) v) \<and>
    num_rx_buffers s' = num_rx_buffers s + 1 \<and> freed s' = freed s @ [Free p]"
proof -
  define s1 where "s1 = s\<lparr>skb_store := (skb_store s)(p := parse_frame (skb_store s p))\<rparr>"
  have b1: "holds_rx_buffer (skb_store s1 p) data n s1"
    using skb(2) by (simp add: s1_def holds_rx_buffer_def parse_frame_def parsed_frame(2-4) [OF skb(4)])
  have "rx_packet call p s = delete_skb p s1"
    using dmac parsed_frame(1) [OF skb(4)] skb(1) by (simp add: rx_packet_def Let_def s1_def parse_frame_def)
  moreover obtain s' where "delete_skb p s1 = Some s'" "vq_inv N (mem s') (vqs s' (rx_q s')) (vw_send (rx_buf data n) v)"
      "num_rx_buffers s' = num_rx_buffers s1 + 1" "freed s' = freed s1 @ [Free p]"
    by (rule delete_skb_recycles [OF b1 skb(3), where v = v and N = N]) (use q in \<open>simp_all add: s1_def\<close>)
  ultimately show ?thesis by (auto simp: s1_def)
qed

lemma rx_deliver_skip:
  "(\<forall>h\<in>set hs. fst h \<noteq> bswap16 (load16 (mem s) (e_hdr + 12))) \<Longrightarrow> rx_deliver call skb e_hdr hs s = Some s"
  by (induction hs) auto

lemma rx_deliver_append:
  "rx_deliver call skb e_hdr (hs @ hs') s = Option.bind (rx_deliver call skb e_hdr hs s) (rx_deliver call skb e_hdr hs')"
  by (induction hs arbitrary: s) (auto intro!: Option.bind_cong split: prod.splits)


subsection \<open>An example device\<close>

definition demo_vnet :: vnet_state where
  "demo_vnet = dev_state.extend (snd (snd (virtq_create virtio_base demo_vdev 1 0x7300 0x7400 demo_dev)))
     \<lparr>vn_dev = demo_vdev, tx_q = 0x10000, rx_q = 0x10000, vn_rx_handlers = [(ETHERTYPE_ARP, 0x7500, 0x7600), (ETHERTYPE_UNKNOWN, NULL, NULL)],
      rx_packet_queue = msgq_new RX_QUEUE_SIZE 8, rx_thread_addr = 0x7700, num_rx_buffers = 15, vn_addr = [8, 0, 0x27, 1, 2, 3],
      vn_this = 0x7400, skb_store = (\<lambda>_. sockbuf_zero_copy 0x50000 1524 0x7800 0x7400), skb_new_result = (\<lambda>n. 0x60000 + of_nat n * 0x100),
      skb_new_calls = 0, skb_free_func_addr = 0x7800, tx_completion_addr = 0x7900, rx_handler_addr = 0x7300\<rparr>"

lemma demo_vnet_queue:
  "vq_inv 8 (mem demo_vnet) (vqs demo_vnet 0x10000) (vw_fresh 8 B)" "desc_table (vqs demo_vnet 0x10000) = 0x20000"
  "vq_irq_handler (vqs demo_vnet 0x10000) = 0x7300"
proof -
  have n: "(8 :: nat) = unat (ucast (8 :: u32) :: u16)" "(0 :: nat) < 8" "(8 :: nat) dvd 2 ^ 16" "0x10000 \<noteq> NULL" "0x20000 \<noteq> NULL" by simp_all
  obtain s' where "virtq_create virtio_base demo_vdev 1 0x7300 0x7400 demo_dev = (E_OK, Some 0x10000, s')"
      "vq_inv 8 (mem s') (vqs s' 0x10000) (vw_fresh 8 B)" "vq_irq_handler (vqs s' 0x10000) = 0x7300" "desc_table (vqs s' 0x10000) = vq_align 0x20000"
    by (rule virtq_create_ok [OF demo_dev_setup(1) n(1-3) demo_dev_setup(2,3) n(4,5) demo_dev_setup(4)])
  then show "vq_inv 8 (mem demo_vnet) (vqs demo_vnet 0x10000) (vw_fresh 8 B)" "desc_table (vqs demo_vnet 0x10000) = 0x20000"
      "vq_irq_handler (vqs demo_vnet 0x10000) = 0x7300"
    by (simp_all add: demo_vnet_def dev_state.defs vq_align_def)
qed

definition demo_tx_skb :: sockbuf where
  "demo_tx_skb = \<lparr>start = 0x40000, buffer_size = 28, headers = (\<lambda>_. NULL), payload = 0x40018, head = 0x40018, payload_size = 4,
     free_func = NULL, free_func_ctx = NULL\<rparr>"

lemma demo_vnet_fields:
  "vn_addr demo_vnet = [8, 0, 0x27, 1, 2, 3]" "tx_q demo_vnet = 0x10000" "rx_q demo_vnet = 0x10000" "num_rx_buffers demo_vnet = 15"
  "skb_free_func_addr demo_vnet = 0x7800" "skb_store demo_vnet q = sockbuf_zero_copy 0x50000 1524 0x7800 0x7400"
  "vn_rx_handlers demo_vnet = [(ETHERTYPE_ARP, 0x7500, 0x7600), (ETHERTYPE_UNKNOWN, NULL, NULL)]"
  by (simp_all add: demo_vnet_def dev_state.defs)

lemma arp_type_bytes: "le_bytes 2 (bswap16 ETHERTYPE_ARP) = [8, 6]"
  by code_simp

theorem virtio_net_write_frame_witness:
  "\<exists>b' s'. virtio_net_write demo_tx_skb [1, 2, 3, 4, 5, 6] ETHERTYPE_ARP demo_vnet = Some (E_OK, b', s') \<and>
    read_bytes (mem s') (sockbuf_data b') (unat (sockbuf_size b')) = replicate 10 0 @ [1, 2, 3, 4, 5, 6] @ [8, 0, 0x27, 1, 2, 3] @ [8, 6] @
      read_bytes (mem demo_vnet) 0x40018 4"
proof -
  define f where "f = last (sent (snd (link_write demo_tx_skb [1, 2, 3, 4, 5, 6] ETHERTYPE_ARP demo_vnet)))"
  have sz: "sockbuf_size demo_tx_skb = 4" "sockbuf_data demo_tx_skb = 0x40018" by (simp_all add: sockbuf_size_def sockbuf_data_def demo_tx_skb_def)
  have skb: "skb_ok demo_tx_skb" "unat (start demo_tx_skb) + 24 \<le> unat (head demo_tx_skb)" "headers demo_tx_skb hdr_ethernet = NULL"
      "headers demo_tx_skb hdr_virtio = NULL"
    by (simp_all add: skb_ok_def demo_tx_skb_def)
  have q: "vq_inv 8 (mem demo_vnet) (vqs demo_vnet (tx_q demo_vnet)) (vw_fresh 8 (\<lambda>_. undefined))" "vw_free (vw_fresh 8 (\<lambda>_. undefined)) \<noteq> []"
    using demo_vnet_queue(1) by (simp_all add: demo_vnet_fields vw_fresh_def)
  have sep: "separate (desc_table (vqs demo_vnet (tx_q demo_vnet))) (ctx_off 8 + 8 * 8) (head demo_tx_skb - 24) (24 + unat (sockbuf_size demo_tx_skb))"
    unfolding sz demo_vnet_fields demo_vnet_queue(2) by (simp add: separate_def demo_tx_skb_def ctx_off_def used_off_def vq_up_def)
  have "vnet_frame_bytes (vn_addr demo_vnet) f = replicate 10 0 @ [1, 2, 3, 4, 5, 6] @ [8, 0, 0x27, 1, 2, 3] @ [8, 6] @ read_bytes (mem demo_vnet) 0x40018 4"
    unfolding f_def vnet_frame_bytes_def link_write_def sz demo_vnet_fields by (simp add: arp_type_bytes)
  moreover have "\<exists>b' s'. virtio_net_write demo_tx_skb [1, 2, 3, 4, 5, 6] ETHERTYPE_ARP demo_vnet = Some (E_OK, b', s') \<and>
      read_bytes (mem s') (sockbuf_data b') (unat (sockbuf_size b')) = vnet_frame_bytes (vn_addr demo_vnet) f \<and>
      vq_inv 8 (mem s') (vqs s' (tx_q demo_vnet))
        (vw_send \<lparr>vb_addr = sockbuf_data b', vb_len = ucast (sockbuf_size b'), vb_writable = False, vb_ctx = NULL\<rparr> (vw_fresh 8 (\<lambda>_. undefined)))"
    by (rule virtio_net_write_frame [OF skb _ _ _ _ f_def q _ sep]) (simp_all add: sz demo_vnet_fields ETHERTYPE_ARP_def ETHERTYPE_UNKNOWN_def)
  ultimately show ?thesis by auto
qed

definition demo_rx_frame :: "u8 \<Rightarrow> vnet_state" where
  "demo_rx_frame d = demo_vnet\<lparr>mem := write_bytes 0x50000 (replicate 10 0 @ replicate 6 d @ [1, 2, 3, 4, 5, 6] @ [8, 6]) (mem demo_vnet)\<rparr>"

lemma demo_rx_frame_state:
  "vq_inv 8 (mem (demo_rx_frame d)) (vqs (demo_rx_frame d) 0x10000) (vw_fresh 8 B)" "read_bytes (mem (demo_rx_frame d)) 0x5000a 6 = replicate 6 d"
  "read_bytes (mem (demo_rx_frame d)) 0x50016 2 = [8, 6]"
proof -
  define bs where "bs = replicate 10 0 @ replicate 6 d @ [1, 2, 3, 4, 5, 6] @ [8, 6 :: u8]"
  have l: "length bs = 24" by (simp add: bs_def)
  have "separate (desc_table (vqs demo_vnet 0x10000)) (ctx_off 8 + 8 * 8) 0x50000 (length bs)"
    unfolding demo_vnet_queue(2) l by (simp add: separate_def ctx_off_def used_off_def vq_up_def)
  then show "vq_inv 8 (mem (demo_rx_frame d)) (vqs (demo_rx_frame d) 0x10000) (vw_fresh 8 B)"
    using vq_inv_bytes [OF demo_vnet_queue(1) separate_bytes_same] by (simp add: demo_rx_frame_def bs_def)
  have "read_bytes (write_bytes 0x50000 bs (mem demo_vnet)) (0x50000 + of_nat 10) 6 = take 6 (drop 10 bs)"
      "read_bytes (write_bytes 0x50000 bs (mem demo_vnet)) (0x50000 + of_nat 22) 2 = take 2 (drop 22 bs)"
    by (rule read_write_within; simp add: l)+
  then show "read_bytes (mem (demo_rx_frame d)) 0x5000a 6 = replicate 6 d" "read_bytes (mem (demo_rx_frame d)) 0x50016 2 = [8, 6]"
    by (simp_all add: demo_rx_frame_def bs_def)
qed

lemma demo_rx_frame_fields:
  "vn_addr (demo_rx_frame d) = [8, 0, 0x27, 1, 2, 3]" "rx_q (demo_rx_frame d) = 0x10000" "num_rx_buffers (demo_rx_frame d) = 15"
  "skb_free_func_addr (demo_rx_frame d) = 0x7800" "skb_store (demo_rx_frame d) q = sockbuf_zero_copy 0x50000 1524 0x7800 0x7400"
  "vn_rx_handlers (demo_rx_frame d) = [(ETHERTYPE_ARP, 0x7500, 0x7600), (ETHERTYPE_UNKNOWN, NULL, NULL)]"
  "holds_rx_buffer (sockbuf_zero_copy 0x50000 1524 0x7800 0x7400) 0x50000 1524 (demo_rx_frame d)"
  by (simp_all add: demo_rx_frame_def demo_vnet_fields holds_rx_buffer_def sockbuf_zero_copy_def RX_QUEUE_SIZE_def)

theorem rx_foreign_frame_recycled_witness:
  "\<exists>s'. rx_packet (\<lambda>_ _ _ _. None) 0x60000 (demo_rx_frame 2) = Some s' \<and> num_rx_buffers s' = 16 \<and>
    vq_inv 8 (mem s') (vqs s' (rx_q s')) (vw_send (rx_buf 0x50000 1524) (vw_fresh 8 (\<lambda>_. undefined)))"
proof -
  have r: "replicate 6 (2 :: u8) \<noteq> [8, 0, 0x27, 1, 2, 3]" by code_simp
  have "\<exists>s'. rx_packet (\<lambda>_ _ _ _. None) 0x60000 (demo_rx_frame 2) = Some s' \<and>
      vq_inv 8 (mem s') (vqs s' (rx_q s')) (vw_send (rx_buf 0x50000 1524) (vw_fresh 8 (\<lambda>_. undefined))) \<and>
      num_rx_buffers s' = num_rx_buffers (demo_rx_frame 2) + 1 \<and> freed s' = freed (demo_rx_frame 2) @ [Free 0x60000]"
  proof (rule rx_foreign_frame_recycled [where this = "0x7400"])
    show "vw_free (vw_fresh 8 (\<lambda>_. undefined)) \<noteq> []" by (simp add: vw_fresh_def)
  qed (simp_all add: demo_rx_frame_fields demo_rx_frame_state r)
  then show ?thesis by (auto simp: demo_rx_frame_fields)
qed


text \<open>A state in which the device has returned one receive buffer.\<close>

lemma demo_returned:
  obtains s :: vnet_state and v where "vq_inv 8 (mem s) (vqs s 0x10000) v" "vw_used v = [0]" "vw_buf v 0 = rx_buf 0x50000 1524"
    "vq_irq_handler (vqs s 0x10000) = 0x7300" "rx_ready 0x7300 0x7800 0x7400 1 s" "queued_skbs s = []"
proof -
  define v1 where "v1 = vw_fresh 8 (\<lambda>_. undefined)"
  have g: "vq_good 8 0x10000 0x7300 (vq_irq_handler_ctx (vqs demo_vnet 0x10000)) (demo_vnet, v1)"
    using demo_vnet_queue by (simp add: vq_good_def v1_def)
  have nv: "vw_free v1 \<noteq> []" by (simp add: v1_def vw_fresh_def)
  have I1: "vq_inv 8 (mem demo_vnet) (vqs demo_vnet 0x10000) v1" using demo_vnet_queue by (simp add: v1_def)
  obtain r s2 v2 where "virtq_send_buffer net_ops demo_vdev 0x10000 0x50000 (ucast (1524 :: u64)) True NULL demo_vnet = Some (r, s2)" "r = E_OK"
    by (rule virtq_send_total [OF I1, of net_ops demo_vdev "0x50000" "ucast (1524 :: u64)" True NULL]) (use nv in simp_all)
  then have s2: "virtq_send_buffer net_ops demo_vdev 0x10000 0x50000 (ucast (1524 :: u64)) True NULL demo_vnet = Some (E_OK, s2)" by simp
  define v2 where "v2 = vw_send (rx_buf 0x50000 1524) v1"
  have g2: "vq_good 8 0x10000 0x7300 (vq_irq_handler_ctx (vqs demo_vnet 0x10000)) (s2, v2)" unfolding v2_def by (rule virtq_send_good [OF g s2])
  have v2: "vw_avail v2 = [0]" "vw_dev v2 = []" "vw_used v2 = []" "vw_buf v2 0 = rx_buf 0x50000 1524"
    by (simp_all add: v2_def v1_def vw_send_def vw_fresh_def upt_rec)
  define q where "q = vqs s2 0x10000"
  have I2: "vq_inv 8 (mem s2) q v2" using g2 by (simp add: vq_good_def q_def)
  have "load16 (mem s2) (avail_ring_hdr q + 2) \<noteq> vw_seen v2" using I2 v2(1) by (simp add: vq_inv_def vq_rings_def)
  note f = vw_fetch_inv [OF I2 this]
  define v3 where "v3 = vw_fetch 0 v2"
  have I3: "vq_inv 8 (mem s2) q v3" using f v2(1) by (auto simp: v3_def)
  define s4 where "s4 = s2\<lparr>mem := dev_return 8 q 0 64 (mem s2)\<rparr>"
  define v4 where "v4 = vw_return 0 v3"
  have "vq_inv 8 (mem s4) (vqs s4 0x10000) v4"
    using vw_return_inv [OF I3, of 0 64] by (simp add: s4_def q_def v4_def v3_def vw_fetch_def)
  moreover have "vw_used v4 = [0]" "vw_buf v4 0 = rx_buf 0x50000 1524" using v2 by (simp_all add: v4_def vw_return_def v3_def vw_fetch_def)
  moreover have "vq_irq_handler (vqs s4 0x10000) = 0x7300" using g2 by (simp add: vq_good_def s4_def)
  moreover have st: "rx_packet_queue s4 = msgq_new 16 8" "rx_handler_addr s4 = 0x7300" "tx_completion_addr s4 = 0x7900" "skb_free_func_addr s4 = 0x7800"
      "vn_this s4 = 0x7400" "skb_new_result s4 = (\<lambda>n. 0x60000 + of_nat n * 0x100)" "skb_new_calls s4 = 0"
    using virtq_send_buffer_fields [OF s2] by (auto simp: s4_def demo_vnet_def dev_state.defs RX_QUEUE_SIZE_def)
  moreover have "msgq_rep (msgq_new 16 8) []" by (simp add: msgq_rep_def msgq_new_def semaphore_new_def waitq_new_def)
  ultimately show ?thesis
    by (intro that [of s4 v4]) (auto simp: rx_ready_def new_skbs_def queued_skbs_def queued_ptrs_rep msgq_new_def intro!: exI [of _ "[]"])
qed


end
