(* ===== verification/Virtio_Devices.thy ===== *)
theory Virtio_Devices
  imports Virtio
begin

text \<open>
  The virtio block device and the virtio console: dev/virtio_blk.cpp, dev/virtio_console.cpp and their headers.

  Each object is an extension of the device state. The console has no completion handlers; that of the block device does nothing yet.
\<close>

subsection \<open>Block device\<close>

record vblk_state = dev_state +
  vb_dev :: virtio_dev
  request_q :: ptr
  vb_this :: ptr
  request_completion_addr :: ptr

definition VIRTIO_BLK_F_SEG_MAX :: nat where "VIRTIO_BLK_F_SEG_MAX = 2"
definition VIRTIO_BLK_F_GEOMETRY :: nat where "VIRTIO_BLK_F_GEOMETRY = 4"
definition VIRTIO_BLK_F_BLK_SIZE :: nat where "VIRTIO_BLK_F_BLK_SIZE = 6"
definition VIRTIO_BLK_F_FLUSH :: nat where "VIRTIO_BLK_F_FLUSH = 9"
definition VIRTIO_BLK_F_TOPOLOGY :: nat where "VIRTIO_BLK_F_TOPOLOGY = 10"

definition capacity1 :: u16 where "capacity1 = 0x18"
definition capacity2 :: u16 where "capacity2 = 0x1c"
definition size_max :: u16 where "size_max = 0x20"
definition seg_max :: u16 where "seg_max = 0x24"
definition geometry :: u16 where "geometry = 0x28"
definition blk_size :: u16 where "blk_size = 0x2c"

definition is_virtio_blk_device :: "pci_dev option \<Rightarrow> bool" where
  "is_virtio_blk_device p = (case p of None \<Rightarrow> False | Some p \<Rightarrow> vendor_id p = 0x1af4 \<and> device_id p = 0x1001)"

definition blk_read_reg :: "pci_dev \<Rightarrow> u16 \<Rightarrow> 'z hw_scheme \<Rightarrow> u32 \<times> 'z hw_scheme" where
  "blk_read_reg p reg h =
     (if reg \<in> {capacity1, capacity2, size_max, seg_max, geometry, blk_size} then arch_io_read32 (reg_port p reg) h
      else virtio_read_reg p reg h)"

definition blk_write_reg :: "pci_dev \<Rightarrow> u16 \<Rightarrow> u32 \<Rightarrow> 'z hw_scheme \<Rightarrow> 'z hw_scheme" where
  "blk_write_reg p reg v h =
     (if reg \<in> {capacity1, capacity2, size_max, seg_max, geometry, blk_size} then arch_io_write32 (reg_port p reg) v h
      else virtio_write_reg p reg v h)"

definition blk_negotiate_features :: "u32 \<Rightarrow> u32" where
  "blk_negotiate_features feats =
     (let feats = virtio_negotiate_features feats;
          supported_features = push_bit VIRTIO_BLK_F_SEG_MAX 1 OR push_bit VIRTIO_BLK_F_TOPOLOGY 1 OR push_bit VIRTIO_BLK_F_BLK_SIZE 1 OR
            push_bit VIRTIO_BLK_F_GEOMETRY 1 OR push_bit VIRTIO_BLK_F_FLUSH 1
      in (feats AND 0xFF000000) OR (feats AND supported_features))"

definition blk_ops :: virtio_ops where
  "blk_ops = \<lparr>op_read_reg = blk_read_reg, op_write_reg = blk_write_reg, op_negotiate = blk_negotiate_features\<rparr>"

definition virtio_blk_new :: "pci_dev \<Rightarrow> 'z vblk_state_scheme \<Rightarrow> 'z vblk_state_scheme" where
  "virtio_blk_new pdev s =
     (let (d, s) = begin_init blk_ops ((vb_dev s)\<lparr>vd_pci := pdev\<rparr>) s;
          s = s\<lparr>vb_dev := d\<rparr>;
          (_, q, s) = virtq_create blk_ops d 0 (request_completion_addr s) (vb_this s) s;
          s = (case q of Some p_vq \<Rightarrow> s\<lparr>request_q := p_vq\<rparr> | None \<Rightarrow> s)
      in init_finished blk_ops (vb_dev s) s)"

definition virtio_blk_destroy :: "'z vblk_state_scheme \<Rightarrow> 'z vblk_state_scheme" where
  "virtio_blk_destroy s = (if request_q s \<noteq> NULL then snd (virtq_destroy blk_ops (vb_dev s) (request_q s) s) else s)"

definition handle_request_completion :: "ptr \<Rightarrow> ptr \<Rightarrow> u64 \<Rightarrow> 'z vblk_state_scheme \<Rightarrow> 'z vblk_state_scheme" where
  "handle_request_completion data_ctx data n s = s"

definition blk_call :: "ptr \<Rightarrow> ptr \<Rightarrow> ptr \<Rightarrow> ptr \<Rightarrow> u64 \<Rightarrow> 'z vblk_state_scheme \<Rightarrow> 'z vblk_state_scheme option" where
  "blk_call fn hctx data_ctx data n s =
     (if fn = request_completion_addr s then Some (handle_request_completion data_ctx data n s) else None)"

definition blk_capacity :: "u32 \<Rightarrow> u32 \<Rightarrow> u64" where
  "blk_capacity cap_low cap_high = (ucast cap_low OR push_bit 32 (ucast cap_high)) * 512"

text \<open>The result of \<open>print_info\<close> is the capacity it prints.\<close>

definition blk_print_info :: "'z vblk_state_scheme \<Rightarrow> (u64 \<times> 'z vblk_state_scheme) option" where
  "blk_print_info s = do {
     s \<leftarrow> virtio_print_info blk_ops (vb_dev s) s;
     let (cap_low, s) = dev_read_reg blk_ops (vb_dev s) capacity1 s;
     let (cap_high, s) = dev_read_reg blk_ops (vb_dev s) capacity2 s;
     Some (blk_capacity cap_low cap_high, s)
   }"

subsection \<open>Console\<close>

record vcon_state = dev_state +
  vc_dev :: virtio_dev
  con_tx_q :: ptr
  con_rx_q :: ptr

definition VIRTIO_CONSOLE_F_MULTIPORT :: nat where "VIRTIO_CONSOLE_F_MULTIPORT = 1"
definition VIRTIO_CONSOLE_F_EMERG_WRITE :: nat where "VIRTIO_CONSOLE_F_EMERG_WRITE = 2"

definition console_cols :: u16 where "console_cols = 0x18"
definition console_rows :: u16 where "console_rows = 0x1a"
definition console_max_nr_ports :: u16 where "console_max_nr_ports = 0x1c"
definition console_emerg_write :: u16 where "console_emerg_write = 0x20"

definition is_virtio_console_device :: "pci_dev option \<Rightarrow> bool" where
  "is_virtio_console_device p = (case p of None \<Rightarrow> False | Some p \<Rightarrow> vendor_id p = 0x1af4 \<and> device_id p = 0x1003)"

definition con_read_reg :: "pci_dev \<Rightarrow> u16 \<Rightarrow> 'z hw_scheme \<Rightarrow> u32 \<times> 'z hw_scheme" where
  "con_read_reg p reg h =
     (if reg \<in> {console_cols, console_rows} then let (v, h) = arch_io_read16 (reg_port p reg) h in (ucast v, h)
      else if reg \<in> {console_max_nr_ports, console_emerg_write} then arch_io_read32 (reg_port p reg) h
      else virtio_read_reg p reg h)"

definition con_write_reg :: "pci_dev \<Rightarrow> u16 \<Rightarrow> u32 \<Rightarrow> 'z hw_scheme \<Rightarrow> 'z hw_scheme" where
  "con_write_reg p reg v h =
     (if reg \<in> {console_cols, console_rows} then arch_io_write16 (reg_port p reg) (ucast v) h
      else if reg \<in> {console_max_nr_ports, console_emerg_write} then arch_io_write32 (reg_port p reg) v h
      else virtio_write_reg p reg v h)"

definition con_negotiate_features :: "u32 \<Rightarrow> u32" where
  "con_negotiate_features feats =
     (let supported_features = push_bit VIRTIO_CONSOLE_F_MULTIPORT 1 OR push_bit VIRTIO_CONSOLE_F_EMERG_WRITE 1
      in (feats AND 0xFF000000) OR (feats AND supported_features))"

definition con_ops :: virtio_ops where
  "con_ops = \<lparr>op_read_reg = con_read_reg, op_write_reg = con_write_reg, op_negotiate = con_negotiate_features\<rparr>"

definition virtio_console_new :: "pci_dev \<Rightarrow> 'z vcon_state_scheme \<Rightarrow> 'z vcon_state_scheme" where
  "virtio_console_new pdev s =
     (let (d, s) = begin_init con_ops ((vc_dev s)\<lparr>vd_pci := pdev\<rparr>) s;
          s = s\<lparr>vc_dev := d\<rparr>;
          (_, q, s) = virtq_create con_ops d 1 NULL NULL s;
          s = (case q of Some p_vq \<Rightarrow> s\<lparr>con_tx_q := p_vq\<rparr> | None \<Rightarrow> s);
          (_, q, s) = virtq_create con_ops d 0 NULL NULL s;
          s = (case q of Some p_vq \<Rightarrow> s\<lparr>con_rx_q := p_vq\<rparr> | None \<Rightarrow> s)
      in init_finished con_ops (vc_dev s) s)"

definition virtio_console_destroy :: "'z vcon_state_scheme \<Rightarrow> 'z vcon_state_scheme" where
  "virtio_console_destroy s =
     (let s = (if con_tx_q s \<noteq> NULL then snd (virtq_destroy con_ops (vc_dev s) (con_tx_q s) s) else s)
      in if con_rx_q s \<noteq> NULL then snd (virtq_destroy con_ops (vc_dev s) (con_rx_q s) s) else s)"

definition virtio_console_write :: "ptr \<Rightarrow> u64 \<Rightarrow> 'z vcon_state_scheme \<Rightarrow> (u64 \<times> 'z vcon_state_scheme) option" where
  "virtio_console_write data n s = do {
     (_, s) \<leftarrow> virtq_send_buffer con_ops (vc_dev s) (con_tx_q s) data (ucast n) False NULL s;
     Some (n, s)
   }"

subsection \<open>Properties\<close>

text \<open>
  The block device never accepts \<open>VIRTIO_F_EVENT_IDX\<close>; the console, which does not call the base class, accepts it whenever the
  device offers it.
\<close>

lemma high_features_bit: "bit (0xFF000000 :: u32) k = (24 \<le> k \<and> k < 32)"
proof -
  have "(0xFF000000 :: u32) = push_bit 24 (mask 8)" by (simp add: mask_eq_exp_minus_1)
  then show ?thesis by (simp only: bit_push_bit_iff bit_mask_iff) auto
qed

lemma device_features_event_idx:
  "\<not> bit (blk_negotiate_features feats) VIRTIO_F_EVENT_IDX"
  "bit (con_negotiate_features feats) VIRTIO_F_EVENT_IDX = bit feats VIRTIO_F_EVENT_IDX"
proof -
  have "\<not> bit (virtio_negotiate_features feats) 29"
    unfolding virtio_negotiate_features_def VIRTIO_F_EVENT_IDX_def by (simp only: bit_and_iff bit_not_iff bit_push_bit_iff bit_1_iff) simp
  then show "\<not> bit (blk_negotiate_features feats) VIRTIO_F_EVENT_IDX"
    unfolding blk_negotiate_features_def Let_def VIRTIO_F_EVENT_IDX_def by (simp only: bit_or_iff bit_and_iff) simp
  show "bit (con_negotiate_features feats) VIRTIO_F_EVENT_IDX = bit feats VIRTIO_F_EVENT_IDX"
    unfolding con_negotiate_features_def Let_def VIRTIO_F_EVENT_IDX_def VIRTIO_CONSOLE_F_MULTIPORT_def VIRTIO_CONSOLE_F_EMERG_WRITE_def
    by (simp only: bit_or_iff bit_and_iff bit_push_bit_iff high_features_bit bit_1_iff) simp
qed

text \<open>The completion interrupt of the block device returns and gives every descriptor back.\<close>

interpretation blk: vq_client blk_call fn hctx p "\<lambda>k s. request_completion_addr s = fn" "\<lambda>_. []" "\<lambda>_ _ _. []"
  for fn hctx p
  by unfold_locales (simp_all add: blk_call_def handle_request_completion_def)

lemma blk_irq_completes:
  assumes "vq_inv n (mem s) (vqs s p) v" "vq_irq_handler (vqs s p) = request_completion_addr s" "request_completion_addr s \<noteq> NULL"
  shows "\<exists>s'. handle_vq_irq blk_call p s = Some s' \<and>
    vq_inv n (mem s') (vqs s' p) (v\<lparr>vw_used := [], vw_free := rev (vw_used v) @ vw_free v\<rparr>)"
  using blk.handle_vq_irq_returns [OF assms(1,3,2) refl] by auto

text \<open>
  The constructor of the block device: when the device offers a queue, the memory for it is there, and the queue is created with the
  handler of the device and all its descriptors free. \<open>s1\<close> is the state after the handshake of \<open>begin_init\<close>.
\<close>

lemma init_finished_state: "\<exists>h. init_finished ops d s = s\<lparr>irqs := h\<rparr>"
  by (auto simp: init_finished_def dev_read_reg_def dev_write_reg_def Let_def split: prod.split)

lemma virtio_blk_new_ready:
  assumes "begin_init blk_ops ((vb_dev s)\<lparr>vd_pci := pdev\<rparr>) s = (d, s1)"
    and "fst (dev_read_reg blk_ops d queue_size (dev_write_reg blk_ops d queue_select (ucast (0 :: u16)) (s1\<lparr>vb_dev := d\<rparr>))) = w"
    and "n = unat (ucast w :: u16)" "0 < n" "n dvd 2 ^ 16"
    and "p = alloc_result s1 (alloc_calls s1)" "a = alloc_result s1 (Suc (alloc_calls s1))" "p \<noteq> NULL" "a \<noteq> NULL"
    and "separate (msix_table (vd_pci d)) (16 * unat (msix_table_size (vd_pci d))) a (ctx_off n + 8 * n + 4095)"
  shows "request_q (virtio_blk_new pdev s) = p"
    and "vq_inv n (mem (virtio_blk_new pdev s)) (vqs (virtio_blk_new pdev s) p) (vw_fresh n B)"
    and "vq_irq_handler (vqs (virtio_blk_new pdev s) p) = request_completion_addr s1"
proof -
  obtain s2 where s2: "virtq_create blk_ops d 0 (request_completion_addr s1) (vb_this s1) (s1\<lparr>vb_dev := d\<rparr>) = (E_OK, Some p, s2)"
      "vq_inv n (mem s2) (vqs s2 p) (vw_fresh n B)" "vq_irq_handler (vqs s2 p) = request_completion_addr s1"
    by (rule virtq_create_ok [OF assms(2-5), of p a]) (use assms in simp_all)
  obtain h where h: "init_finished blk_ops (vb_dev s2) (s2\<lparr>request_q := p\<rparr>) = s2\<lparr>request_q := p, irqs := h\<rparr>"
    using init_finished_state by fastforce
  have "virtio_blk_new pdev s = s2\<lparr>request_q := p, irqs := h\<rparr>"
    by (simp add: virtio_blk_new_def assms(1) s2(1) h)
  then show "request_q (virtio_blk_new pdev s) = p"
      "vq_inv n (mem (virtio_blk_new pdev s)) (vqs (virtio_blk_new pdev s) p) (vw_fresh n B)"
      "vq_irq_handler (vqs (virtio_blk_new pdev s) p) = request_completion_addr s1"
    using s2(2,3) by simp_all
qed

text \<open>The console reports every write as complete, also when no descriptor is free and nothing is sent.\<close>

lemma console_write_reports_all:
  assumes "vq_inv k (mem s) (vqs s (con_tx_q s)) v" "con_tx_q s \<noteq> NULL" "vw_free v = []"
  shows "virtio_console_write data n s = Some (n, s)"
  using virtq_send_buffer_full [OF assms(1,3), of con_ops "vc_dev s" data "ucast n" False NULL] assms(2,3)
  by (auto simp: virtio_console_write_def virtq_send_buffer_def)

end
