(* ===== verification/Acpi.thy ===== *)
theory Acpi
  imports Otrix_Prelude
begin

text \<open>
  ACPI tables: dev/acpi.cpp. The tables are bytes of the memory; the fields of the packed structures are read at their offsets.
  \<open>acpi_context\<close> is the storage the parser fills. The messages it prints are left out. \<open>None\<close> is a loop that does not end.
\<close>

subsection \<open>Tables\<close>

definition ACPI_BIOS_AREA_START :: ptr where "ACPI_BIOS_AREA_START = 0x000E0000"
definition ACPI_BIOS_AREA_END :: ptr where "ACPI_BIOS_AREA_END = 0x000FFFFF"

definition rsdp_signature :: "u8 list" where "rsdp_signature = [0x52, 0x53, 0x44, 0x20, 0x50, 0x54, 0x52]"
definition rsdt_signature :: "u8 list" where "rsdt_signature = [0x52, 0x53, 0x44, 0x54]"
definition madt_signature :: "u8 list" where "madt_signature = [0x41, 0x50, 0x49, 0x43]"

definition rsdp_revision :: "memory \<Rightarrow> ptr \<Rightarrow> u8" where "rsdp_revision m p = m (p + 15)"
definition rsdp_rsdt_addr :: "memory \<Rightarrow> ptr \<Rightarrow> u32" where "rsdp_rsdt_addr m p = load32 m (p + 16)"
definition rsdp_xsdt_addr :: "memory \<Rightarrow> ptr \<Rightarrow> u64" where "rsdp_xsdt_addr m p = load64 m (p + 24)"

definition ACPI_SDT_HDR_SIZE :: nat where "ACPI_SDT_HDR_SIZE = 36"
definition ACPI_MADT_SIZE :: nat where "ACPI_MADT_SIZE = 44"
definition sdt_length :: "memory \<Rightarrow> ptr \<Rightarrow> u32" where "sdt_length m p = load32 m (p + 4)"
definition sdt_signature :: "memory \<Rightarrow> ptr \<Rightarrow> u8 list" where "sdt_signature m p = read_bytes m p 4"
definition sdt_pointers :: "memory \<Rightarrow> ptr \<Rightarrow> nat \<Rightarrow> u32" where "sdt_pointers m p i = load32 m (p + of_nat (36 + 4 * i))"
definition madt_local_apic_address :: "memory \<Rightarrow> ptr \<Rightarrow> u32" where "madt_local_apic_address m p = load32 m (p + 36)"

definition ACPI_MADT_IOAPIC :: u8 where "ACPI_MADT_IOAPIC = 1"
definition ACPI_MADT_LAPIC_OVERRIDE :: u8 where "ACPI_MADT_LAPIC_OVERRIDE = 5"

record acpi_context =
  ioapic_base :: ptr
  ioapic_id :: u8
  lapic_base :: ptr

subsection \<open>Parsing\<close>

definition acpi_validate_checksum :: "memory \<Rightarrow> ptr \<Rightarrow> kerror_t" where
  "acpi_validate_checksum m sdt =
     (let checksum = fold (\<lambda>b c. c + b) (read_bytes m sdt (unat (sdt_length m sdt))) 0
      in if checksum = 0 then E_OK else E_INVAL)"

definition acpi_madt_parse_ioapic :: "memory \<Rightarrow> ptr \<Rightarrow> acpi_context \<Rightarrow> acpi_context" where
  "acpi_madt_parse_ioapic m ioapic c = c\<lparr>ioapic_base := ucast (load32 m (ioapic + 4)), ioapic_id := m (ioapic + 2)\<rparr>"

partial_function (option) acpi_madt_loop :: "memory \<Rightarrow> ptr \<Rightarrow> u32 \<Rightarrow> acpi_context \<Rightarrow> acpi_context option" where
  "acpi_madt_loop m entry len c =
     (if len > 0 then
        let hdr = entry;
            entry = entry + ucast (m (hdr + 1));
            len = len - ucast (m (hdr + 1));
            c = (if m hdr = ACPI_MADT_LAPIC_OVERRIDE then c\<lparr>lapic_base := load64 m (hdr + 4)\<rparr>
              else if m hdr = ACPI_MADT_IOAPIC then acpi_madt_parse_ioapic m hdr c
              else c)
        in acpi_madt_loop m entry len c
      else Some c)"

definition acpi_parse_madt :: "memory \<Rightarrow> ptr \<Rightarrow> acpi_context \<Rightarrow> (kerror_t \<times> acpi_context) option" where
  "acpi_parse_madt m madt c = do {
     let entry = madt + of_nat ACPI_MADT_SIZE;
     let len = sdt_length m madt - of_nat ACPI_MADT_SIZE;
     let c = c\<lparr>lapic_base := ucast (madt_local_apic_address m madt)\<rparr>;
     c \<leftarrow> acpi_madt_loop m entry len c;
     Some (E_OK, c)
   }"

definition acpi_parse_sdt_entry :: "memory \<Rightarrow> u64 \<Rightarrow> acpi_context \<Rightarrow> (kerror_t \<times> acpi_context) option" where
  "acpi_parse_sdt_entry m addr c =
     (if acpi_validate_checksum m addr \<noteq> E_OK then Some (E_INVAL, c)
      else if sdt_signature m addr = madt_signature then acpi_parse_madt m addr c
      else Some (E_OK, c))"

fun acpi_rsdt_loop :: "memory \<Rightarrow> u32 list \<Rightarrow> acpi_context \<Rightarrow> (kerror_t \<times> acpi_context) option" where
  "acpi_rsdt_loop m [] c = Some (E_OK, c)"
| "acpi_rsdt_loop m (p # ps) c = do {
     (ret, c) \<leftarrow> acpi_parse_sdt_entry m (ucast p) c;
     if ret \<noteq> E_OK then Some (ret, c) else acpi_rsdt_loop m ps c
   }"

text \<open>The number of entries is computed as a \<open>size_t\<close> and stored in an \<open>int\<close>.\<close>

definition acpi_num_entries :: "memory \<Rightarrow> ptr \<Rightarrow> int" where
  "acpi_num_entries m rsdt = sint (ucast ((ucast (sdt_length m rsdt) - of_nat ACPI_SDT_HDR_SIZE :: u64) div 4) :: u32)"

definition acpi_parse_rsdt :: "memory \<Rightarrow> ptr \<Rightarrow> acpi_context \<Rightarrow> (kerror_t \<times> acpi_context) option" where
  "acpi_parse_rsdt m rsdt c =
     (if acpi_validate_checksum m rsdt \<noteq> E_OK then Some (E_INVAL, c)
      else if sdt_signature m rsdt \<noteq> rsdt_signature then Some (E_INVAL, c)
      else acpi_rsdt_loop m (map (sdt_pointers m rsdt) [0..<nat (acpi_num_entries m rsdt)]) c)"

partial_function (option) acpi_scan :: "memory \<Rightarrow> ptr \<Rightarrow> acpi_context \<Rightarrow> (kerror_t \<times> acpi_context) option" where
  "acpi_scan m p c =
     (if p \<noteq> ACPI_BIOS_AREA_END then
        if read_bytes m p 7 \<noteq> rsdp_signature then acpi_scan m (p + 8) c
        else if rsdp_revision m p = 0 then acpi_parse_rsdt m (ucast (rsdp_rsdt_addr m p)) c
        else acpi_parse_rsdt m (rsdp_xsdt_addr m p) c
      else Some (E_NODEV, c))"

definition acpi_init :: "memory \<Rightarrow> acpi_context \<Rightarrow> (kerror_t \<times> acpi_context) option" where
  "acpi_init m c = acpi_scan m ACPI_BIOS_AREA_START c"

definition acpi_get_io_apic :: "acpi_context \<Rightarrow> ptr" where "acpi_get_io_apic c = ioapic_base c"

definition acpi_get_lapic_addr :: "acpi_context \<Rightarrow> ptr" where "acpi_get_lapic_addr c = lapic_base c"

subsection \<open>The entries of an APIC table\<close>

text \<open>Entries as values, their bytes, and what each of them means for the parser.\<close>

datatype madt_entry =
    Ioapic u8 u32 u32
  | Lapic_override u64
  | Other_entry u8 "u8 list"

fun madt_bytes :: "madt_entry \<Rightarrow> u8 list" where
  "madt_bytes (Ioapic i base gsi) = [1, 12, i, 0] @ le_bytes 4 base @ le_bytes 4 gsi"
| "madt_bytes (Lapic_override a) = [5, 12, 0, 0] @ le_bytes 8 a"
| "madt_bytes (Other_entry t bs) = [t, of_nat (2 + length bs)] @ bs"

fun madt_entry_ok :: "madt_entry \<Rightarrow> bool" where
  "madt_entry_ok (Other_entry t bs) \<longleftrightarrow> t \<notin> {1, 5} \<and> length bs < 254"
| "madt_entry_ok _ \<longleftrightarrow> True"

fun madt_effect :: "madt_entry \<Rightarrow> acpi_context \<Rightarrow> acpi_context" where
  "madt_effect (Ioapic i base gsi) c = c\<lparr>ioapic_base := ucast base, ioapic_id := i\<rparr>"
| "madt_effect (Lapic_override a) c = c\<lparr>lapic_base := a\<rparr>"
| "madt_effect (Other_entry t bs) c = c"

lemma madt_bytes_length: "madt_entry_ok e \<Longrightarrow> 2 \<le> length (madt_bytes e) \<and> length (madt_bytes e) < 256 \<and> madt_bytes e ! 1 = of_nat (length (madt_bytes e))"
  by (cases e) auto

lemma madt_entry_step:
  assumes "read_bytes m p (length (madt_bytes e)) = madt_bytes e" "madt_entry_ok e"
  shows "(if m p = ACPI_MADT_LAPIC_OVERRIDE then c\<lparr>lapic_base := load64 m (p + 4)\<rparr>
    else if m p = ACPI_MADT_IOAPIC then acpi_madt_parse_ioapic m p c else c) = madt_effect e c"
    and "m (p + 1) = of_nat (length (madt_bytes e))"
proof -
  note at = read_bytes_at [OF assms(1)] and part = read_bytes_part [OF assms(1)]
  note l = madt_bytes_length [OF assms(2)]
  have "madt_bytes e \<noteq> []" using l by auto
  then have h: "m p = madt_bytes e ! 0" "m (p + 1) = madt_bytes e ! 1" using at [of 0] at [of 1] l by simp_all
  then show "m (p + 1) = of_nat (length (madt_bytes e))" using l by simp
  show "(if m p = ACPI_MADT_LAPIC_OVERRIDE then c\<lparr>lapic_base := load64 m (p + 4)\<rparr>
      else if m p = ACPI_MADT_IOAPIC then acpi_madt_parse_ioapic m p c else c) = madt_effect e c"
  proof (cases e)
    case (Ioapic i base gsi)
    then have "m (p + 2) = i" "load32 m (p + 4) = base" using at [of 2] part [of 4 4] by (simp_all add: load32_def le_word_le_bytes)
    then show ?thesis using h(1) Ioapic by (simp add: acpi_madt_parse_ioapic_def ACPI_MADT_IOAPIC_def ACPI_MADT_LAPIC_OVERRIDE_def)
  next
    case (Lapic_override a)
    then have "load64 m (p + 4) = a" using part [of 4 8] by (simp add: load64_def le_word_le_bytes)
    then show ?thesis using h(1) Lapic_override by (simp add: ACPI_MADT_LAPIC_OVERRIDE_def)
  next
    case (Other_entry t bs)
    then show ?thesis using h(1) assms(2) by (simp add: ACPI_MADT_IOAPIC_def ACPI_MADT_LAPIC_OVERRIDE_def)
  qed
qed

lemma acpi_madt_loop_entries:
  assumes "\<forall>e\<in>set es. madt_entry_ok e" "read_bytes m p (length (concat (map madt_bytes es))) = concat (map madt_bytes es)"
    "length (concat (map madt_bytes es)) < 2 ^ 32"
  shows "acpi_madt_loop m p (of_nat (length (concat (map madt_bytes es)))) c = Some (fold madt_effect es c)"
  using assms
proof (induction es arbitrary: p c)
  case Nil
  then show ?case by (simp add: acpi_madt_loop.simps)
next
  case (Cons e es)
  define k where "k = length (madt_bytes e)"
  define r where "r = concat (map madt_bytes es)"
  have ok: "madt_entry_ok e" and all: "concat (map madt_bytes (e # es)) = madt_bytes e @ r" using Cons.prems(1) by (simp_all add: r_def)
  note l = madt_bytes_length [OF ok, folded k_def]
  have rd: "read_bytes m p (k + length r) = madt_bytes e @ r" using Cons.prems(2) unfolding all by (simp add: k_def)
  have e: "read_bytes m p k = madt_bytes e" "read_bytes m (p + of_nat k) (length r) = r"
    using read_bytes_part [OF rd, of 0 k] read_bytes_part [OF rd, of k "length r"] by (simp_all add: k_def)
  note st = madt_entry_step [OF e(1) [unfolded k_def] ok, folded k_def]
  have c8: "ucast (of_nat k :: u8) = (of_nat k :: u64)" "ucast (of_nat k :: u8) = (of_nat k :: u32)"
    using l by (auto simp: word_unat_eq_iff unsigned_ucast_eq unsigned_take_bit_eq unat_of_nat take_bit_nat_eq_self)
  have len: "length (madt_bytes e @ r) = k + length r" by (simp add: k_def)
  have lt: "k + length r < 2 ^ 32" "0 < k" using Cons.prems(3) l unfolding all len by simp_all
  have pos: "(0 :: u32) < of_nat (k + length r)" using lt by (simp add: word_less_nat_alt unat_of_nat take_bit_nat_eq_self del: of_nat_add)
  have "acpi_madt_loop m p (of_nat (k + length r)) c = acpi_madt_loop m (p + of_nat k) (of_nat (length r)) (madt_effect e c)"
    using pos st by (subst acpi_madt_loop.simps) (simp add: c8 Let_def)
  also have "\<dots> = Some (fold madt_effect es (madt_effect e c))"
    unfolding r_def by (rule Cons.IH) (use Cons.prems e(2) lt in \<open>simp_all add: r_def\<close>)
  finally show ?case unfolding all len by simp
qed

lemma acpi_parse_madt_entries:
  assumes "\<forall>e\<in>set es. madt_entry_ok e" "enc = concat (map madt_bytes es)" "read_bytes m (p + 44) (length enc) = enc"
    "sdt_length m p = of_nat (44 + length enc)" "length enc < 2 ^ 31"
  shows "acpi_parse_madt m p c = Some (E_OK, fold madt_effect es (c\<lparr>lapic_base := ucast (madt_local_apic_address m p)\<rparr>))"
proof -
  have "sdt_length m p - of_nat ACPI_MADT_SIZE = of_nat (length enc)" using assms(4) by (simp add: ACPI_MADT_SIZE_def)
  then show ?thesis
    using acpi_madt_loop_entries [of es m "p + 44"] assms by (simp add: acpi_parse_madt_def Let_def ACPI_MADT_SIZE_def)
qed

subsection \<open>Finding the tables\<close>

lemma scan_never_at_end: "ACPI_BIOS_AREA_START + of_nat (8 * j) \<noteq> ACPI_BIOS_AREA_END"
proof
  assume "ACPI_BIOS_AREA_START + of_nat (8 * j) = ACPI_BIOS_AREA_END"
  then have "even (ACPI_BIOS_AREA_START + of_nat (8 * j)) \<longleftrightarrow> even ACPI_BIOS_AREA_END" by simp
  then show False by (simp add: ACPI_BIOS_AREA_START_def ACPI_BIOS_AREA_END_def)
qed

lemma acpi_scan_skip:
  assumes "\<forall>j<k. read_bytes m (ACPI_BIOS_AREA_START + of_nat (8 * j)) 7 \<noteq> rsdp_signature"
  shows "acpi_init m c = acpi_scan m (ACPI_BIOS_AREA_START + of_nat (8 * k)) c"
  using assms
proof (induction k)
  case (Suc k)
  have "acpi_scan m (ACPI_BIOS_AREA_START + of_nat (8 * k)) c = acpi_scan m (ACPI_BIOS_AREA_START + of_nat (8 * k) + 8) c"
    using Suc.prems scan_never_at_end [of k] by (subst acpi_scan.simps) simp
  moreover have "ACPI_BIOS_AREA_START + of_nat (8 * k) + 8 = ACPI_BIOS_AREA_START + of_nat (8 * Suc k)" by simp
  ultimately show ?case using Suc by (metis less_SucI)
qed (simp add: acpi_init_def)

lemma acpi_rsdt_loop_skip:
  assumes "\<forall>q\<in>set ps. acpi_validate_checksum m (ucast q) = E_OK \<and> sdt_signature m (ucast q) \<noteq> madt_signature"
  shows "acpi_rsdt_loop m (ps @ qs) c = acpi_rsdt_loop m qs c"
  using assms by (induction ps) (simp_all add: acpi_parse_sdt_entry_def)

lemma acpi_num_entries_eq:
  assumes "sdt_length m r = of_nat (36 + 4 * n)" "n < 2 ^ 28"
  shows "acpi_num_entries m r = int n"
proof -
  have "(ucast (sdt_length m r) :: u64) = of_nat (36 + 4 * n)"
    unfolding assms(1) word_unat_eq_iff unat_ucast32 using assms(2) by (simp add: unat_of_nat take_bit_nat_eq_self del: of_nat_add of_nat_mult)
  then have "ucast (sdt_length m r) - of_nat ACPI_SDT_HDR_SIZE = (of_nat (4 * n) :: u64)" by (simp add: ACPI_SDT_HDR_SIZE_def)
  moreover have "(of_nat (4 * n) :: u64) div 4 = of_nat n"
    by (rule word_unat_eq_iff [THEN iffD2]) (use assms(2) in \<open>simp add: unat_div unat_of_nat take_bit_nat_eq_self del: of_nat_mult\<close>)
  ultimately have "acpi_num_entries m r = sint (ucast (of_nat n :: u64) :: u32)" by (simp add: acpi_num_entries_def)
  also have "(ucast (of_nat n :: u64) :: u32) = of_nat n"
    unfolding word_unat_eq_iff unsigned_ucast_eq unsigned_take_bit_eq using assms(2) by (simp add: unat_of_nat take_bit_nat_eq_self)
  also have "sint (of_nat n :: u32) = int n"
    using assms(2) by (simp add: signed_of_nat signed_take_bit_int_eq_self)
  finally show ?thesis .
qed


text \<open>
  The scan goes up in steps of eight from an even address and compares with an odd one: without a root pointer it runs over the
  whole address space, for ever, and never reports \<open>E_NODEV\<close>.
\<close>

lemma acpi_scan_finds:
  assumes "acpi_scan m p c = Some y"
  shows "\<forall>j. p = ACPI_BIOS_AREA_START + of_nat (8 * j) \<longrightarrow> (\<exists>i. read_bytes m (ACPI_BIOS_AREA_START + of_nat (8 * i)) 7 = rsdp_signature)"
  using assms
proof (induction rule: acpi_scan.raw_induct [rotated, consumes 1])
  case (1 f m p c y)
  show ?case
  proof (intro allI impI)
    fix j assume p: "p = ACPI_BIOS_AREA_START + of_nat (8 * j)"
    have n: "p + 8 = ACPI_BIOS_AREA_START + of_nat (8 * Suc j)" by (simp add: p)
    show "\<exists>i. read_bytes m (ACPI_BIOS_AREA_START + of_nat (8 * i)) 7 = rsdp_signature"
    proof (cases "read_bytes m p 7 = rsdp_signature")
      case False
      then have "f m (p + 8) c = Some y" using 1(2) scan_never_at_end [of j, folded p] by simp
      from 1(1) [OF this, THEN spec, of "Suc j"] n show ?thesis by blast
    qed (use p in blast)
  qed
qed

lemma acpi_init_without_tables:
  assumes "\<forall>j. read_bytes m (ACPI_BIOS_AREA_START + of_nat (8 * j)) 7 \<noteq> rsdp_signature"
  shows "acpi_init m c = None"
proof (rule ccontr)
  assume "acpi_init m c \<noteq> None"
  then obtain y where "acpi_scan m ACPI_BIOS_AREA_START c = Some y" by (auto simp: acpi_init_def)
  from acpi_scan_finds [OF this, THEN spec, of 0] show False using assms by auto
qed

subsection \<open>An example machine\<close>

definition demo_rsdt :: "u8 list" where
  "demo_rsdt = rsdt_signature @ le_bytes 4 (40 :: u32) @ [1, 0x7a] @ replicate 26 0 @ le_bytes 4 (0x2000 :: u32)"

definition demo_madt :: "u8 list" where
  "demo_madt = madt_signature @ le_bytes 4 (56 :: u32) @ [3, 0xfe] @ replicate 26 0 @ le_bytes 4 (0xfee00000 :: u32) @ le_bytes 4 (1 :: u32) @
     madt_bytes (Ioapic 0 0xfec00000 0)"

definition demo_rsdp :: "u8 list" where
  "demo_rsdp = rsdp_signature @ replicate 9 0 @ le_bytes 4 (0x1000 :: u32)"

definition demo_bios :: memory where
  "demo_bios = write_bytes 0xE0008 demo_rsdp (write_bytes 0x1000 demo_rsdt (write_bytes 0x2000 demo_madt (\<lambda>_. 0)))"

lemma demo_table_length: "length demo_rsdp = 20" "length demo_rsdt = 40" "length demo_madt = 56"
  by (simp_all add: demo_rsdp_def demo_rsdt_def demo_madt_def rsdp_signature_def rsdt_signature_def madt_signature_def)

lemma demo_bios_tables:
  "read_bytes demo_bios 0xE0008 (length demo_rsdp) = demo_rsdp" "read_bytes demo_bios 0x1000 (length demo_rsdt) = demo_rsdt"
  "read_bytes demo_bios 0x2000 (length demo_madt) = demo_madt" "read_bytes demo_bios 0xE0000 7 \<noteq> rsdp_signature"
proof -
  note l = demo_table_length
  show "read_bytes demo_bios 0xE0008 (length demo_rsdp) = demo_rsdp" "read_bytes demo_bios 0x1000 (length demo_rsdt) = demo_rsdt"
      "read_bytes demo_bios 0x2000 (length demo_madt) = demo_madt"
    unfolding demo_bios_def by (simp_all add: read_write_separate read_write_same separate_def l)
  have "read_bytes demo_bios 0xE0000 7 = replicate 7 0"
    unfolding demo_bios_def by (simp add: read_write_separate separate_def l) (simp add: read_bytes_def map_replicate_const)
  moreover have "replicate 7 0 \<noteq> rsdp_signature" by code_simp
  ultimately show "read_bytes demo_bios 0xE0000 7 \<noteq> rsdp_signature" by simp
qed


end
