(* ===== verification/Kmain.thy ===== *)
theory Kmain
  imports Kmem Serial Paging Kvmclock Virtio_Devices
begin

text \<open>
  The start of the kernel: kernel/kmain.cpp, kernel/otrix.cpp, kernel/cpp_stubs.cpp and kernel/newlib_stubs.cpp, over the boot
  information of arch/x86_64/include/arch/multiboot2.h.

  The state of the kernel is that of the block device, the scheduler and the interrupt manager, with the console, the root heap, the
  page tables and the symbols of the linker. The console prints through \<open>with_console\<close>, which works on the part of the state the
  console uses; the texts that \<open>vsnprintf\<close> makes of the messages are a parameter. \<open>None\<close> is a fault or a loop that does not end.
\<close>

subsection \<open>State\<close>

record kernel = vblk_state +
  k_com_port :: serial_dev
  k_inited :: bool
  k_msg :: ptr
  root_heap :: kmem_heap_t
  page_tables :: paging
  multiboot_addr :: u64
  binary_end :: ptr
  k_cpuid :: "u32 \<Rightarrow> u32 \<Rightarrow> u32 \<times> u32 \<times> u32 \<times> u32"
  wall_clock_addr :: ptr
  time_info_addr :: ptr
  timer_irq_addr :: ptr
  timer_name_addr :: ptr
  net_task_addr :: ptr

record kmain_text =
  text_greeting :: "u8 list"
  text_heap :: "u64 \<Rightarrow> ptr \<Rightarrow> u64 \<Rightarrow> u8 list"
  text_no_clock :: "u8 list"

definition with_console :: "(console \<Rightarrow> console option) \<Rightarrow> kernel \<Rightarrow> kernel option" where
  "with_console f k = do {
     let h = irqs k;
     c \<leftarrow> f \<lparr>hw_log = hw_log h, port_value = port_value h, msr_value = msr_value h, rflags = rflags h,
       immediate_com_port = k_com_port k, inited = k_inited k, message_buffer = k_msg k, con_mem = mem k\<rparr>;
     Some (k\<lparr>irqs := h\<lparr>hw_log := hw_log c, rflags := rflags c\<rparr>, k_com_port := immediate_com_port c, k_inited := inited c, mem := con_mem c\<rparr>)
   }"

definition kernel_print :: "u8 list \<Rightarrow> kernel \<Rightarrow> kernel option" where
  "kernel_print bs k = with_console (console_print (Some bs)) k"

subsection \<open>Boot information\<close>

definition MULTIBOOT_TAG_TYPE_END :: u32 where "MULTIBOOT_TAG_TYPE_END = 0"
definition MULTIBOOT_TAG_TYPE_BASIC_MEMINFO :: u32 where "MULTIBOOT_TAG_TYPE_BASIC_MEMINFO = 4"

definition tag_type :: "memory \<Rightarrow> ptr \<Rightarrow> u32" where "tag_type m tag = load32 m tag"
definition tag_size :: "memory \<Rightarrow> ptr \<Rightarrow> u32" where "tag_size m tag = load32 m (tag + 4)"
definition mem_lower :: "memory \<Rightarrow> ptr \<Rightarrow> u32" where "mem_lower m tag = load32 m (tag + 8)"
definition mem_upper :: "memory \<Rightarrow> ptr \<Rightarrow> u32" where "mem_upper m tag = load32 m (tag + 12)"

definition init_heap_at :: "kmain_text \<Rightarrow> ptr \<Rightarrow> kernel \<Rightarrow> kernel option" where
  "init_heap_at txt tag k = do {
     let mem_low_size = (ucast (mem_lower (mem k) tag) :: u64);
     let mem_high_start = binary_end k;
     let mem_high_size_kb = (ucast (mem_upper (mem k) tag) :: u64);
     k \<leftarrow> kernel_print (text_heap txt mem_low_size mem_high_start mem_high_size_kb) k;
     let k = k\<lparr>mem := write_bytes mem_high_start (replicate (unat mem_high_size_kb) 0xa5) (mem k)\<rparr>;
     (h, m) \<leftarrow> kmem_init mem_high_start (mem_high_size_kb * 1024) (mem k);
     Some (k\<lparr>root_heap := h, mem := m\<rparr>)
   }"

partial_function (option) init_heap_loop :: "kmain_text \<Rightarrow> ptr \<Rightarrow> kernel \<Rightarrow> kernel option" where
  "init_heap_loop txt tag k =
     (if tag_type (mem k) tag = MULTIBOOT_TAG_TYPE_END then Some k
      else if tag_type (mem k) tag = MULTIBOOT_TAG_TYPE_BASIC_MEMINFO then init_heap_at txt tag k
      else init_heap_loop txt (tag + ucast ((tag_size (mem k) tag + 7) AND NOT 7)) k)"

definition init_heap :: "kmain_text \<Rightarrow> kernel \<Rightarrow> kernel option" where
  "init_heap txt k = (let addr = multiboot_addr k AND 0xFFFFFFFF in init_heap_loop txt (addr + 8) k)"

subsection \<open>The root heap\<close>

definition heap_alloc :: "u64 \<Rightarrow> kernel \<Rightarrow> (ptr \<times> kernel) option" where
  "heap_alloc sz k = do {
     let (flags, h) = arch_irq_save (irqs k);
     (p, d, m) \<leftarrow> kmem_alloc (root_heap k) sz (mem k);
     Some (p, k\<lparr>root_heap := d, mem := m, irqs := arch_irq_restore flags h\<rparr>)
   }"

definition heap_free :: "ptr \<Rightarrow> kernel \<Rightarrow> kernel option" where
  "heap_free p k = do {
     let (flags, h) = arch_irq_save (irqs k);
     (d, m) \<leftarrow> kmem_free (root_heap k) p (mem k);
     Some (k\<lparr>root_heap := d, mem := m, irqs := arch_irq_restore flags h\<rparr>)
   }"

definition print_free :: "kernel \<Rightarrow> free_line list \<times> kernel" where
  "print_free k =
     (let (flags, h) = arch_irq_save (irqs k)
      in (kmem_print_free (root_heap k) (mem k), k\<lparr>irqs := arch_irq_restore flags h\<rparr>))"

definition operator_new :: "u64 \<Rightarrow> kernel \<Rightarrow> (ptr \<times> kernel) option" where
  "operator_new sz k = heap_alloc sz k"

definition operator_new_array :: "u64 \<Rightarrow> kernel \<Rightarrow> (ptr \<times> kernel) option" where
  "operator_new_array sz k = heap_alloc sz k"

definition operator_delete :: "ptr \<Rightarrow> kernel \<Rightarrow> kernel option" where
  "operator_delete p k = heap_free p k"

definition operator_delete_array :: "ptr \<Rightarrow> kernel \<Rightarrow> kernel option" where
  "operator_delete_array p k = heap_free p k"

definition operator_delete_sized :: "ptr \<Rightarrow> u64 \<Rightarrow> kernel \<Rightarrow> kernel option" where
  "operator_delete_sized p sz k = heap_free p k"

definition operator_delete_array_sized :: "ptr \<Rightarrow> u64 \<Rightarrow> kernel \<Rightarrow> kernel option" where
  "operator_delete_array_sized p sz k = heap_free p k"

subsection \<open>Run-time support\<close>

text \<open>The difference of two pointers into an array of pointers, stored in an \<open>int\<close>.\<close>

definition array_length :: "ptr \<Rightarrow> ptr \<Rightarrow> int" where
  "array_length a_start a_end = sint (word_of_int (sint (a_end - a_start) div 8) :: u32)"

primrec run_array :: "(ptr \<Rightarrow> kernel \<Rightarrow> kernel option) \<Rightarrow> ptr \<Rightarrow> nat list \<Rightarrow> kernel \<Rightarrow> kernel option" where
  "run_array call a_start [] k = Some k"
| "run_array call a_start (i # is) k = do {
     k \<leftarrow> call (load64 (mem k) (a_start + of_nat (8 * i))) k;
     run_array call a_start is k
   }"

definition arch_init_array :: "(ptr \<Rightarrow> kernel \<Rightarrow> kernel option) \<Rightarrow> ptr \<Rightarrow> ptr \<Rightarrow> ptr \<Rightarrow> ptr \<Rightarrow> kernel \<Rightarrow> kernel option" where
  "arch_init_array call preinit_start preinit_end init_start init_end k = do {
     k \<leftarrow> run_array call preinit_start [0..<nat (array_length preinit_start preinit_end)] k;
     run_array call init_start [0..<nat (array_length init_start init_end)] k
   }"

definition cxa_atexit :: "ptr \<Rightarrow> ptr \<Rightarrow> ptr \<Rightarrow> int" where
  "cxa_atexit destructor arg dso = 0"

definition newlib_read :: "int option" where
  "newlib_read = do { kASSERT False; Some 0 }"

definition newlib_close :: "int option" where
  "newlib_close = do { kASSERT False; Some 0 }"

definition newlib_isatty :: "int option" where
  "newlib_isatty = do { kASSERT False; Some 0 }"

definition newlib_lseek :: "int option" where
  "newlib_lseek = do { kASSERT False; Some 0 }"

definition newlib_fstat :: "int option" where
  "newlib_fstat = Some 0"

definition newlib_sbrk :: "int option" where
  "newlib_sbrk = Some 0"

definition newlib_kill :: "int option" where
  "newlib_kill = do { kASSERT False; Some 0 }"

definition newlib_exit :: "int \<Rightarrow> unit option" where
  "newlib_exit arg = kASSERT False"

definition newlib_getpid :: "int option" where
  "newlib_getpid = do { kASSERT False; Some 0 }"

subsection \<open>The start\<close>

definition clock_write :: "clock_event \<Rightarrow> irq_manager \<Rightarrow> irq_manager" where
  "clock_write e h = (case e of Wrmsr r v \<Rightarrow> arch_write_msr r v h)"

text \<open>\<open>kmain\<close> up to its call of \<open>otrix_main\<close>.\<close>

definition kmain :: "kmain_text \<Rightarrow> kernel \<Rightarrow> kernel option" where
  "kmain txt k = do {
     k \<leftarrow> with_console (console_init (text_greeting txt)) k;
     k \<leftarrow> init_heap txt k;
     let k = k\<lparr>page_tables := init_identity_mapping (page_tables k)\<rparr>;
     let k = k\<lparr>irqs := pic_init 32 40 (irqs k)\<rparr>;
     let k = k\<lparr>irqs := pic_disable (irqs k)\<rparr>;
     let k = k\<lparr>irqs := irq_manager_init (irqs k)\<rparr>;
     let k = k\<lparr>irqs := lapic_init 0 (irqs k)\<rparr>;
     let (irq, h) = request_irq (timer_irq_addr k) (timer_name_addr k) NULL (irqs k);
     let k = k\<lparr>irqs := lapic_init_timer (word_of_int irq) h\<rparr>;
     let (clock_ok, evs) = kvmclock_init (k_cpuid k) (wall_clock_addr k) (time_info_addr k);
     let k = k\<lparr>irqs := fold clock_write evs (irqs k)\<rparr>;
     k \<leftarrow> (if \<not> clock_ok then kernel_print (text_no_clock txt) k else Some k);
     Some (k\<lparr>irqs := arch_enable_interrupts (irqs k)\<rparr>)
   }"

definition PCI_DEVICE_VIRTIO_NET :: nat where "PCI_DEVICE_VIRTIO_NET = 0"
definition PCI_DEVICE_VIRTIO_CONSOLE :: nat where "PCI_DEVICE_VIRTIO_CONSOLE = 1"
definition PCI_DEVICE_VIRTIO_BLK :: nat where "PCI_DEVICE_VIRTIO_BLK = 2"

definition pci_dev_list :: "descriptor_t list" where
  "pci_dev_list = [\<lparr>target_device_id = 0x1000, target_vendor_id = 0x1af4, p_dev = None\<rparr>,
     \<lparr>target_device_id = 0x1003, target_vendor_id = 0x1af4, p_dev = None\<rparr>,
     \<lparr>target_device_id = 0x1001, target_vendor_id = 0x1af4, p_dev = None\<rparr>]"

definition net_task_start :: "kernel \<Rightarrow> kernel option" where
  "net_task_start k = do {
     let net_task = net_task_addr k;
     k \<leftarrow> kthread_create net_task 2 k;
     (_, k) \<leftarrow> add_thread net_task k;
     Some k
   }"

text \<open>
  \<open>otrix_main\<close> up to its loop, and a round of the loop. The block device is used without a test, so without one the null pointer
  is followed.
\<close>

definition otrix_main :: "kernel \<Rightarrow> kernel option" where
  "otrix_main k = do {
     (_, devs, h) \<leftarrow> find_devices pci_dev_list (irqs k);
     let k = k\<lparr>irqs := h\<rparr>;
     blk_dev \<leftarrow> p_dev (devs ! PCI_DEVICE_VIRTIO_BLK);
     let k = virtio_blk_new blk_dev k;
     (_, k) \<leftarrow> blk_print_info k;
     net_task_start k
   }"

definition otrix_main_round :: "kernel \<Rightarrow> kernel option" where
  "otrix_main_round k = do {
     (_, k) \<leftarrow> schedule k;
     Some k
   }"

subsection \<open>Printing\<close>

text \<open>The log has grown by events that are no outputs to a port other than \<open>p\<close>.\<close>

definition log_grows :: "u16 \<Rightarrow> hw_event list \<Rightarrow> hw_event list \<Rightarrow> bool" where
  "log_grows p L L' \<longleftrightarrow> (\<exists>M. L' = M @ L) \<and> (\<forall>q. q \<noteq> p \<longrightarrow> outputs q L' = outputs q L)"

lemma log_grows_refl: "log_grows p L L"
  by (simp add: log_grows_def)

lemma log_grows_msr: "log_grows p L L' \<Longrightarrow> log_grows p L (Msr_in r v # L')" "log_grows p L L' \<Longrightarrow> log_grows p L (Msr_out r v # L')"
  by (auto simp: log_grows_def)

lemma log_grows_trans: "log_grows p L L' \<Longrightarrow> log_grows p L' L'' \<Longrightarrow> log_grows p L L''"
  by (auto simp: log_grows_def)

lemma log_grows_set: "log_grows p L L' \<Longrightarrow> e \<in> set L \<Longrightarrow> e \<in> set L'"
  by (auto simp: log_grows_def)

lemma serial_wait_extends:
  assumes "serial_wait r h = Some h'" "r = serial_tx_ready self"
  shows "\<exists>M. hw_log h' = M @ hw_log h"
  using assms
proof (induction rule: serial_wait.raw_induct [rotated, consumes 1, case_names step])
  case (step sw r h h')
  define x where "x = hd (hw_log (snd (serial_tx_ready self h)))"
  have l: "hw_log (snd (serial_tx_ready self h)) = [x] @ hw_log h" by (simp add: serial_tx_ready_parts x_def)
  show ?case
  proof (cases "fst (serial_tx_ready self h)")
    case True
    then have "h' = snd (serial_tx_ready self h)" using step(2,3) by (simp add: split_beta Let_def)
    then show ?thesis using l by blast
  next
    case False
    then have "sw (serial_tx_ready self) (snd (serial_tx_ready self h)) = Some h'" using step(2,3) by (simp add: split_beta Let_def)
    then obtain M where "hw_log h' = M @ [x] @ hw_log h" using step(1) l by metis
    then show ?thesis by (metis append_assoc)
  qed
qed

lemma serial_write_grows:
  assumes "uart_live self h"
  shows "\<exists>L. serial_write self data h = Some (h\<lparr>hw_log := L\<rparr>) \<and> log_grows (serial_reg self SERIAL_DATA) (hw_log h) L"
  using assms
proof (induction data arbitrary: h)
  case Nil
  show ?case by (intro exI [of _ "hw_log h"]) (simp add: log_grows_refl)
next
  case (Cons b data)
  obtain n where n: "ready_within (serial_tx_ready self) n (h\<lparr>hw_log := hw_log h\<rparr>)"
    using Cons.prems unfolding uart_live_def by blast
  define L where "L = hw_log (the (serial_wait (serial_tx_ready self) h))"
  have L: "serial_wait (serial_tx_ready self) h = Some (h\<lparr>hw_log := L\<rparr>)" "outputs q L = outputs q (hw_log h)" for q
    using serial_wait_ready [of self n h q] n by (auto simp: L_def)
  define L1 where "L1 = Io_out 1 (serial_reg self SERIAL_DATA) (ucast b) # L"
  have g: "log_grows (serial_reg self SERIAL_DATA) (hw_log h) L1"
    using serial_wait_extends [OF L(1) refl] L(2) by (auto simp: log_grows_def L1_def)
  have "uart_live self (h\<lparr>hw_log := L1\<rparr>)" using Cons.prems by (simp add: uart_live_def)
  from Cons.IH [OF this] show ?case
    using L(1) log_grows_trans [OF g] by (auto simp: L1_def arch_io_write8_def io_out_def)
qed

lemma kernel_print_state:
  assumes "uart_live (k_com_port k) (irqs k)"
  obtains L where "kernel_print bs k = Some (k\<lparr>irqs := (irqs k)\<lparr>hw_log := L\<rparr>,
      mem := write_bytes (k_msg k) (take (CONSOLE_BUFFER_SIZE - 1) bs @ [0]) (mem k)\<rparr>)"
    "log_grows (serial_reg (k_com_port k) SERIAL_DATA) (hw_log (irqs k)) L"
proof -
  define m where "m = write_bytes (k_msg k) (take (CONSOLE_BUFFER_SIZE - 1) bs @ [0]) (mem k)"
  define d where "d = \<lparr>hw_log = hw_log (irqs k), port_value = port_value (irqs k), msr_value = msr_value (irqs k),
    rflags = rflags (irqs k) AND NOT RFLAGS_IF, immediate_com_port = k_com_port k, inited = k_inited k, message_buffer = k_msg k, con_mem = m\<rparr>"
  define data where "data = read_bytes m (k_msg k) (length bs)"
  have live: "uart_live (k_com_port k) d" using assms uart_live_cong [of d "irqs k"] by (simp add: d_def)
  obtain L where L: "serial_write (k_com_port k) data d = Some (d\<lparr>hw_log := L\<rparr>)" "log_grows (serial_reg (k_com_port k) SERIAL_DATA) (hw_log d) L"
    using serial_write_grows [OF live, of data] by blast
  have "kernel_print bs k = Some (k\<lparr>irqs := (irqs k)\<lparr>hw_log := L\<rparr>, mem := m\<rparr>)"
    using L(1) by (simp add: kernel_print_def with_console_def console_print_def arch_irq_save_def arch_disable_interrupts_def vsnprintf_def
      arch_irq_restore_def d_def data_def m_def Let_def)
  then show ?thesis using that [of L] L(2) unfolding m_def by (simp add: d_def)
qed

abbreviation COM1 :: serial_dev where
  "COM1 \<equiv> \<lparr>baud = SERIAL_BAUD_115200, com_port = SERIAL_COM1\<rparr>"

lemma serial_init_state: "\<exists>L. serial_init b p h = (\<lparr>baud = b, com_port = p\<rparr>, h\<lparr>hw_log := L\<rparr>)"
  by (simp add: serial_init_def serial_set_baud_def arch_io_write8_def arch_io_read8_def io_out_def io_in_def Let_def) (rule exI, rule refl)

lemma console_init_state:
  assumes "\<not> k_inited k" "uart_live COM1 (irqs k)"
  obtains L where "with_console (console_init g) k = Some (k\<lparr>irqs := (irqs k)\<lparr>hw_log := L\<rparr>, k_com_port := COM1, k_inited := True,
      mem := write_bytes (k_msg k) (take (CONSOLE_BUFFER_SIZE - 1) g @ [0]) (mem k)\<rparr>)"
proof -
  define c where "c = \<lparr>hw_log = hw_log (irqs k), port_value = port_value (irqs k), msr_value = msr_value (irqs k),
    rflags = rflags (irqs k), immediate_com_port = k_com_port k, inited = k_inited k, message_buffer = k_msg k, con_mem = mem k\<rparr>"
  obtain L0 where L0: "serial_init SERIAL_BAUD_115200 SERIAL_COM1 c = (COM1, c\<lparr>hw_log := L0\<rparr>)" using serial_init_state by blast
  define k1 where "k1 = k\<lparr>irqs := (irqs k)\<lparr>hw_log := L0\<rparr>, k_com_port := COM1\<rparr>"
  have "uart_live (k_com_port k1) (irqs k1)" using assms(2) uart_live_cong [of "irqs k1" "irqs k"] by (simp add: k1_def)
  then obtain L where L: "kernel_print g k1 = Some (k1\<lparr>irqs := (irqs k1)\<lparr>hw_log := L\<rparr>,
      mem := write_bytes (k_msg k1) (take (CONSOLE_BUFFER_SIZE - 1) g @ [0]) (mem k1)\<rparr>)"
    using kernel_print_state by blast
  have "with_console (console_init g) k = map_option (\<lambda>k. k\<lparr>k_inited := True\<rparr>) (kernel_print g k1)"
    using L0 assms(1) unfolding kernel_print_def with_console_def c_def
    by (simp add: console_init_def k1_def bind_eq_None_conv split: bind_split)
  then show ?thesis using that [of L] L by (simp add: k1_def)
qed

subsection \<open>Reading the boot information\<close>

text \<open>Tags as values: a type and the bytes behind the header, padded to a multiple of eight bytes in memory.\<close>

type_synonym boot_tag = "u32 \<times> u8 list"

definition tag_bytes :: "boot_tag \<Rightarrow> u8 list" where
  "tag_bytes t = (let n = 8 + length (snd t)
     in le_bytes 4 (fst t) @ le_bytes 4 (of_nat n :: u32) @ snd t @ replicate ((n + 7) div 8 * 8 - n) 0)"

definition meminfo_tag :: "u32 \<Rightarrow> u32 \<Rightarrow> boot_tag" where
  "meminfo_tag lower upper = (MULTIBOOT_TAG_TYPE_BASIC_MEMINFO, le_bytes 4 lower @ le_bytes 4 upper)"

definition skipped_tag :: "boot_tag \<Rightarrow> bool" where
  "skipped_tag t \<longleftrightarrow> fst t \<notin> {MULTIBOOT_TAG_TYPE_END, MULTIBOOT_TAG_TYPE_BASIC_MEMINFO} \<and> length (snd t) < 2 ^ 31"

lemma align8:
  assumes "n < 2 ^ 31 + 8"
  shows "(of_nat n + 7 :: u32) AND NOT 7 = of_nat ((n + 7) div 8 * 8)"
proof -
  have m: "(7 :: u32) = mask 3" by (simp add: mask_eq_exp_minus_1)
  have "x AND NOT (mask 3) = push_bit 3 (drop_bit 3 x)" for x :: u32
    by (rule bit_eqI) (auto simp: bit_and_iff bit_not_iff bit_mask_iff bit_push_bit_iff bit_drop_bit_eq not_less)
  moreover have "drop_bit 3 (of_nat n + 7 :: u32) = of_nat ((n + 7) div 8)"
  proof (rule word_unat_eq_iff [THEN iffD2])
    have "unat (of_nat (n + 7) :: u32) = n + 7" using assms by (simp add: unat_of_nat take_bit_nat_eq_self del: of_nat_add)
    then have "unat (of_nat n + 7 :: u32) = n + 7" by simp
    then show "unat (drop_bit 3 (of_nat n + 7 :: u32)) = unat (of_nat ((n + 7) div 8) :: u32)"
      using assms by (simp add: drop_bit_eq_div unat_div unat_of_nat take_bit_nat_eq_self)
  qed
  ultimately show ?thesis unfolding m by (simp add: push_bit_eq_mult)
qed

lemma length_tag_bytes: "length (tag_bytes t) = (8 + length (snd t) + 7) div 8 * 8"
  by (simp add: tag_bytes_def Let_def)

lemma tag_header:
  assumes "read_bytes m p (length (tag_bytes t)) = tag_bytes t"
  shows "tag_type m p = fst t" "tag_size m p = of_nat (8 + length (snd t))"
proof -
  have l: "8 \<le> length (tag_bytes t)" by (simp add: length_tag_bytes)
  have "read_bytes m p 4 = le_bytes 4 (fst t)" "read_bytes m (p + 4) 4 = le_bytes 4 (of_nat (8 + length (snd t)) :: u32)"
    using read_bytes_part [OF assms, of 0 4] read_bytes_part [OF assms, of 4 4] l by (simp_all add: tag_bytes_def Let_def)
  then show "tag_type m p = fst t" "tag_size m p = of_nat (8 + length (snd t))"
    by (simp_all add: tag_type_def tag_size_def load32_def le_word_le_bytes)
qed

lemma init_heap_loop_skips:
  assumes "list_all skipped_tag pre" "read_bytes (mem k) p (length (concat (map tag_bytes pre))) = concat (map tag_bytes pre)"
  shows "init_heap_loop txt p k = init_heap_loop txt (p + of_nat (length (concat (map tag_bytes pre)))) k"
  using assms
proof (induction pre arbitrary: p)
  case (Cons t ts)
  define n where "n = length (tag_bytes t)"
  define r where "r = concat (map tag_bytes ts)"
  have ok: "skipped_tag t" "list_all skipped_tag ts" using Cons.prems(1) by simp_all
  have all: "concat (map tag_bytes (t # ts)) = tag_bytes t @ r" by (simp add: r_def)
  have rd: "read_bytes (mem k) p (n + length r) = tag_bytes t @ r" using Cons.prems(2) unfolding all by (simp add: n_def)
  have e: "read_bytes (mem k) p n = tag_bytes t" "read_bytes (mem k) (p + of_nat n) (length r) = r"
    using read_bytes_part [OF rd, of 0 n] read_bytes_part [OF rd, of n "length r"] by (simp_all add: n_def)
  note h = tag_header [OF e(1) [unfolded n_def]]
  have len: "length (snd t) < 2 ^ 31" using ok(1) by (simp add: skipped_tag_def)
  have nb: "n < 2 ^ 32" using len by (simp add: n_def length_tag_bytes)
  then have c: "ucast (of_nat n :: u32) = (of_nat n :: u64)"
    unfolding word_unat_eq_iff unat_ucast32 by (simp add: unat_of_nat take_bit_nat_eq_self)
  have "(tag_size (mem k) p + 7) AND NOT 7 = of_nat n"
    unfolding h(2) n_def length_tag_bytes by (rule align8) (use len in simp)
  then have "init_heap_loop txt p k = init_heap_loop txt (p + of_nat n) k"
    using ok(1) h(1) c by (subst init_heap_loop.simps) (simp add: skipped_tag_def)
  also have "\<dots> = init_heap_loop txt (p + of_nat n + of_nat (length r)) k"
    unfolding r_def by (rule Cons.IH) (use ok e(2) in \<open>simp_all add: r_def\<close>)
  finally show ?case unfolding all by (simp add: n_def add.assoc)
qed simp

lemma unat_kb: "unat (ucast (kb :: u32) * 1024 :: u64) = 1024 * unat kb"
proof -
  have "unat (ucast kb * 1024 :: u64) = unat (of_nat (unat kb * 1024) :: u64)" by simp
  also have "\<dots> = unat kb * 1024" by (rule unat_of_nat64) (use unat_less [of kb] in simp)
  finally show ?thesis by simp
qed

lemma init_heap_ok:
  assumes info: "list_all skipped_tag pre" "enc = concat (map tag_bytes (pre @ meminfo_tag lower upper # post))"
      "read_bytes (mem k) ((multiboot_addr k AND 0xFFFFFFFF) + 8) (length enc) = enc"
    and live: "uart_live (k_com_port k) (irqs k)"
    and heap: "0 < unat (binary_end k)" "1 \<le> upper" "unat (binary_end k) + 1024 * unat upper < 2 ^ 64"
  obtains h m L where "init_heap txt k = Some (k\<lparr>irqs := (irqs k)\<lparr>hw_log := L\<rparr>, root_heap := h, mem := m\<rparr>)"
    "kmem_rep h m [(unat (binary_end k), 1024 * unat upper)] {}" "heap_start h = binary_end k" "unat (heap_size h) = 1024 * unat upper"
proof -
  define p where "p = (multiboot_addr k AND 0xFFFFFFFF) + 8"
  define n where "n = length (concat (map tag_bytes pre))"
  have enc: "enc = concat (map tag_bytes pre) @ tag_bytes (meminfo_tag lower upper) @ concat (map tag_bytes post)" by (simp add: info(2))
  have l: "length (tag_bytes (meminfo_tag lower upper)) = 16" by (simp add: length_tag_bytes meminfo_tag_def)
  note part = read_bytes_part [OF info(3) [folded p_def]]
  have "read_bytes (mem k) p n = concat (map tag_bytes pre)"
    and t: "read_bytes (mem k) (p + of_nat n) 16 = tag_bytes (meminfo_tag lower upper)"
    using part [of 0 n] part [of n 16] l by (simp_all add: enc n_def)
  then have skip: "init_heap_loop txt p k = init_heap_loop txt (p + of_nat n) k"
    unfolding n_def by (intro init_heap_loop_skips info(1))
  have "read_bytes (mem k) (p + of_nat n + of_nat 12) 4 = le_bytes 4 upper"
    using read_bytes_part [OF t, of 12 4] by (simp add: tag_bytes_def meminfo_tag_def)
  then have up: "mem_upper (mem k) (p + of_nat n) = upper" by (simp add: mem_upper_def load32_def le_word_le_bytes)
  have ty: "tag_type (mem k) (p + of_nat n) = MULTIBOOT_TAG_TYPE_BASIC_MEMINFO"
    using tag_header(1) [of "mem k" "p + of_nat n" "meminfo_tag lower upper"] t l by (simp add: meminfo_tag_def)
  define txt' where "txt' = text_heap txt (ucast (mem_lower (mem k) (p + of_nat n))) (binary_end k) (ucast upper)"
  obtain L m1 where pr: "kernel_print txt' k = Some (k\<lparr>irqs := (irqs k)\<lparr>hw_log := L\<rparr>, mem := m1\<rparr>)"
    using kernel_print_state [OF live] by metis
  define m2 where "m2 = write_bytes (binary_end k) (replicate (unat (ucast upper :: u64)) 0xa5) m1"
  have "64 \<le> 1024 * unat upper" using heap(2) by (simp add: word_le_nat_alt)
  then obtain h m where i: "kmem_init (binary_end k) (ucast upper * 1024) m2 = Some (h, m)"
      "kmem_rep h m [(unat (binary_end k), 1024 * unat upper)] {}" "heap_start h = binary_end k" "heap_size h = ucast upper * 1024"
    using kmem_init_rep [of "binary_end k" "ucast upper * 1024" m2] heap by (auto simp: unat_kb)
  have "init_heap txt k = init_heap_at txt (p + of_nat n) k"
    unfolding init_heap_def Let_def p_def [symmetric] skip
    by (subst init_heap_loop.simps) (simp add: ty MULTIBOOT_TAG_TYPE_END_def MULTIBOOT_TAG_TYPE_BASIC_MEMINFO_def)
  also have "\<dots> = Some (k\<lparr>irqs := (irqs k)\<lparr>hw_log := L\<rparr>, root_heap := h, mem := m\<rparr>)"
    using i(1) by (simp add: init_heap_at_def up txt'_def [symmetric] pr m2_def)
  finally show ?thesis using that i unat_kb by simp
qed

subsection \<open>The kernel after the start\<close>

lemma write_bytes_changes_only:
  assumes "length bs \<le> n" "unat a + n \<le> 2 ^ 64"
  shows "changes_only {unat a..<unat a + n} m (write_bytes a bs m)"
  unfolding changes_only_def
proof (intro allI impI)
  fix x :: ptr assume x: "unat x \<notin> {unat a..<unat a + n}"
  have "\<not> unat (x - a) < length bs"
  proof
    assume l: "unat (x - a) < length bs"
    then have "unat (a + of_nat (unat (x - a)) - 0) = unat (a - 0) + unat (x - a)" by (intro unat_offset) (use assms in simp)
    then have "unat x = unat a + unat (x - a)" by simp
    then show False using x l assms(1) by simp
  qed
  then show "write_bytes a bs m x = m x" by (simp add: write_bytes_def)
qed

lemma pic_state: "\<exists>L. pic_disable (pic_init a b h) = h\<lparr>hw_log := L\<rparr>"
  by (simp add: pic_init_def pic_disable_def arch_io_write8_def arch_io_read8_def arch_io_wait_def io_out_def io_in_def Let_def) (rule exI, rule refl)

lemma lapic_init_state: "\<exists>x L. lapic_init b h = h\<lparr>lapic_ptr := x, hw_log := L\<rparr> \<and> log_grows p (hw_log h) L"
proof (cases "b = 0")
  case True
  then show ?thesis
    by (simp add: lapic_init_def arch_read_msr_def arch_write_msr_value lapic_read32_def lapic_write32_def Let_def)
      (intro exI conjI, rule refl, intro log_grows_msr log_grows_refl)
next
  case False
  then show ?thesis
    by (simp add: lapic_init_def arch_read_msr_def arch_write_msr_value lapic_read32_def lapic_write32_def Let_def)
      (intro exI conjI, rule refl, intro log_grows_msr log_grows_refl)
qed

lemma clock_writes_state: "\<exists>L. fold clock_write evs h = h\<lparr>hw_log := L\<rparr> \<and> log_grows p (hw_log h) L"
proof (induction evs arbitrary: h)
  case Nil
  show ?case by (intro exI [of _ "hw_log h"]) (simp add: log_grows_refl)
next
  case (Cons e evs)
  obtain r v where e: "e = Wrmsr r v" by (cases e)
  have "clock_write e h = h\<lparr>hw_log := Msr_out r v # hw_log h\<rparr>" by (simp add: e clock_write_def arch_write_msr_value)
  then show ?case using Cons.IH [of "clock_write e h"] log_grows_msr(2) [OF log_grows_refl] log_grows_trans by fastforce
qed

lemma first_irq:
  assumes "length (idt_table h) = NUM_IRQ" "length (irq_table h) = NUM_IRQ" "irq_table h' = irq_table (irq_manager_init h)" "irq_ok h'"
  shows "request_irq fn owner ctx h' = (32, irq_granted 32 fn owner ctx h')" "irq_ok (irq_granted 32 fn owner ctx h')"
proof -
  have f: "\<not> allocated (irq_table h' ! j)" if "j < NUM_IRQ" for j
    unfolding assms(3) irq_manager_init_state [OF assms(1,2)] using that assms(2) by simp
  have "request_irq fn owner ctx h' = (32, irq_granted 32 fn owner ctx h') \<and> irq_ok (irq_granted 32 fn owner ctx h')"
    using assms(4)
  proof (cases rule: request_irq_result [of h' fn owner ctx])
    case full
    then show ?thesis using f [of 32] by (simp add: NUM_IRQ_def FIRST_USER_IRQ_NUM_def)
  next
    case (granted j)
    have "\<not> 32 < j" using granted(2,4) f [of 32] by (auto simp: NUM_IRQ_def FIRST_USER_IRQ_NUM_def)
    then have "j = 32" using granted(1) by (simp add: FIRST_USER_IRQ_NUM_def)
    then show ?thesis using granted(5,6) by simp
  qed
  then show "request_irq fn owner ctx h' = (32, irq_granted 32 fn owner ctx h')" "irq_ok (irq_granted 32 fn owner ctx h')" by auto
qed

text \<open>
  The interrupt part of \<open>kmain\<close>: the old controllers are masked, the tables are set up, and the timer has the first vector.
\<close>

lemma kmain_irqs:
  assumes len: "length (idt_table h) = NUM_IRQ" "length (irq_table h) = NUM_IRQ"
    and h1: "h1 = lapic_init 0 (irq_manager_init (pic_disable (pic_init 32 40 h)))"
  obtains h2 where "request_irq fn owner NULL h1 = (32, h2)" "irq_ok h2"
    "irq_table h2 ! 32 = \<lparr>allocated = True, counter = 0, p_owner = owner, handler = fn, p_context = NULL\<rparr>"
    "last (outputs 0x21 (hw_log h2)) = 0xff" "last (outputs 0xa1 (hw_log h2)) = 0xff" "port_value h2 = port_value h"
proof -
  define h0 where "h0 = pic_disable (pic_init 32 40 h)"
  obtain L where L: "h0 = h\<lparr>hw_log := L\<rparr>" using pic_state unfolding h0_def by blast
  then have len0: "length (idt_table h0) = NUM_IRQ" "length (irq_table h0) = NUM_IRQ" using len by simp_all
  obtain x L1 where L1: "h1 = (irq_manager_init h0)\<lparr>lapic_ptr := x, hw_log := L1\<rparr>" "log_grows 0 (hw_log (irq_manager_init h0)) L1"
    using lapic_init_state unfolding h1 h0_def by blast
  have same: "hw_log (irq_manager_init h0) = hw_log h0" "port_value (irq_manager_init h0) = port_value h0"
    by (simp_all add: irq_manager_init_state [OF len0])
  have ok: "irq_ok h1" using irq_manager_init_ok [OF len0] by (simp add: L1(1) irq_ok_def)
  have t: "irq_table h1 = irq_table (irq_manager_init h0)" by (simp add: L1(1))
  note r = first_irq [OF len0 t ok, of fn owner NULL]
  have m: "last (outputs 0x21 (hw_log h1)) = 0xff" "last (outputs 0xa1 (hw_log h1)) = 0xff"
    using L1 same pic_outputs(3,4) [of 32 40 h] by (auto simp: log_grows_def h0_def)
  have "length (irq_table h1) = NUM_IRQ" using ok by (simp add: irq_ok_def)
  then show ?thesis
    using that [OF r] m L1(1) L same by (simp add: irq_granted_def NUM_IRQ_def)
qed

text \<open>The last message, if there is one, leaves the heap and everything but the log alone.\<close>

lemma kmain_last_print:
  assumes live: "uart_live (k_com_port k) (irqs k)" and rep: "kmem_rep (root_heap k) (mem k) F U"
    and out: "unat (k_msg k) + CONSOLE_BUFFER_SIZE \<le> heap_lo (root_heap k)"
  obtains L m where "(if b then kernel_print bs k else Some k) = Some (k\<lparr>irqs := (irqs k)\<lparr>hw_log := L\<rparr>, mem := m\<rparr>)"
    "log_grows (serial_reg (k_com_port k) SERIAL_DATA) (hw_log (irqs k)) L" "kmem_rep (root_heap k) m F U"
proof (cases b)
  case True
  obtain L where L: "kernel_print bs k = Some (k\<lparr>irqs := (irqs k)\<lparr>hw_log := L\<rparr>,
      mem := write_bytes (k_msg k) (take (CONSOLE_BUFFER_SIZE - 1) bs @ [0]) (mem k)\<rparr>)"
      "log_grows (serial_reg (k_com_port k) SERIAL_DATA) (hw_log (irqs k)) L"
    by (rule kernel_print_state [OF live])
  have "changes_only {unat (k_msg k)..<unat (k_msg k) + CONSOLE_BUFFER_SIZE} (mem k)
      (write_bytes (k_msg k) (take (CONSOLE_BUFFER_SIZE - 1) bs @ [0]) (mem k))"
  proof (rule write_bytes_changes_only)
    have "heap_lo (root_heap k) < 2 ^ 64" unfolding heap_lo_def by (rule unat_less64)
    then show "unat (k_msg k) + CONSOLE_BUFFER_SIZE \<le> 2 ^ 64" using out by linarith
  qed (simp add: CONSOLE_BUFFER_SIZE_def)
  then have "kmem_rep (root_heap k) (write_bytes (k_msg k) (take (CONSOLE_BUFFER_SIZE - 1) bs @ [0]) (mem k)) F U"
    by (rule kmem_rep_outside [OF rep]) (use out in auto)
  then show ?thesis using that L True by simp
next
  case False
  then show ?thesis using that [where L = "hw_log (irqs k)" and m = "mem k"] rep by (simp add: log_grows_refl)
qed

text \<open>The console and the heap, which is read from the boot information after the greeting was printed.\<close>

lemma kmain_console_heap:
  assumes con: "\<not> k_inited k" "uart_live COM1 (irqs k)"
    and info: "list_all skipped_tag pre" "enc = concat (map tag_bytes (pre @ meminfo_tag lower upper # post))"
      "read_bytes (mem k) ((multiboot_addr k AND 0xFFFFFFFF) + 8) (length enc) = enc"
      "separate (k_msg k) CONSOLE_BUFFER_SIZE ((multiboot_addr k AND 0xFFFFFFFF) + 8) (length enc)"
    and heap: "1 \<le> upper" "unat (binary_end k) + 1024 * unat upper < 2 ^ 64" "0 < unat (binary_end k)"
  obtains hp m L where "with_console (console_init (text_greeting txt)) k \<bind> init_heap txt =
      Some (k\<lparr>irqs := (irqs k)\<lparr>hw_log := L\<rparr>, k_com_port := COM1, k_inited := True, root_heap := hp, mem := m\<rparr>)"
    "kmem_rep hp m [(unat (binary_end k), 1024 * unat upper)] {}" "heap_start hp = binary_end k"
proof -
  define a where "a = (multiboot_addr k AND 0xFFFFFFFF) + 8"
  define msg where "msg = take (CONSOLE_BUFFER_SIZE - 1) (text_greeting txt) @ [0]"
  obtain L0 where c: "with_console (console_init (text_greeting txt)) k =
      Some (k\<lparr>irqs := (irqs k)\<lparr>hw_log := L0\<rparr>, k_com_port := COM1, k_inited := True, mem := write_bytes (k_msg k) msg (mem k)\<rparr>)"
    using console_init_state [OF con] unfolding msg_def by blast
  define k1 where "k1 = k\<lparr>irqs := (irqs k)\<lparr>hw_log := L0\<rparr>, k_com_port := COM1, k_inited := True, mem := write_bytes (k_msg k) msg (mem k)\<rparr>"
  have "separate (k_msg k) (length msg) a (length enc)"
    using info(4) by (auto simp: separate_def msg_def a_def CONSOLE_BUFFER_SIZE_def)
  then have r: "read_bytes (mem k1) ((multiboot_addr k1 AND 0xFFFFFFFF) + 8) (length enc) = enc"
    using info(3) read_write_separate [of "k_msg k" msg a "length enc" "mem k"] by (simp add: k1_def a_def)
  have l: "uart_live (k_com_port k1) (irqs k1)" using con(2) uart_live_cong [of "irqs k1" "irqs k"] by (simp add: k1_def)
  have b: "binary_end k1 = binary_end k" by (simp add: k1_def)
  obtain hp m L1 where i: "init_heap txt k1 = Some (k1\<lparr>irqs := (irqs k1)\<lparr>hw_log := L1\<rparr>, root_heap := hp, mem := m\<rparr>)"
      "kmem_rep hp m [(unat (binary_end k), 1024 * unat upper)] {}" "heap_start hp = binary_end k"
    by (rule init_heap_ok [OF info(1,2) r l, unfolded b, OF heap(3,1,2)])
  show ?thesis by (rule that [OF _ i(2,3), of L1]) (use c [folded k1_def] i(1) in \<open>simp add: k1_def\<close>)
qed

subsection \<open>The heap as the rest of the kernel uses it\<close>

text \<open>
  \<open>alloc\<close> and \<open>free\<close> of the kernel always return, keep the heap well-formed and leave the interrupt flag as it was; a block that
  \<open>alloc\<close> returns joins the live blocks, and one that \<open>free\<close> is given leaves them.
\<close>

lemma heap_alloc_ok:
  assumes "kmem_rep (root_heap k) (mem k) F U"
  shows "\<exists>p k' F' U'. heap_alloc n k = Some (p, k') \<and> kmem_rep (root_heap k') (mem k') F' U' \<and> irqs k' = irqs k \<and>
    (if p = NULL then U' = U else U' = insert (unat p - 16, request n) U)"
proof (cases "first_fit (request n) F")
  case None
  then have "kmem_alloc (root_heap k) n (mem k) = Some (NULL, root_heap k, mem k)" by (rule kmem_alloc_none [OF assms])
  then show ?thesis using assms
    by (auto simp: heap_alloc_def arch_irq_save_def arch_disable_interrupts_def arch_irq_restore_def)
next
  case (Some x)
  obtain a F' where x: "x = (a, F')" by (cases x)
  obtain h m where h: "kmem_alloc (root_heap k) n (mem k) = Some (of_nat (a + 16), h, m)" "kmem_rep h m F' (insert (a, request n) U)"
    using kmem_alloc_some [OF assms] Some unfolding x by blast
  have "a + request n < 2 ^ 64" "64 \<le> request n" using h(2) by (auto simp: kmem_rep_def wf_blocks_def)
  then have "unat (of_nat (a + 16) :: ptr) = a + 16" by (intro unat_of_nat64) simp
  moreover from this have "(of_nat (a + 16) :: ptr) \<noteq> NULL" by (metis add_is_0 unat_0 zero_neq_numeral)
  ultimately show ?thesis using h
    by (auto simp: heap_alloc_def arch_irq_save_def arch_disable_interrupts_def arch_irq_restore_def simp del: of_nat_add)
qed

lemma heap_free_ok:
  assumes "kmem_rep (root_heap k) (mem k) F U" "x \<in> U"
  shows "\<exists>k' F'. heap_free (of_nat (fst x + 16)) k = Some k' \<and> kmem_rep (root_heap k') (mem k') F' (U - {x}) \<and> irqs k' = irqs k"
  using kmem_free_rep [OF assms]
  by (auto simp: heap_free_def arch_irq_save_def arch_disable_interrupts_def arch_irq_restore_def simp del: of_nat_add)

text \<open>The constructors of an array run in its order, each once.\<close>

lemma run_array_all:
  assumes "\<forall>i\<in>set is. \<forall>k. call (f i) k = Some (g (f i) k) \<and> mem (g (f i) k) = mem k" "\<forall>i\<in>set is. load64 (mem k) (a + of_nat (8 * i)) = f i"
  shows "run_array call a is k = Some (fold g (map f is) k)"
  using assms by (induction "is" arbitrary: k) auto

text \<open>
  C4. The kernel comes up: with a working serial port, boot information that has a memory tag, and the static tables as the linker
  leaves them, kmain reaches otrix_main. Then the heap is one free block of all the upper memory behind the kernel, every address
  below 4 GiB is mapped to itself, the interrupt tables are well-formed, the timer interrupt leads to the scheduler and is programmed
  into the local APIC, the old interrupt controllers are masked, and interrupts are on.
\<close>

theorem kmain_ready:
  assumes con: "\<not> k_inited k" "uart_live COM1 (irqs k)"
    and info: "list_all skipped_tag pre" "enc = concat (map tag_bytes (pre @ meminfo_tag lower upper # post))"
      "read_bytes (mem k) ((multiboot_addr k AND 0xFFFFFFFF) + 8) (length enc) = enc"
      "separate (k_msg k) CONSOLE_BUFFER_SIZE ((multiboot_addr k AND 0xFFFFFFFF) + 8) (length enc)"
    and heap: "1 \<le> upper" "unat (binary_end k) + 1024 * unat upper < 2 ^ 64" "unat (k_msg k) + CONSOLE_BUFFER_SIZE \<le> unat (binary_end k)"
    and tables: "paging_boot (page_tables k)" "length (idt_table (irqs k)) = NUM_IRQ" "length (irq_table (irqs k)) = NUM_IRQ"
  shows "\<exists>k'. kmain txt k = Some k' \<and> kmem_rep (root_heap k') (mem k') [(unat (binary_end k), 1024 * unat upper)] {} \<and>
    (\<forall>va. unat va < 2 ^ 32 \<longrightarrow> translate (page_tables k') va = Some va) \<and> irq_ok (irqs k') \<and>
    irq_table (irqs k') ! 32 = \<lparr>allocated = True, counter = 0, p_owner = timer_name_addr k, handler = timer_irq_addr k, p_context = NULL\<rparr> \<and>
    Msr_out 0x832 (0x40000 OR 32) \<in> set (hw_log (irqs k')) \<and>
    last (outputs 0x21 (hw_log (irqs k'))) = 0xff \<and> last (outputs 0xa1 (hw_log (irqs k'))) = 0xff \<and>
    rflags (irqs k') AND RFLAGS_IF \<noteq> 0"
proof -
  have be: "0 < unat (binary_end k)" using heap(3) by (simp add: CONSOLE_BUFFER_SIZE_def)
  have live: "uart_live COM1 h" if "port_value h = port_value (irqs k)" for h :: irq_manager
    using con(2) uart_live_cong [of h "irqs k"] that by simp
  obtain hp m L1 where i: "with_console (console_init (text_greeting txt)) k \<bind> init_heap txt =
        Some (k\<lparr>irqs := (irqs k)\<lparr>hw_log := L1\<rparr>, k_com_port := COM1, k_inited := True, root_heap := hp, mem := m\<rparr>)"
      "kmem_rep hp m [(unat (binary_end k), 1024 * unat upper)] {}" "heap_start hp = binary_end k"
    by (rule kmain_console_heap [OF con info heap(1,2) be])
  define h1 where "h1 = lapic_init 0 (irq_manager_init (pic_disable (pic_init 32 40 ((irqs k)\<lparr>hw_log := L1\<rparr>))))"
  obtain h2 where h2: "request_irq (timer_irq_addr k) (timer_name_addr k) NULL h1 = (32, h2)" "irq_ok h2"
      "irq_table h2 ! 32 = \<lparr>allocated = True, counter = 0, p_owner = timer_name_addr k, handler = timer_irq_addr k, p_context = NULL\<rparr>"
      "last (outputs 0x21 (hw_log h2)) = 0xff" "last (outputs 0xa1 (hw_log h2)) = 0xff" "port_value h2 = port_value (irqs k)"
    by (rule kmain_irqs [OF _ _ h1_def]) (use tables in simp_all)
  define L3 where "L3 = Msr_out 0x832 (0x40000 OR 32) # Msr_out 0x6e0 0 # hw_log h2"
  have tm: "lapic_init_timer (word_of_int 32) h2 = h2\<lparr>hw_log := L3\<rparr>"
    by (simp add: lapic_init_timer_def lapic_write32_def arch_write_msr_value IA32_MSR_TSC_DEADLINE_def IA32_MSR_X2APIC_MMIO_def
      lapic_timer_lvt_def L3_def)
  obtain ok evs where clk: "kvmclock_init (k_cpuid k) (wall_clock_addr k) (time_info_addr k) = (ok, evs)" by fastforce
  obtain L4 where L4: "fold clock_write evs (h2\<lparr>hw_log := L3\<rparr>) = h2\<lparr>hw_log := L4\<rparr>" "log_grows 0x3f8 L3 L4"
    using clock_writes_state [of evs "h2\<lparr>hw_log := L3\<rparr>" "0x3f8"] by auto
  define k4 where "k4 = k\<lparr>irqs := h2\<lparr>hw_log := L4\<rparr>, k_com_port := COM1, k_inited := True, root_heap := hp, mem := m, page_tables := init_identity_mapping (page_tables k)\<rparr>"
  obtain L5 m5 where k5: "(if \<not> ok then kernel_print (text_no_clock txt) k4 else Some k4) = Some (k4\<lparr>irqs := (irqs k4)\<lparr>hw_log := L5\<rparr>, mem := m5\<rparr>)"
      "log_grows 0x3f8 L4 L5" "kmem_rep hp m5 [(unat (binary_end k), 1024 * unat upper)] {}"
  proof (rule kmain_last_print [of k4 "[(unat (binary_end k), 1024 * unat upper)]" "{}" "\<not> ok" "text_no_clock txt"])
    show "uart_live (k_com_port k4) (irqs k4)" using live h2(6) by (simp add: k4_def)
    show "kmem_rep (root_heap k4) (mem k4) [(unat (binary_end k), 1024 * unat upper)] {}" using i(2) by (simp add: k4_def)
    show "unat (k_msg k4) + CONSOLE_BUFFER_SIZE \<le> heap_lo (root_heap k4)" using heap(3) i(3) by (simp add: k4_def heap_lo_def)
  qed (auto simp: k4_def serial_reg_def SERIAL_DATA_def SERIAL_COM1_def)
  define k6 where "k6 = k4\<lparr>irqs := arch_enable_interrupts ((irqs k4)\<lparr>hw_log := L5\<rparr>), mem := m5\<rparr>"
  have x: "k\<lparr>k_com_port := COM1, k_inited := True, root_heap := hp, mem := m, page_tables := init_identity_mapping (page_tables k),
      irqs := h2\<lparr>hw_log := L4\<rparr>\<rparr> = k4"
    by (simp add: k4_def)
  have "kmain txt k = (if \<not> ok then kernel_print (text_no_clock txt) k4 else Some k4) \<bind> (\<lambda>k. Some (k\<lparr>irqs := arch_enable_interrupts (irqs k)\<rparr>))"
    using i(1) h2(1) tm clk L4(1) unfolding h1_def by (simp add: kmain_def x Let_def bind_assoc [symmetric])
  then have "kmain txt k = Some k6" unfolding k5(1) by (simp add: k6_def)
  moreover have "log_grows 0x3f8 (hw_log h2) L3" unfolding L3_def by (intro log_grows_msr log_grows_refl)
  then have g: "log_grows 0x3f8 (hw_log h2) L5" using log_grows_trans L4(2) k5(2) by blast
  moreover have "Msr_out 0x832 (0x40000 OR 32) \<in> set L5"
    using log_grows_set [OF log_grows_trans [OF L4(2) k5(2)]] by (simp add: L3_def)
  moreover have "\<forall>va. unat va < 2 ^ 32 \<longrightarrow> translate (init_identity_mapping (page_tables k)) va = Some va"
    using identity_walk [OF tables(1)] by simp
  moreover have "(rflags h2 OR RFLAGS_IF) AND RFLAGS_IF \<noteq> 0" by (simp add: RFLAGS_IF_def bit.conj_disj_distrib2)
  moreover have "irq_ok (irqs k6)" using h2(2) by (simp add: k6_def k4_def arch_enable_interrupts_def irq_ok_def)
  ultimately show ?thesis
    using h2(3-5) k5(3) by (intro exI [of _ k6]) (simp add: k6_def k4_def arch_enable_interrupts_def log_grows_def)
qed

definition demo_tags :: "boot_tag list" where
  "demo_tags = [(2, [0x47, 0x52, 0x55, 0x42, 0]), meminfo_tag 639 0xFC00, (0, [])]"

definition demo_text :: kmain_text where
  "demo_text = \<lparr>text_greeting = [0x48, 0x69], text_heap = (\<lambda>_ _ _. [0x68]), text_no_clock = [0x6e]\<rparr>"

definition demo_kernel :: kernel where
  "demo_kernel = vblk_state.extend (dev_state.extend
       (demo_dev\<lparr>irqs := demo_irqs\<lparr>port_value := (\<lambda>_ _ _. 0x20)\<rparr>, mem := write_bytes 0x9008 (concat (map tag_bytes demo_tags)) (\<lambda>_. 0)\<rparr>)
       \<lparr>vb_dev = demo_vdev, request_q = 0, vb_this = 0x7500, request_completion_addr = 0x7600\<rparr>)
     \<lparr>k_com_port = \<lparr>baud = 0, com_port = 0\<rparr>, k_inited = False, k_msg = 0x104000, root_heap = \<lparr>heap_start = 0, heap_size = 0, free_list = 0\<rparr>,
      page_tables = demo_paging, multiboot_addr = 0xABCD000000009000, binary_end = 0x200000, k_cpuid = (\<lambda>_ _. (0, 0, 0, 0)),
      wall_clock_addr = 0x105000, time_info_addr = 0x105020, timer_irq_addr = 0x110000, timer_name_addr = 0x111000, net_task_addr = 0x300000\<rparr>"

lemma demo_kernel_fields:
  "\<not> k_inited demo_kernel" "k_msg demo_kernel = 0x104000" "binary_end demo_kernel = 0x200000" "page_tables demo_kernel = demo_paging"
  "multiboot_addr demo_kernel AND 0xFFFFFFFF = 0x9000" "mem demo_kernel = write_bytes 0x9008 (concat (map tag_bytes demo_tags)) (\<lambda>_. 0)"
  "irqs demo_kernel = demo_irqs\<lparr>port_value := (\<lambda>_ _ _. 0x20)\<rparr>" "timer_irq_addr demo_kernel = 0x110000" "timer_name_addr demo_kernel = 0x111000"
  by (simp_all add: demo_kernel_def vblk_state.defs dev_state.defs)

theorem kmain_ready_witness:
  "\<exists>k'. kmain demo_text demo_kernel = Some k' \<and> kmem_rep (root_heap k') (mem k') [(0x200000, 0x3F00000)] {} \<and>
    translate (page_tables k') 0xFEE00000 = Some 0xFEE00000 \<and> handler (irq_table (irqs k') ! 32) = 0x110000 \<and>
    Msr_out 0x832 0x40020 \<in> set (hw_log (irqs k'))"
proof -
  note f = demo_kernel_fields
  define enc where "enc = concat (map tag_bytes ([(2, [0x47, 0x52, 0x55, 0x42, 0])] @ meminfo_tag 639 0xFC00 # [(0, [])]))"
  have len: "length enc = 40" by (simp add: enc_def length_tag_bytes meminfo_tag_def)
  have m: "mem demo_kernel = write_bytes 0x9008 enc (\<lambda>_. 0)" by (simp add: f demo_tags_def enc_def)
  have live: "uart_live COM1 (irqs demo_kernel)"
    unfolding uart_live_def by (intro allI exI [of _ 0]) (simp add: f serial_tx_ready_parts(1) SERIAL_LSR_TX_EMPTY_def)
  have tabs: "length (idt_table demo_irqs) = NUM_IRQ" "length (irq_table demo_irqs) = NUM_IRQ"
    unfolding demo_irqs_def by (subst irq_manager_init_state; simp add: NUM_IRQ_def FIRST_USER_IRQ_NUM_def)+
  have "\<exists>k'. kmain demo_text demo_kernel = Some k' \<and> kmem_rep (root_heap k') (mem k') [(unat (binary_end demo_kernel), 1024 * unat (0xFC00 :: u32))] {} \<and>
    (\<forall>va. unat va < 2 ^ 32 \<longrightarrow> translate (page_tables k') va = Some va) \<and> irq_ok (irqs k') \<and>
    irq_table (irqs k') ! 32 = \<lparr>allocated = True, counter = 0, p_owner = timer_name_addr demo_kernel, handler = timer_irq_addr demo_kernel, p_context = NULL\<rparr> \<and>
    Msr_out 0x832 (0x40000 OR 32) \<in> set (hw_log (irqs k')) \<and>
    last (outputs 0x21 (hw_log (irqs k'))) = 0xff \<and> last (outputs 0xa1 (hw_log (irqs k'))) = 0xff \<and>
    rflags (irqs k') AND RFLAGS_IF \<noteq> 0"
  proof (rule kmain_ready [OF f(1) live _ enc_def])
    show "list_all skipped_tag [(2, [0x47, 0x52, 0x55, 0x42, 0])]"
      by (simp add: skipped_tag_def MULTIBOOT_TAG_TYPE_END_def MULTIBOOT_TAG_TYPE_BASIC_MEMINFO_def)
    show "read_bytes (mem demo_kernel) ((multiboot_addr demo_kernel AND 0xFFFFFFFF) + 8) (length enc) = enc"
      unfolding m f(5) by (simp add: read_write_same len)
    show "separate (k_msg demo_kernel) CONSOLE_BUFFER_SIZE ((multiboot_addr demo_kernel AND 0xFFFFFFFF) + 8) (length enc)"
      unfolding f len by (simp add: separate_def CONSOLE_BUFFER_SIZE_def)
  qed (use tabs in \<open>simp_all add: f paging_boot_def demo_paging_def CONSOLE_BUFFER_SIZE_def\<close>)
  then show ?thesis by (auto simp: f)
qed

end
